(* ===== verification/Xv6_Prelude.thy ===== *)
theory Xv6_Prelude
  imports "HOL-Library.Word"
begin

text \<open>
  Shared vocabulary of the development: the C integer types of
  \<^verbatim>\<open>kernel/types.h\<close>, the result type that makes every panic, every
  blocking point and every non-returning loop of the kernel a value, the
  named collections the component proofs draw on, and the generic facts on
  lists, options and words that several components use.
\<close>

unbundle bit_operations_syntax

named_theorems xv6_consts \<open>numeric constants of param.h, fs.h, riscv.h and memlayout.h\<close>
named_theorems res_simps \<open>rules on the result type\<close>
named_theorems page_simps \<open>page arithmetic on 64-bit addresses\<close>

section \<open>C integer types\<close>

type_synonym u8 = "8 word"
type_synonym u16 = "16 word"
type_synonym u32 = "32 word"
type_synonym u64 = "64 word"

section \<open>Locks and sleep channels\<close>

text \<open>
  Spin locks and sleep channels are addresses of distinct kernel objects; the
  model names the object. A sleep lock is a field of the buffer or in-memory inode
  it protects.
\<close>

datatype slk = Slk_buf nat | Slk_inode nat

datatype lockid =
    L_kmem | L_pid | L_wait | L_ticks | L_proc nat | L_bcache | L_log
  | L_itable | L_ftable | L_cons | L_pr | L_uart_tx | L_vdisk
  | L_pipe u64 | L_slk slk

datatype chan =
    Ch_proc nat | Ch_ticks | Ch_log | Ch_buf nat | Ch_slk slk | Ch_pipe_nread u64 | Ch_pipe_nwrite u64
  | Ch_cons_r | Ch_uart_tx_r | Ch_disk_free

section \<open>Results: value, panic, sleep, or no return\<close>

text \<open>
  \<open>Ok\<close> is a normal return, \<open>Panic\<close> a call of \<^verbatim>\<open>panic\<close> (or a kernel-mode
  fault, which \<^verbatim>\<open>kerneltrap\<close> turns into one), \<open>Block c\<close> a call of
  \<^verbatim>\<open>sleep\<close> on channel \<open>c\<close> that the running thread cannot pass by itself, and
  \<open>NoFuel\<close> a loop that has not ended within the bound of its model.
\<close>

datatype 'a res = Ok 'a | Panic string | Block chan | NoFuel

fun rbind :: "'a res \<Rightarrow> ('a \<Rightarrow> 'b res) \<Rightarrow> 'b res" where
  "rbind (Ok x) f = f x"
| "rbind (Panic e) f = Panic e"
| "rbind (Block c) f = Block c"
| "rbind NoFuel f = NoFuel"

lemma rbind_cong [fundef_cong]:
  "m = m' \<Longrightarrow> (\<And>x. m' = Ok x \<Longrightarrow> f x = g x) \<Longrightarrow> rbind m f = rbind m' g"
  by (cases m') auto

lemma rbind_Ok_iff [res_simps]:
  "rbind m f = Ok y \<longleftrightarrow> (\<exists>x. m = Ok x \<and> f x = Ok y)"
  by (cases m) auto

lemma rbind_Panic_iff [res_simps]:
  "rbind m f = Panic e \<longleftrightarrow> m = Panic e \<or> (\<exists>x. m = Ok x \<and> f x = Panic e)"
  by (cases m) auto

lemma rbind_NoFuel_iff [res_simps]:
  "rbind m f = NoFuel \<longleftrightarrow> m = NoFuel \<or> (\<exists>x. m = Ok x \<and> f x = NoFuel)"
  by (cases m) auto

lemma rbind_Block_iff [res_simps]:
  "rbind m f = Block c \<longleftrightarrow> m = Block c \<or> (\<exists>x. m = Ok x \<and> f x = Block c)"
  by (cases m) auto

lemma rbind_assoc: "rbind (rbind m f) g = rbind m (\<lambda>x. rbind (f x) g)"
  by (cases m) auto

lemma rbind_if: "rbind (if b then m else n) f = (if b then rbind m f else rbind n f)"
  by simp

text \<open>Total correctness of a result: it returns, and the value satisfies \<open>P\<close>.\<close>

definition returns :: "'a res \<Rightarrow> ('a \<Rightarrow> bool) \<Rightarrow> bool" where
  "returns m P \<longleftrightarrow> (\<exists>x. m = Ok x \<and> P x)"

lemma returns_Ok [simp]: "returns (Ok x) P \<longleftrightarrow> P x"
  by (simp add: returns_def)

lemma returns_Panic [simp]: "\<not> returns (Panic e) P"
  by (simp add: returns_def)

lemma returns_Block [simp]: "\<not> returns (Block c) P"
  by (simp add: returns_def)

lemma returns_NoFuel [simp]: "\<not> returns NoFuel P"
  by (simp add: returns_def)

lemma returns_rbind [simp]: "returns (rbind m f) P \<longleftrightarrow> returns m (\<lambda>x. returns (f x) P)"
  by (cases m) auto

lemma returns_mono: "returns m P \<Longrightarrow> (\<And>x. P x \<Longrightarrow> Q x) \<Longrightarrow> returns m Q"
  by (auto simp: returns_def)

lemma returnsE:
  assumes "returns m P"
  obtains x where "m = Ok x" "P x"
  using assms by (auto simp: returns_def)

text \<open>\<open>ensures m P\<close> is partial correctness: if \<open>m\<close> is a value, it satisfies \<open>P\<close>.\<close>

definition ensures :: "'a res \<Rightarrow> ('a \<Rightarrow> bool) \<Rightarrow> bool" where
  "ensures m P \<longleftrightarrow> (\<forall>x. m = Ok x \<longrightarrow> P x)"

lemma ensures_simps [simp]:
  "ensures (Ok x) P \<longleftrightarrow> P x" "ensures (Panic e) P" "ensures (Block c) P" "ensures NoFuel P"
  by (simp_all add: ensures_def)

lemma ensures_rbind [simp]: "ensures (rbind m f) P \<longleftrightarrow> ensures m (\<lambda>x. ensures (f x) P)"
  by (cases m) simp_all

lemma ensures_mono: "ensures m P \<Longrightarrow> (\<And>x. P x \<Longrightarrow> Q x) \<Longrightarrow> ensures m Q"
  by (simp add: ensures_def)

lemma ensures_D: "ensures m P \<Longrightarrow> m = Ok x \<Longrightarrow> P x"
  by (simp add: ensures_def)

lemma ensures_Let [simp]: "ensures (Let x f) P \<longleftrightarrow> ensures (f x) P"
  by simp

lemma ensures_any: "(\<And>x. Q x) \<Longrightarrow> ensures m Q"
  by (simp add: ensures_def)

section \<open>Lists\<close>

text \<open>The index of the first element that satisfies a predicate: what the
  kernel's table scans compute.\<close>

fun find_idx :: "('a \<Rightarrow> bool) \<Rightarrow> 'a list \<Rightarrow> nat option" where
  "find_idx P [] = None"
| "find_idx P (x # xs) = (if P x then Some 0 else map_option Suc (find_idx P xs))"

lemma nth_upd: "xs[i := x] ! j = (if i = j \<and> j < length xs then x else xs ! j)"
  by (cases "i < length xs") (auto simp: nth_list_update list_update_beyond)

lemma find_idx_None_iff: "find_idx P xs = None \<longleftrightarrow> (\<forall>x\<in>set xs. \<not> P x)"
  by (induction xs) auto

lemma find_idx_SomeD:
  "find_idx P xs = Some i \<Longrightarrow> i < length xs \<and> P (xs ! i) \<and> (\<forall>j<i. \<not> P (xs ! j))"
proof (induction xs arbitrary: i)
  case Nil
  then show ?case by simp
next
  case (Cons x xs)
  show ?case
  proof (cases "P x")
    case True
    with Cons.prems show ?thesis by simp
  next
    case False
    with Cons.prems obtain k where k: "find_idx P xs = Some k" "i = Suc k" by auto
    from Cons.IH [OF k(1)] False k(2) show ?thesis
      by (auto simp: less_Suc_eq_0_disj)
  qed
qed

lemma find_idx_cong: "map P xs = map Q ys \<Longrightarrow> find_idx P xs = find_idx Q ys"
  by (induction xs arbitrary: ys) auto

lemma find_idx_SomeI:
  "i < length xs \<Longrightarrow> P (xs ! i) \<Longrightarrow> (\<And>j. j < i \<Longrightarrow> \<not> P (xs ! j)) \<Longrightarrow> find_idx P xs = Some i"
proof (induction xs arbitrary: i)
  case Nil
  then show ?case by simp
next
  case (Cons x xs)
  show ?case
  proof (cases i)
    case 0
    with Cons.prems show ?thesis by simp
  next
    case (Suc k)
    have "\<not> P x" using Cons.prems(3) [of 0] Suc by simp
    moreover have "find_idx P xs = Some k"
    proof (rule Cons.IH)
      show "\<not> P (xs ! j)" if "j < k" for j
        using Cons.prems(3) [of "Suc j"] that Suc by simp
    qed (use Cons.prems Suc in auto)
    ultimately show ?thesis using Suc by simp
  qed
qed

section \<open>Words\<close>

lemma unat_of_nat_small: "n < 2 ^ LENGTH('a) \<Longrightarrow> unat (of_nat n :: 'a::len word) = n"
  by (simp add: unat_of_nat take_bit_nat_eq_self)

lemma unat_lt2p: "unat (w :: 'a::len word) < 2 ^ LENGTH('a)"
  by (fact unsigned_less)

lemma and_not_mask_eq: "(a :: 'a::len word) AND NOT (mask n) = push_bit n (drop_bit n a)"
  by (rule bit_word_eqI) (auto simp: bit_simps)

end
