(* ===== verification/Spinlock.thy ===== *)
theory Spinlock
  imports Xv6_Prelude
begin

text \<open>
  Spin locks (\<^verbatim>\<open>kernel/spinlock.c\<close>). The first part is the machine view: every CPU
  has its interrupt-enable bit, its \<^verbatim>\<open>push_off\<close> depth and the saved enable
  bit of \<^verbatim>\<open>struct cpu\<close>; acquiring and releasing are split at the atomic
  memory operations, and the CPUs interleave at that granularity. The second
  part is the view of one running kernel thread, used by all other components:
  the stack of locks it holds. The refinement between the two is proved here.
\<close>

section \<open>The machine view\<close>

record spinlock =
  locked :: bool
  lk_cpu :: "nat option"

record cpu =
  sie :: bool
  noff :: int
  intena :: bool

text \<open>\<open>pc\<close> is where a CPU is inside \<^verbatim>\<open>acquire\<close> or \<^verbatim>\<open>release\<close>; \<open>owned\<close> is the list of
  locks whose \<^verbatim>\<open>acquire\<close> has returned on the CPU and whose \<^verbatim>\<open>release\<close> has not
  started, newest first; \<open>pushes\<close> counts the \<^verbatim>\<open>push_off\<close> calls made outside
  \<^verbatim>\<open>acquire\<close> (as in \<^verbatim>\<open>myproc\<close>) that have not been popped.\<close>

datatype lock_pc = Run | Spin lockid | Got lockid | Rel lockid

record mach =
  cpus :: "nat \<Rightarrow> cpu"
  locks :: "lockid \<Rightarrow> spinlock"
  pc :: "nat \<Rightarrow> lock_pc"
  owned :: "nat \<Rightarrow> lockid list"
  pushes :: "nat \<Rightarrow> nat"

definition set_cpu :: "nat \<Rightarrow> (cpu \<Rightarrow> cpu) \<Rightarrow> mach \<Rightarrow> mach" where
  "set_cpu c f m = m\<lparr>cpus := (cpus m)(c := f (cpus m c))\<rparr>"

definition set_lock :: "lockid \<Rightarrow> (spinlock \<Rightarrow> spinlock) \<Rightarrow> mach \<Rightarrow> mach" where
  "set_lock l f m = m\<lparr>locks := (locks m)(l := f (locks m l))\<rparr>"

definition initlock :: "lockid \<Rightarrow> mach \<Rightarrow> mach" where
  "initlock l m = set_lock l (\<lambda>k. k\<lparr>locked := False, lk_cpu := None\<rparr>) m"

definition intr_on :: "nat \<Rightarrow> mach \<Rightarrow> mach" where
  "intr_on c m = set_cpu c (\<lambda>k. k\<lparr>sie := True\<rparr>) m"

definition intr_off :: "nat \<Rightarrow> mach \<Rightarrow> mach" where
  "intr_off c m = set_cpu c (\<lambda>k. k\<lparr>sie := False\<rparr>) m"

definition intr_get :: "nat \<Rightarrow> mach \<Rightarrow> bool" where
  "intr_get c m = sie (cpus m c)"

definition push_off :: "nat \<Rightarrow> mach \<Rightarrow> mach" where
  "push_off c m =
     (let old = intr_get c m;
          m = intr_off c m;
          m = (if noff (cpus m c) = 0 then set_cpu c (\<lambda>k. k\<lparr>intena := old\<rparr>) m else m)
      in set_cpu c (\<lambda>k. k\<lparr>noff := noff k + 1\<rparr>) m)"

definition pop_off :: "nat \<Rightarrow> mach \<Rightarrow> mach res" where
  "pop_off c m =
     (if intr_get c m then Panic ''pop_off - interruptible''
      else if noff (cpus m c) < 1 then Panic ''pop_off''
      else let m = set_cpu c (\<lambda>k. k\<lparr>noff := noff k - 1\<rparr>) m
           in if noff (cpus m c) = 0 \<and> intena (cpus m c) then Ok (intr_on c m) else Ok m)"

definition holding :: "nat \<Rightarrow> lockid \<Rightarrow> mach \<Rightarrow> bool" where
  "holding c l m \<longleftrightarrow> locked (locks m l) \<and> lk_cpu (locks m l) = Some c"

text \<open>\<open>acquire_enter\<close> is \<^verbatim>\<open>acquire\<close> up to the spin loop; \<open>acquire_tas\<close> one successful
  atomic swap; \<open>acquire_record\<close> the store of \<^verbatim>\<open>lk->cpu\<close>. \<open>release_enter\<close> is
  \<^verbatim>\<open>release\<close> up to the atomic store, \<open>release_clear\<close> the rest.\<close>

definition acquire_enter :: "nat \<Rightarrow> lockid \<Rightarrow> mach \<Rightarrow> mach res" where
  "acquire_enter c l m =
     (let m = push_off c m
      in if holding c l m then Panic ''acquire'' else Ok (m\<lparr>pc := (pc m)(c := Spin l)\<rparr>))"

definition acquire_tas :: "nat \<Rightarrow> lockid \<Rightarrow> mach \<Rightarrow> mach" where
  "acquire_tas c l m = (set_lock l (\<lambda>k. k\<lparr>locked := True\<rparr>) m)\<lparr>pc := (pc m)(c := Got l)\<rparr>"

definition acquire_record :: "nat \<Rightarrow> lockid \<Rightarrow> mach \<Rightarrow> mach" where
  "acquire_record c l m =
     (set_lock l (\<lambda>k. k\<lparr>lk_cpu := Some c\<rparr>) m)
       \<lparr>pc := (pc m)(c := Run), owned := (owned m)(c := l # owned m c)\<rparr>"

definition release_enter :: "nat \<Rightarrow> lockid \<Rightarrow> mach \<Rightarrow> mach res" where
  "release_enter c l m =
     (if \<not> holding c l m then Panic ''release''
      else Ok ((set_lock l (\<lambda>k. k\<lparr>lk_cpu := None\<rparr>) m)
                 \<lparr>pc := (pc m)(c := Rel l), owned := (owned m)(c := remove1 l (owned m c))\<rparr>))"

definition release_clear :: "nat \<Rightarrow> lockid \<Rightarrow> mach \<Rightarrow> mach res" where
  "release_clear c l m =
     rbind (pop_off c (set_lock l (\<lambda>k. k\<lparr>locked := False\<rparr>) m))
       (\<lambda>m. Ok (m\<lparr>pc := (pc m)(c := Run)\<rparr>))"

text \<open>One step of one CPU. A failed atomic swap leaves the state unchanged and so
  needs no rule. Code that holds no lock may switch interrupts on and off.\<close>

inductive lock_step :: "mach \<Rightarrow> mach \<Rightarrow> bool" where
  acq_enter: "pc m c = Run \<Longrightarrow> acquire_enter c l m = Ok m' \<Longrightarrow> lock_step m m'"
| acq_tas: "pc m c = Spin l \<Longrightarrow> \<not> locked (locks m l) \<Longrightarrow> lock_step m (acquire_tas c l m)"
| acq_record: "pc m c = Got l \<Longrightarrow> lock_step m (acquire_record c l m)"
| rel_enter: "pc m c = Run \<Longrightarrow> release_enter c l m = Ok m' \<Longrightarrow> lock_step m m'"
| rel_clear: "pc m c = Rel l \<Longrightarrow> release_clear c l m = Ok m' \<Longrightarrow> lock_step m m'"
| push: "pc m c = Run \<Longrightarrow>
    lock_step m ((push_off c m)\<lparr>pushes := (pushes m)(c := Suc (pushes m c))\<rparr>)"
| pop: "pc m c = Run \<Longrightarrow> 0 < pushes m c \<Longrightarrow> pop_off c m = Ok m' \<Longrightarrow>
    lock_step m (m'\<lparr>pushes := (pushes m)(c := pushes m c - 1)\<rparr>)"
| ion: "pc m c = Run \<Longrightarrow> noff (cpus m c) = 0 \<Longrightarrow> lock_step m (intr_on c m)"
| ioff: "pc m c = Run \<Longrightarrow> noff (cpus m c) = 0 \<Longrightarrow> lock_step m (intr_off c m)"

definition mach_init :: mach where
  "mach_init = \<lparr>cpus = (\<lambda>_. \<lparr>sie = False, noff = 0, intena = False\<rparr>),
     locks = (\<lambda>_. \<lparr>locked = False, lk_cpu = None\<rparr>),
     pc = (\<lambda>_. Run), owned = (\<lambda>_. []), pushes = (\<lambda>_. 0)\<rparr>"

inductive lock_reach :: "mach \<Rightarrow> bool" where
  start: "lock_reach mach_init"
| step: "lock_reach m \<Longrightarrow> lock_step m m' \<Longrightarrow> lock_reach m'"

subsection \<open>The invariant\<close>

definition inside :: "mach \<Rightarrow> nat \<Rightarrow> lockid \<Rightarrow> bool" where
  "inside m c l \<longleftrightarrow> l \<in> set (owned m c) \<or> pc m c = Got l \<or> pc m c = Rel l"

definition pc_depth :: "lock_pc \<Rightarrow> int" where
  "pc_depth p = (if p = Run then 0 else 1)"

text \<open>\<open>owner_inv\<close> ties the lock words to the CPUs inside each critical section,
  \<open>depth_inv\<close> ties the \<^verbatim>\<open>push_off\<close> depth to the locks held.\<close>

definition owner_inv :: "mach \<Rightarrow> bool" where
  "owner_inv m \<longleftrightarrow>
     (\<forall>c d l. inside m c l \<longrightarrow> inside m d l \<longrightarrow> c = d) \<and>
     (\<forall>l. locked (locks m l) \<longleftrightarrow> (\<exists>c. inside m c l)) \<and>
     (\<forall>l c. lk_cpu (locks m l) = Some c \<longleftrightarrow> l \<in> set (owned m c)) \<and>
     (\<forall>c. distinct (owned m c)) \<and>
     (\<forall>c l. l \<in> set (owned m c) \<longrightarrow> pc m c \<noteq> Got l \<and> pc m c \<noteq> Rel l)"

definition cpu_ok :: "mach \<Rightarrow> nat \<Rightarrow> bool" where
  "cpu_ok m c \<longleftrightarrow>
     noff (cpus m c) = int (length (owned m c)) + pc_depth (pc m c) + int (pushes m c) \<and>
     (0 < noff (cpus m c) \<longrightarrow> \<not> sie (cpus m c))"

definition depth_inv :: "mach \<Rightarrow> bool" where
  "depth_inv m \<longleftrightarrow> (\<forall>c. cpu_ok m c)"

definition lock_inv :: "mach \<Rightarrow> bool" where
  "lock_inv m \<longleftrightarrow> owner_inv m \<and> depth_inv m"

lemmas lock_defs = set_cpu_def set_lock_def intr_on_def intr_off_def intr_get_def
  push_off_def pop_off_def holding_def acquire_enter_def acquire_tas_def
  acquire_record_def release_enter_def release_clear_def Let_def

lemma lock_inv_init: "lock_inv mach_init"
  by (simp add: lock_inv_def owner_inv_def depth_inv_def cpu_ok_def mach_init_def inside_def pc_depth_def)

text \<open>Only the parts of the state that mention locks matter for ownership.\<close>
lemma owner_inv_cong:
  assumes "owner_inv m" "locks m' = locks m" "owned m' = owned m"
    and "\<And>c l. pc m' c = Got l \<longleftrightarrow> pc m c = Got l" "\<And>c l. pc m' c = Rel l \<longleftrightarrow> pc m c = Rel l"
  shows "owner_inv m'"
  using assms unfolding owner_inv_def inside_def by simp

lemma push_off_frame:
  "locks (push_off c m) = locks m" "owned (push_off c m) = owned m" "pc (push_off c m) = pc m"
  "pushes (push_off c m) = pushes m" "d \<noteq> c \<Longrightarrow> cpus (push_off c m) d = cpus m d"
  "noff (cpus (push_off c m) c) = noff (cpus m c) + 1" "\<not> sie (cpus (push_off c m) c)"
  by (simp_all add: lock_defs)

lemma pop_off_frame:
  assumes "pop_off c m = Ok m'"
  shows "locks m' = locks m" "owned m' = owned m" "pc m' = pc m" "pushes m' = pushes m"
    "d \<noteq> c \<Longrightarrow> cpus m' d = cpus m d"
    "noff (cpus m' c) = noff (cpus m c) - 1"
    "sie (cpus m' c) \<Longrightarrow> noff (cpus m c) = 1"
  using assms by (auto simp: lock_defs split: if_splits)

lemma inside_acquire_tas:
  "pc m c = Spin l \<Longrightarrow> inside (acquire_tas c l m) d k \<longleftrightarrow> inside m d k \<or> d = c \<and> k = l"
  by (auto simp: inside_def lock_defs)

lemma inside_acquire_record:
  "pc m c = Got l \<Longrightarrow> inside (acquire_record c l m) d k \<longleftrightarrow> inside m d k"
  by (auto simp: inside_def lock_defs)

lemma inside_release_enter:
  assumes "owner_inv m" "pc m c = Run" "release_enter c l m = Ok m'"
  shows "inside m' d k \<longleftrightarrow> inside m d k"
  using assms unfolding owner_inv_def by (auto simp: inside_def lock_defs split: if_splits)

lemma inside_release_clear:
  assumes "owner_inv m" "pc m c = Rel l" "release_clear c l m = Ok m'"
  shows "inside m' d k \<longleftrightarrow> inside m d k \<and> \<not> (d = c \<and> k = l)"
  using assms unfolding owner_inv_def by (auto simp: inside_def lock_defs res_simps split: if_splits)

lemma owner_acq_tas:
  assumes "owner_inv m" "pc m c = Spin l" "\<not> locked (locks m l)"
  shows "owner_inv (acquire_tas c l m)"
proof -
  have no: "\<not> inside m d l" for d using assms(1,3) unfolding owner_inv_def by blast
  have lk: "locked (locks (acquire_tas c l m) k) \<longleftrightarrow> k = l \<or> locked (locks m k)"
    and cp: "lk_cpu (locks (acquire_tas c l m) k) = lk_cpu (locks m k)"
    and ow: "owned (acquire_tas c l m) = owned m" for k
    by (auto simp: lock_defs)
  have pcs: "pc (acquire_tas c l m) = (pc m)(c := Got l)" by (simp add: lock_defs)
  show ?thesis
    using assms(1) no unfolding owner_inv_def inside_acquire_tas [OF assms(2)] lk cp ow pcs
    by (auto simp: inside_def assms(2))
qed

lemma owner_acq_record:
  assumes "owner_inv m" "pc m c = Got l"
  shows "owner_inv (acquire_record c l m)"
proof -
  have ins: "inside m c l" using assms(2) by (simp add: inside_def)
  have no: "l \<notin> set (owned m d)" for d
    using assms ins unfolding owner_inv_def by (metis inside_def)
  have lk: "locked (locks (acquire_record c l m) k) = locked (locks m k)"
    and cp: "lk_cpu (locks (acquire_record c l m) k) = (if k = l then Some c else lk_cpu (locks m k))"
    and ow: "owned (acquire_record c l m) = (owned m)(c := l # owned m c)" for k
    by (auto simp: lock_defs)
  have pcs: "pc (acquire_record c l m) = (pc m)(c := Run)" by (simp add: lock_defs)
  show ?thesis
    using assms(1) no ins unfolding owner_inv_def inside_acquire_record [OF assms(2)] lk cp ow pcs
    by (auto simp: inside_def assms(2))
qed

lemma owner_rel_enter:
  assumes "owner_inv m" "pc m c = Run" "release_enter c l m = Ok m'"
  shows "owner_inv m'"
proof -
  have own: "l \<in> set (owned m c)"
    using assms unfolding owner_inv_def by (auto simp: lock_defs split: if_splits)
  have lk: "locked (locks m' k) = locked (locks m k)"
    and cp: "lk_cpu (locks m' k) = (if k = l then None else lk_cpu (locks m k))"
    and ow: "owned m' = (owned m)(c := remove1 l (owned m c))" for k
    using assms(3) by (auto simp: lock_defs split: if_splits)
  have pcs: "pc m' = (pc m)(c := Rel l)" using assms(3) by (auto simp: lock_defs split: if_splits)
  have one: "l \<in> set (owned m d) \<longleftrightarrow> d = c" for d
    using assms(1) own unfolding owner_inv_def inside_def by blast
  show ?thesis
    using assms(1) own one unfolding owner_inv_def inside_release_enter [OF assms] lk cp ow pcs
    by (auto simp: set_remove1_eq assms(2))
qed

lemma owner_rel_clear:
  assumes "owner_inv m" "pc m c = Rel l" "release_clear c l m = Ok m'"
  shows "owner_inv m'"
proof -
  have ins: "inside m c l" using assms(2) by (simp add: inside_def)
  have lk: "locked (locks m' k) \<longleftrightarrow> k \<noteq> l \<and> locked (locks m k)"
    and cp: "lk_cpu (locks m' k) = lk_cpu (locks m k)"
    and ow: "owned m' = owned m" for k
    using assms(3) by (auto simp: lock_defs res_simps split: if_splits)
  have pcs: "pc m' = (pc m)(c := Run)" using assms(3) by (auto simp: lock_defs res_simps split: if_splits)
  show ?thesis
    using assms(1) ins unfolding owner_inv_def inside_release_clear [OF assms] lk cp ow pcs
    by (auto simp: inside_def assms(2))
qed

text \<open>A step changes one CPU: the others keep their depth invariant.\<close>

lemma depth_invI:
  assumes "depth_inv m" "cpu_ok m' c"
    and "\<And>d. d \<noteq> c \<Longrightarrow> cpus m' d = cpus m d \<and> owned m' d = owned m d \<and> pc m' d = pc m d \<and> pushes m' d = pushes m d"
  shows "depth_inv m'"
  unfolding depth_inv_def
proof
  fix d
  show "cpu_ok m' d"
  proof (cases "d = c")
    case False
    with assms(1) assms(3) [OF False] show ?thesis by (simp add: depth_inv_def cpu_ok_def)
  qed (use assms(2) in simp)
qed

lemma depth_push_off:
  assumes "depth_inv m" "pc m c = Run"
  shows "depth_inv ((push_off c m)\<lparr>pushes := (pushes m)(c := Suc (pushes m c))\<rparr>)"
proof (rule depth_invI [OF assms(1), of _ c])
  have "cpu_ok m c" using assms(1) by (simp add: depth_inv_def)
  then show "cpu_ok ((push_off c m)\<lparr>pushes := (pushes m)(c := Suc (pushes m c))\<rparr>) c"
    by (simp add: cpu_ok_def push_off_frame)
qed (simp add: push_off_frame)

lemma depth_pop_off:
  assumes "depth_inv m" "pc m c = Run" "0 < pushes m c" "pop_off c m = Ok m'"
  shows "depth_inv (m'\<lparr>pushes := (pushes m)(c := pushes m c - 1)\<rparr>)"
proof (rule depth_invI [OF assms(1), of _ c])
  have "cpu_ok m c" using assms(1) by (simp add: depth_inv_def)
  then show "cpu_ok (m'\<lparr>pushes := (pushes m)(c := pushes m c - 1)\<rparr>) c"
    using assms(3) pop_off_frame [OF assms(4)] by (auto simp: cpu_ok_def)
qed (simp add: pop_off_frame [OF assms(4)])

lemma depth_acq_enter:
  assumes "depth_inv m" "pc m c = Run" "acquire_enter c l m = Ok m'"
  shows "depth_inv m'"
proof (rule depth_invI [OF assms(1), of _ c])
  have m': "m' = (push_off c m)\<lparr>pc := (pc m)(c := Spin l)\<rparr>"
    using assms(3) by (auto simp: acquire_enter_def Let_def push_off_frame split: if_splits)
  have "cpu_ok m c" using assms(1) by (simp add: depth_inv_def)
  then show "cpu_ok m' c" using assms(2) by (simp add: m' cpu_ok_def push_off_frame pc_depth_def)
  show "cpus m' d = cpus m d \<and> owned m' d = owned m d \<and> pc m' d = pc m d \<and> pushes m' d = pushes m d"
    if "d \<noteq> c" for d
    using that by (simp add: m' push_off_frame)
qed

lemma depth_acq_tas:
  "depth_inv m \<Longrightarrow> pc m c = Spin l \<Longrightarrow> depth_inv (acquire_tas c l m)"
  unfolding depth_inv_def cpu_ok_def by (simp add: acquire_tas_def set_lock_def pc_depth_def)

lemma depth_acq_record:
  assumes "depth_inv m" "pc m c = Got l"
  shows "depth_inv (acquire_record c l m)"
proof (rule depth_invI [OF assms(1), of _ c])
  have "cpu_ok m c" using assms(1) by (simp add: depth_inv_def)
  then show "cpu_ok (acquire_record c l m) c"
    using assms(2) by (simp add: cpu_ok_def acquire_record_def set_lock_def pc_depth_def)
qed (simp add: acquire_record_def set_lock_def)

lemma depth_rel_enter:
  assumes "owner_inv m" "depth_inv m" "pc m c = Run" "release_enter c l m = Ok m'"
  shows "depth_inv m'"
proof (rule depth_invI [OF assms(2), of _ c])
  have m': "m' = (set_lock l (\<lambda>k. k\<lparr>lk_cpu := None\<rparr>) m)
      \<lparr>pc := (pc m)(c := Rel l), owned := (owned m)(c := remove1 l (owned m c))\<rparr>"
    and own: "l \<in> set (owned m c)"
    using assms unfolding owner_inv_def
    by (auto simp: release_enter_def holding_def split: if_splits)
  from own have len: "int (length (owned m c)) = int (length (remove1 l (owned m c))) + 1"
    using length_pos_if_in_set [OF own] by (simp add: length_remove1 of_nat_diff Suc_leI)
  have "cpu_ok m c" using assms(2) by (simp add: depth_inv_def)
  then show "cpu_ok m' c"
    using assms(3) by (simp add: m' len cpu_ok_def set_lock_def pc_depth_def del: length_remove1)
  show "cpus m' d = cpus m d \<and> owned m' d = owned m d \<and> pc m' d = pc m d \<and> pushes m' d = pushes m d"
    if "d \<noteq> c" for d
    using that by (simp add: m' set_lock_def)
qed

lemma depth_rel_clear:
  assumes "depth_inv m" "pc m c = Rel l" "release_clear c l m = Ok m'"
  shows "depth_inv m'"
proof (rule depth_invI [OF assms(1), of _ c])
  let ?m1 = "set_lock l (\<lambda>k. k\<lparr>locked := False\<rparr>) m"
  obtain m2 where pop: "pop_off c ?m1 = Ok m2" and m': "m' = m2\<lparr>pc := (pc m2)(c := Run)\<rparr>"
    using assms(3) by (auto simp: release_clear_def res_simps)
  have f: "cpus ?m1 = cpus m" "owned ?m1 = owned m" "pc ?m1 = pc m" "pushes ?m1 = pushes m"
    by (simp_all add: set_lock_def)
  have "cpu_ok m c" using assms(1) by (simp add: depth_inv_def)
  then show "cpu_ok m' c"
    using assms(2) pop_off_frame [OF pop] by (auto simp: m' f cpu_ok_def pc_depth_def)
  show "cpus m' d = cpus m d \<and> owned m' d = owned m d \<and> pc m' d = pc m d \<and> pushes m' d = pushes m d"
    if "d \<noteq> c" for d
    using that pop_off_frame [OF pop] by (simp add: m' f)
qed

lemma depth_intr:
  assumes "depth_inv m" "noff (cpus m c) = 0"
  shows "depth_inv (intr_on c m)" "depth_inv (intr_off c m)"
  using assms unfolding depth_inv_def cpu_ok_def by (simp_all add: intr_on_def intr_off_def set_cpu_def)

lemma lock_step_inv:
  assumes "lock_step m m'" "lock_inv m"
  shows "lock_inv m'"
  using assms
proof (induction rule: lock_step.induct)
  case (acq_enter m c l m')
  have "owner_inv m'"
  proof (rule owner_inv_cong)
    show "owner_inv m" using acq_enter by (simp add: lock_inv_def)
  qed (use acq_enter in \<open>auto simp: acquire_enter_def Let_def push_off_frame split: if_splits\<close>)
  with acq_enter show ?case by (auto simp: lock_inv_def intro: depth_acq_enter)
next
  case (push m c)
  have "owner_inv ((push_off c m)\<lparr>pushes := (pushes m)(c := Suc (pushes m c))\<rparr>)"
    by (rule owner_inv_cong [of m]) (use push in \<open>auto simp: push_off_frame lock_inv_def\<close>)
  with push depth_push_off show ?case by (simp add: lock_inv_def)
next
  case (pop m c m')
  have "owner_inv (m'\<lparr>pushes := (pushes m)(c := pushes m c - 1)\<rparr>)"
    by (rule owner_inv_cong [of m]) (use pop pop_off_frame [OF pop(3)] in \<open>auto simp: lock_inv_def\<close>)
  with pop depth_pop_off [OF _ pop(1-3)] show ?case by (simp add: lock_inv_def)
next
  case (ion m c)
  have "owner_inv (intr_on c m)"
    by (rule owner_inv_cong [of m]) (use ion in \<open>auto simp: lock_inv_def lock_defs\<close>)
  with ion depth_intr show ?case by (simp add: lock_inv_def)
next
  case (ioff m c)
  have "owner_inv (intr_off c m)"
    by (rule owner_inv_cong [of m]) (use ioff in \<open>auto simp: lock_inv_def lock_defs\<close>)
  with ioff depth_intr show ?case by (simp add: lock_inv_def)
qed (auto simp: lock_inv_def intro: owner_acq_tas owner_acq_record owner_rel_enter owner_rel_clear
       depth_acq_tas depth_acq_record depth_rel_enter depth_rel_clear)

lemma lock_reach_inv: "lock_reach m \<Longrightarrow> lock_inv m"
  by (induction rule: lock_reach.induct) (auto intro: lock_inv_init lock_step_inv)

lemma release_clear_returns:
  assumes "lock_inv m" "pc m c = Rel l"
  shows "returns (release_clear c l m) (\<lambda>m'. owned m' = owned m \<and> pc m' = (pc m)(c := Run))"
proof -
  have "1 \<le> noff (cpus m c)" "\<not> sie (cpus m c)"
    using assms unfolding lock_inv_def depth_inv_def cpu_ok_def by (auto simp: pc_depth_def)
  then show ?thesis by (auto simp: lock_defs)
qed

section \<open>The view of one kernel thread\<close>

text \<open>
  Every other component runs on a state that extends \<open>kst\<close>: the stack of spin
  locks the running thread holds. A thread that acquires a lock it holds, or
  releases one it does not hold, panics exactly as in the code. Waiting for
  another CPU is invisible here: by mutual exclusion the critical sections of
  different CPUs are serialised.
\<close>

record kst =
  held :: "lockid list"

definition acquire :: "lockid \<Rightarrow> 'a kst_scheme \<Rightarrow> 'a kst_scheme res" where
  "acquire l s = (if l \<in> set (held s) then Panic ''acquire'' else Ok (s\<lparr>held := l # held s\<rparr>))"

definition release :: "lockid \<Rightarrow> 'a kst_scheme \<Rightarrow> 'a kst_scheme res" where
  "release l s =
     (if l \<notin> set (held s) then Panic ''release'' else Ok (s\<lparr>held := remove1 l (held s)\<rparr>))"

lemma acquire_Ok [simp]: "l \<notin> set (held s) \<Longrightarrow> acquire l s = Ok (s\<lparr>held := l # held s\<rparr>)"
  by (simp add: acquire_def)

lemma release_Ok [simp]: "l \<in> set (held s) \<Longrightarrow> release l s = Ok (s\<lparr>held := remove1 l (held s)\<rparr>)"
  by (simp add: release_def)

text \<open>What a client of locks relies on: the lock stack after each call, and the two
  panics. A critical section whose body keeps the lock stack leaves it as it was.\<close>

locale lock_ops =
  fixes acq rel :: "lockid \<Rightarrow> 's \<Rightarrow> 's res"
    and hold :: "'s \<Rightarrow> lockid list"
    and ok :: "'s \<Rightarrow> bool"
  assumes acq_free: "ok s \<Longrightarrow> l \<notin> set (hold s) \<Longrightarrow> returns (acq l s) (\<lambda>t. ok t \<and> hold t = l # hold s)"
    and acq_held: "ok s \<Longrightarrow> l \<in> set (hold s) \<Longrightarrow> acq l s = Panic ''acquire''"
    and rel_held: "ok s \<Longrightarrow> l \<in> set (hold s) \<Longrightarrow> returns (rel l s) (\<lambda>t. ok t \<and> hold t = remove1 l (hold s))"
    and rel_free: "ok s \<Longrightarrow> l \<notin> set (hold s) \<Longrightarrow> rel l s = Panic ''release''"
begin

lemma critical_section:
  assumes "ok s" "l \<notin> set (hold s)"
    and body: "\<And>t. ok t \<Longrightarrow> hold t = l # hold s \<Longrightarrow> returns (f t) (\<lambda>u. ok u \<and> hold u = hold t)"
  shows "returns (rbind (acq l s) (\<lambda>t. rbind (f t) (rel l))) (\<lambda>u. ok u \<and> hold u = hold s)"
proof -
  obtain t where t: "acq l s = Ok t" "ok t" "hold t = l # hold s"
    using acq_free [OF assms(1,2)] by (auto simp: returns_def)
  obtain u where u: "f t = Ok u" "ok u" "hold u = l # hold s"
    using body [OF t(2,3)] t(3) by (auto simp: returns_def)
  have "returns (rel l u) (\<lambda>v. ok v \<and> hold v = remove1 l (hold u))"
    using rel_held [OF u(2), of l] u(3) by simp
  with t(1) u show ?thesis by simp
qed

lemma double_acquire_panics:
  assumes "ok s" "l \<notin> set (hold s)"
  shows "rbind (acq l s) (acq l) = Panic ''acquire''"
proof -
  obtain t where t: "acq l s = Ok t" "ok t" "hold t = l # hold s"
    using acq_free [OF assms] by (auto simp: returns_def)
  then show ?thesis using acq_held [OF t(2)] by simp
qed

end

interpretation thread_locks: lock_ops acquire release held "\<lambda>_. True"
  by unfold_locales (auto simp: acquire_def release_def)

text \<open>On the machine: CPU \<open>c\<close> runs \<^verbatim>\<open>acquire\<close> and \<^verbatim>\<open>release\<close> while no other CPU is inside a
  critical section (another CPU that is would make it spin).\<close>

definition acquire_run :: "nat \<Rightarrow> lockid \<Rightarrow> mach \<Rightarrow> mach res" where
  "acquire_run c l m =
     rbind (acquire_enter c l m)
       (\<lambda>m. if locked (locks m l) then NoFuel else Ok (acquire_record c l (acquire_tas c l m)))"

definition release_run :: "nat \<Rightarrow> lockid \<Rightarrow> mach \<Rightarrow> mach res" where
  "release_run c l m = rbind (release_enter c l m) (release_clear c l)"

definition alone :: "nat \<Rightarrow> mach \<Rightarrow> bool" where
  "alone c m \<longleftrightarrow> lock_inv m \<and> pc m c = Run \<and> (\<forall>d l. d \<noteq> c \<longrightarrow> \<not> inside m d l)"

lemma alone_inside: "alone c m \<Longrightarrow> inside m d l \<longleftrightarrow> d = c \<and> l \<in> set (owned m c)"
  by (cases "d = c") (auto simp: alone_def inside_def)

lemma alone_locked:
  assumes "alone c m"
  shows "locked (locks m l) \<longleftrightarrow> l \<in> set (owned m c)"
proof -
  have "locked (locks m l) \<longleftrightarrow> (\<exists>d. inside m d l)"
    using assms unfolding alone_def lock_inv_def owner_inv_def by blast
  then show ?thesis by (simp add: alone_inside [OF assms])
qed

lemma alone_holding:
  assumes "alone c m"
  shows "holding c l m \<longleftrightarrow> l \<in> set (owned m c)"
proof -
  have "lk_cpu (locks m l) = Some c \<longleftrightarrow> l \<in> set (owned m c)"
    using assms unfolding alone_def lock_inv_def owner_inv_def by blast
  then show ?thesis by (simp add: holding_def alone_locked [OF assms])
qed

lemma holding_push_off: "holding c l (push_off c m) = holding c l m"
  by (simp add: holding_def push_off_frame)

lemma acquire_run_alone:
  assumes "alone c m" "l \<notin> set (owned m c)"
  shows "returns (acquire_run c l m) (\<lambda>m'. alone c m' \<and> owned m' c = l # owned m c)"
proof -
  define m1 where "m1 = (push_off c m)\<lparr>pc := (pc m)(c := Spin l)\<rparr>"
  have e: "acquire_enter c l m = Ok m1"
    using assms alone_holding [OF assms(1)]
    by (simp add: acquire_enter_def m1_def push_off_frame holding_push_off)
  have free: "\<not> locked (locks m1 l)"
    using assms alone_locked [OF assms(1)] by (simp add: m1_def push_off_frame)
  have r: "pc m c = Run" "pc m1 c = Spin l" using assms(1) by (auto simp: alone_def m1_def)
  define m2 where "m2 = acquire_tas c l m1"
  have p2: "pc m2 c = Got l" by (simp add: m2_def acquire_tas_def)
  have "lock_inv m" using assms(1) by (simp add: alone_def)
  then have "lock_inv m1" by (rule lock_step_inv [OF lock_step.acq_enter [OF r(1) e]])
  then have "lock_inv m2" unfolding m2_def by (rule lock_step_inv [OF lock_step.acq_tas [OF r(2) free]])
  then have "lock_inv (acquire_record c l m2)" by (rule lock_step_inv [OF lock_step.acq_record [OF p2]])
  moreover have "owned (acquire_record c l m2) = (owned m)(c := l # owned m c)"
    and "pc (acquire_record c l m2) = (pc m)(c := Run)"
    by (simp_all add: m2_def m1_def acquire_tas_def acquire_record_def set_lock_def push_off_frame)
  ultimately have "alone c (acquire_record c l m2)" "owned (acquire_record c l m2) c = l # owned m c"
    using assms(1) by (auto simp: alone_def inside_def)
  then show ?thesis using e free by (simp add: acquire_run_def m2_def)
qed

lemma release_run_alone:
  assumes "alone c m" "l \<in> set (owned m c)"
  shows "returns (release_run c l m) (\<lambda>m'. alone c m' \<and> owned m' c = remove1 l (owned m c))"
proof -
  have h: "holding c l m" using assms alone_holding [OF assms(1)] by simp
  then obtain m1 where e: "release_enter c l m = Ok m1" by (simp add: release_enter_def)
  have f: "pc m1 = (pc m)(c := Rel l)" "owned m1 = (owned m)(c := remove1 l (owned m c))"
    using e h by (auto simp: release_enter_def)
  have inv: "lock_inv m" "pc m c = Run" using assms(1) by (simp_all add: alone_def)
  have i1: "lock_inv m1" by (rule lock_step_inv [OF lock_step.rel_enter [OF inv(2) e] inv(1)])
  have p1: "pc m1 c = Rel l" by (simp add: f)
  obtain m2 where c2: "release_clear c l m1 = Ok m2" "owned m2 = owned m1" "pc m2 = (pc m1)(c := Run)"
    using release_clear_returns [OF i1 p1] by (auto simp: returns_def)
  have "lock_inv m2" by (rule lock_step_inv [OF lock_step.rel_clear [OF p1 c2(1)] i1])
  then have "alone c m2" "owned m2 c = remove1 l (owned m c)"
    using assms(1) c2(2,3) by (auto simp: alone_def inside_def f)
  then show ?thesis using e c2(1) by (simp add: release_run_def)
qed

interpretation cpu_locks: lock_ops "acquire_run c" "release_run c" "\<lambda>m. owned m c" "alone c" for c
proof unfold_locales
  fix m l assume a: "alone c m"
  show "returns (acquire_run c l m) (\<lambda>t. alone c t \<and> owned t c = l # owned m c)"
    if "l \<notin> set (owned m c)" using acquire_run_alone [OF a that] .
  show "returns (release_run c l m) (\<lambda>t. alone c t \<and> owned t c = remove1 l (owned m c))"
    if "l \<in> set (owned m c)" using release_run_alone [OF a that] .
  show "acquire_run c l m = Panic ''acquire''" if "l \<in> set (owned m c)"
    using that by (simp add: acquire_run_def acquire_enter_def holding_push_off alone_holding [OF a])
  show "release_run c l m = Panic ''release''" if "l \<notin> set (owned m c)"
    using that by (simp add: release_run_def release_enter_def alone_holding [OF a])
qed

text \<open>The thread view is what the machine does: related states stay related.\<close>

lemma acquire_refines:
  assumes "alone c m" "held s = owned m c" "acquire l s = Ok s'"
  shows "returns (acquire_run c l m) (\<lambda>m'. alone c m' \<and> held s' = owned m' c)"
  by (rule returns_mono [OF acquire_run_alone [OF assms(1), of l]])
    (use assms in \<open>auto simp: acquire_def split: if_splits\<close>)

lemma release_refines:
  assumes "alone c m" "held s = owned m c" "release l s = Ok s'"
  shows "returns (release_run c l m) (\<lambda>m'. alone c m' \<and> held s' = owned m' c)"
  by (rule returns_mono [OF release_run_alone [OF assms(1), of l]])
    (use assms in \<open>auto simp: release_def split: if_splits\<close>)

section \<open>Properties of every run\<close>

text \<open>C3. Mutual exclusion over every interleaving of the CPUs: while CPU \<open>c\<close> owns a
  lock no other CPU is inside its critical section, the lock word and
  \<^verbatim>\<open>holding\<close> say so, and interrupts are off on \<open>c\<close>.\<close>

theorem mutual_exclusion:
  assumes "lock_reach m" "l \<in> set (owned m c)"
  shows "(inside m d l \<longleftrightarrow> d = c) \<and> holding c l m \<and> \<not> sie (cpus m c)"
proof -
  have inv: "owner_inv m" "cpu_ok m c"
    using lock_reach_inv [OF assms(1)] by (auto simp: lock_inv_def depth_inv_def)
  have ins: "inside m c l" using assms(2) by (simp add: inside_def)
  have "0 < int (length (owned m c))" using assms(2) by (cases "owned m c") auto
  moreover have "0 \<le> pc_depth (pc m c)" by (simp add: pc_depth_def)
  ultimately have "0 < noff (cpus m c)" using inv(2) unfolding cpu_ok_def by linarith
  then have "\<not> sie (cpus m c)" using inv(2) by (simp add: cpu_ok_def)
  moreover have "holding c l m" using inv(1) assms(2) ins unfolding owner_inv_def holding_def by blast
  ultimately show ?thesis using inv(1) ins unfolding owner_inv_def by blast
qed

lemma two_cpu_run:
  fixes l :: lockid
  defines "m1 \<equiv> (push_off 0 mach_init)\<lparr>pc := (pc mach_init)(0 := Spin l)\<rparr>"
  defines "m3 \<equiv> acquire_record 0 l (acquire_tas 0 l m1)"
  shows "lock_reach m3" "owned m3 0 = [l]" "pc m3 0 = Run" "pc m3 1 = Run"
proof -
  have e: "acquire_enter 0 l mach_init = Ok m1"
    by (simp add: m1_def acquire_enter_def holding_push_off push_off_frame) (simp add: holding_def mach_init_def Let_def push_off_frame)
  have "lock_reach m1"
    by (rule lock_reach.step [OF lock_reach.start lock_step.acq_enter [OF _ e]]) (simp add: mach_init_def)
  then have "lock_reach (acquire_tas 0 l m1)"
    by (rule lock_reach.step [OF _ lock_step.acq_tas]) (simp_all add: m1_def push_off_frame mach_init_def)
  then show "lock_reach m3"
    unfolding m3_def by (rule lock_reach.step [OF _ lock_step.acq_record]) (simp add: acquire_tas_def)
  show "owned m3 0 = [l]" "pc m3 0 = Run" "pc m3 1 = Run"
    by (simp_all add: m3_def m1_def acquire_record_def acquire_tas_def set_lock_def push_off_frame mach_init_def)
qed

theorem mutual_exclusion_witness:
  "\<exists>m. lock_reach m \<and> L_kmem \<in> set (owned m 0) \<and> \<not> inside m 1 L_kmem \<and> holding 0 L_kmem m"
  using mutual_exclusion [of _ L_kmem 0 1] two_cpu_run(1,2) [of L_kmem]
  by (metis list.set_intros(1) zero_neq_one)

text \<open>C8. In every reachable state a CPU that owns a lock can release it: neither
  \<^verbatim>\<open>release\<close> nor the \<^verbatim>\<open>pop_off\<close> at its end panics, and afterwards the lock is free.\<close>

theorem release_returns:
  assumes "lock_reach m" "pc m c = Run" "l \<in> set (owned m c)"
  shows "returns (release_run c l m)
    (\<lambda>m'. owned m' c = remove1 l (owned m c) \<and> (\<forall>d. \<not> inside m' d l) \<and> \<not> locked (locks m' l))"
proof -
  have inv: "lock_inv m" by (rule lock_reach_inv [OF assms(1)])
  then have o: "owner_inv m" by (simp add: lock_inv_def)
  have h: "holding c l m" using o assms(3) unfolding owner_inv_def holding_def inside_def by blast
  then obtain m1 where e: "release_enter c l m = Ok m1" by (simp add: release_enter_def)
  have f: "pc m1 = (pc m)(c := Rel l)" "owned m1 = (owned m)(c := remove1 l (owned m c))"
    using e h by (auto simp: release_enter_def set_lock_def)
  have i1: "lock_inv m1" by (rule lock_step_inv [OF lock_step.rel_enter [OF assms(2) e] inv])
  have p1: "pc m1 c = Rel l" by (simp add: f)
  obtain m2 where c2: "release_clear c l m1 = Ok m2" "owned m2 = owned m1" "pc m2 = (pc m1)(c := Run)"
    using release_clear_returns [OF i1 p1] by (auto simp: returns_def)
  have i2: "lock_inv m2" by (rule lock_step_inv [OF lock_step.rel_clear [OF p1 c2(1)] i1])
  have o1: "owner_inv m1" using i1 by (simp add: lock_inv_def)
  have no: "\<not> inside m2 d l" for d
  proof
    assume "inside m2 d l"
    then have "inside m1 d l" "d \<noteq> c" using inside_release_clear [OF o1 p1 c2(1)] by auto
    moreover have "inside m1 c l" using p1 by (simp add: inside_def)
    ultimately show False using o1 unfolding owner_inv_def by blast
  qed
  moreover have "\<not> locked (locks m2 l)"
    using i2 no unfolding lock_inv_def owner_inv_def by blast
  ultimately show ?thesis using e c2 f by (simp add: release_run_def)
qed

theorem release_returns_witness:
  "\<exists>m. lock_reach m \<and> L_kmem \<in> set (owned m 0) \<and> returns (release_run 0 L_kmem m) (\<lambda>m'. owned m' 0 = [])"
proof -
  obtain m where m: "lock_reach m" "owned m 0 = [L_kmem]" "pc m 0 = Run"
    using two_cpu_run(1-3) [of L_kmem] by blast
  then have "returns (release_run 0 L_kmem m) (\<lambda>m'. owned m' 0 = [])"
    by (intro returns_mono [OF release_returns [of m 0 L_kmem]]) auto
  with m show ?thesis by auto
qed

end
