(* ===== verification/Phys_Mem.thy ===== *)
theory Phys_Mem
  imports Spinlock
begin

text \<open>
  Physical memory as the kernel sees it: a byte for every 64-bit address, the
  memory routines of \<^verbatim>\<open>kernel/string.c\<close>, multi-byte little-endian loads and
  stores, and the page arithmetic of \<^verbatim>\<open>kernel/riscv.h\<close> and
  \<^verbatim>\<open>kernel/memlayout.h\<close>. A region of \<open>n\<close> bytes at \<open>a\<close> is the set of
  addresses \<open>x\<close> with \<open>unat (x - a) < n\<close>, so that regions never overlap by
  accident of wrap-around.
\<close>

type_synonym memory = "u64 \<Rightarrow> u8"

section \<open>Constants and address macros\<close>

definition PGSIZE :: u64 where [xv6_consts]: "PGSIZE = 4096"
definition KERNBASE :: u64 where [xv6_consts]: "KERNBASE = 0x80000000"
definition PHYSTOP :: u64 where [xv6_consts]: "PHYSTOP = KERNBASE + 128 * 1024 * 1024"
definition MAXVA :: u64 where [xv6_consts]: "MAXVA = push_bit (9 + 9 + 9 + 12 - 1) 1"
definition TRAMPOLINE :: u64 where [xv6_consts]: "TRAMPOLINE = MAXVA - PGSIZE"
definition TRAPFRAME :: u64 where [xv6_consts]: "TRAPFRAME = TRAMPOLINE - PGSIZE"

definition KSTACK :: "nat \<Rightarrow> u64" where
  "KSTACK p = TRAMPOLINE - (of_nat p + 1) * 2 * PGSIZE"

definition PGROUNDUP :: "u64 \<Rightarrow> u64" where
  "PGROUNDUP sz = (sz + PGSIZE - 1) AND NOT (PGSIZE - 1)"

definition PGROUNDDOWN :: "u64 \<Rightarrow> u64" where
  "PGROUNDDOWN a = a AND NOT (PGSIZE - 1)"

section \<open>Bytes of words\<close>

primrec word_of_bytes :: "u8 list \<Rightarrow> 'a::len word" where
  "word_of_bytes [] = 0"
| "word_of_bytes (b # bs) = ucast b OR push_bit 8 (word_of_bytes bs)"

primrec bytes_of :: "nat \<Rightarrow> 'a::len word \<Rightarrow> u8 list" where
  "bytes_of 0 w = []"
| "bytes_of (Suc k) w = ucast w # bytes_of k (drop_bit 8 w)"

lemma length_bytes_of [simp]: "length (bytes_of k w) = k"
  by (induction k arbitrary: w) auto

lemma word_of_bytes_of: "word_of_bytes (bytes_of k w) = take_bit (8 * k) w"
proof (induction k arbitrary: w)
  case (Suc k)
  show ?case
    by (rule bit_word_eqI) (auto simp: Suc.IH bit_simps not_less)
qed simp

lemma word_of_bytes_of_full:
  "LENGTH('a) \<le> 8 * k \<Longrightarrow> word_of_bytes (bytes_of k w) = (w :: 'a::len word)"
  by (simp add: word_of_bytes_of take_bit_word_eq_self)

lemma bytes_of_nth: "i < k \<Longrightarrow> bytes_of k w ! i = ucast (drop_bit (8 * i) w)"
proof (induction k arbitrary: i w)
  case (Suc k)
  then show ?case by (cases i) (auto simp: ac_simps)
qed simp

section \<open>Loads and stores\<close>

definition load_bytes :: "memory \<Rightarrow> u64 \<Rightarrow> nat \<Rightarrow> u8 list" where
  "load_bytes m a k = map (\<lambda>i. m (a + of_nat i)) [0..<k]"

fun store_bytes :: "memory \<Rightarrow> u64 \<Rightarrow> u8 list \<Rightarrow> memory" where
  "store_bytes m a [] = m"
| "store_bytes m a (b # bs) = store_bytes (m(a := b)) (a + 1) bs"

definition load64 :: "memory \<Rightarrow> u64 \<Rightarrow> u64" where
  "load64 m a = word_of_bytes (load_bytes m a 8)"

definition store64 :: "memory \<Rightarrow> u64 \<Rightarrow> u64 \<Rightarrow> memory" where
  "store64 m a v = store_bytes m a (bytes_of 8 v)"

lemma length_load_bytes [simp]: "length (load_bytes m a k) = k"
  by (simp add: load_bytes_def)

lemma unat_diff_Suc:
  fixes x a :: u64
  assumes "x \<noteq> a"
  shows "unat (x - a) = Suc (unat (x - (a + 1)))"
proof -
  have "x - a \<noteq> 0" using assms by simp
  then have "unat (x - a - 1) = unat (x - a) - 1"
    by (simp add: unat_minus_one)
  moreover have "0 < unat (x - a)" using \<open>x - a \<noteq> 0\<close> by (simp add: unat_gt_0)
  ultimately show ?thesis by (simp add: algebra_simps)
qed

lemma store_bytes_apply:
  "length bs \<le> 2 ^ 64 \<Longrightarrow>
   store_bytes m a bs x = (if unat (x - a) < length bs then bs ! unat (x - a) else m x)"
proof (induction bs arbitrary: m a)
  case (Cons b bs)
  have IH: "store_bytes (m(a := b)) (a + 1) bs x =
      (if unat (x - (a + 1)) < length bs then bs ! unat (x - (a + 1)) else (m(a := b)) x)"
    using Cons by simp
  show ?case
  proof (cases "x = a")
    case True
    have "unat (a - (a + 1)) = 2 ^ 64 - 1" by (simp add: unsigned_minus_1_eq_mask mask_eq_exp_minus_1)
    with True IH Cons.prems show ?thesis by simp
  next
    case False
    with IH unat_diff_Suc [OF False] show ?thesis by simp
  qed
qed simp

lemma load_bytes_cong:
  "(\<And>i. i < k \<Longrightarrow> m (a + of_nat i) = m' (a + of_nat i)) \<Longrightarrow> load_bytes m a k = load_bytes m' a k"
  by (simp add: load_bytes_def)

lemma load_store_bytes:
  assumes "length bs \<le> 2 ^ 64"
  shows "load_bytes (store_bytes m a bs) a (length bs) = bs"
proof (rule nth_equalityI)
  fix i assume "i < length (load_bytes (store_bytes m a bs) a (length bs))"
  then have i: "i < length bs" by simp
  then have "unat (of_nat i :: u64) = i" using assms by (intro unat_of_nat_small) simp
  with i assms show "load_bytes (store_bytes m a bs) a (length bs) ! i = bs ! i"
    by (simp add: load_bytes_def store_bytes_apply)
qed simp

lemma load64_store64 [simp]: "load64 (store64 m a v) a = v"
  using load_store_bytes [of "bytes_of 8 v" m a]
  by (simp add: load64_def store64_def word_of_bytes_of_full)

lemma store64_apply:
  "store64 m a v x = (if unat (x - a) < 8 then bytes_of 8 v ! unat (x - a) else m x)"
  by (simp add: store64_def store_bytes_apply)

lemma load64_cong:
  "(\<And>i. i < 8 \<Longrightarrow> m (a + of_nat i) = m' (a + of_nat i)) \<Longrightarrow> load64 m a = load64 m' a"
  unfolding load64_def by (subst load_bytes_cong) auto

section \<open>Pages\<close>

definition page_aligned :: "u64 \<Rightarrow> bool" where
  "page_aligned p \<longleftrightarrow> p mod PGSIZE = 0"

lemma PGSIZE_mask: "PGSIZE - 1 = mask 12"
  by (simp add: PGSIZE_def mask_eq_exp_minus_1)

lemma PGROUNDDOWN_shift: "PGROUNDDOWN a = push_bit 12 (drop_bit 12 a)"
  by (simp add: PGROUNDDOWN_def PGSIZE_mask and_not_mask_eq)

lemma unat_PGROUNDDOWN: "unat (PGROUNDDOWN a) = unat a div 4096 * 4096"
proof -
  have "unat (drop_bit 12 a) = unat a div 4096"
    by (simp add: unat_drop_bit_eq drop_bit_nat_def del: drop_bit_eq_div)
  moreover have "unat a div 4096 * 4096 < 2 ^ 64"
    using unat_lt2p [of a] by auto
  ultimately show ?thesis
    by (simp add: PGROUNDDOWN_shift push_bit_eq_mult unat_word_ariths mult.commute)
qed

lemma page_aligned_unat: "page_aligned p \<longleftrightarrow> unat p mod 4096 = 0"
  by (simp add: page_aligned_def PGSIZE_def unat_mod_distrib flip: unat_eq_zero)

lemma page_aligned_PGROUNDDOWN [simp]: "page_aligned (PGROUNDDOWN a)"
  by (simp add: page_aligned_unat unat_PGROUNDDOWN)

lemma PGROUNDDOWN_aligned [simp]: "page_aligned p \<Longrightarrow> PGROUNDDOWN p = p"
  by (rule word_unat_eq_iff [THEN iffD2]) (auto simp: unat_PGROUNDDOWN page_aligned_unat)

lemma PGROUNDUP_down: "PGROUNDUP sz = PGROUNDDOWN (sz + 4095)"
  by (simp add: PGROUNDUP_def PGROUNDDOWN_def PGSIZE_def add.commute)

lemma unat_PGROUNDUP:
  "unat sz + 4095 < 2 ^ 64 \<Longrightarrow> unat (PGROUNDUP sz) = (unat sz + 4095) div 4096 * 4096"
  by (simp add: PGROUNDUP_down unat_PGROUNDDOWN unat_word_ariths)

lemma page_aligned_PGROUNDUP [simp]: "page_aligned (PGROUNDUP a)"
  by (simp add: PGROUNDUP_down)

text \<open>An address lies in the page at \<open>p\<close> exactly when it rounds down to \<open>p\<close>.\<close>

lemma in_page_iff:
  assumes "page_aligned p"
  shows "unat (x - p) < 4096 \<longleftrightarrow> PGROUNDDOWN x = p"
proof -
  obtain k where k: "unat p = 4096 * k"
    using assms by (auto simp: page_aligned_unat)
  have bnd: "unat p < 2 ^ 64" "unat x < 2 ^ 64" using unat_lt2p [of p] unat_lt2p [of x] by simp_all
  have "unat (x - p) < 4096 \<longleftrightarrow> unat x div 4096 * 4096 = unat p"
  proof (cases "unat p \<le> unat x")
    case True
    then have "unat (x - p) = unat x - unat p" by (simp add: unat_sub_if')
    with True k show ?thesis by auto
  next
    case False
    then have "unat (x - p) = unat x + 2 ^ 64 - unat p" by (simp add: unat_sub_if')
    with False k bnd show ?thesis by auto
  qed
  then show ?thesis by (simp add: word_unat_eq_iff unat_PGROUNDDOWN)
qed

lemma PGROUNDDOWN_offset:
  assumes "page_aligned p" "i < 4096"
  shows "PGROUNDDOWN (p + of_nat i) = p"
proof -
  have "unat (p + of_nat i - p) < 4096"
    using assms(2) by (simp add: unat_of_nat_small)
  then show ?thesis by (simp only: in_page_iff [OF assms(1)])
qed

lemma page_base_offset: "PGROUNDDOWN x + of_nat (unat (x - PGROUNDDOWN x)) = x"
  by simp

lemma page_offset_less: "unat (x - PGROUNDDOWN x) < 4096"
  by (subst in_page_iff) simp_all

section \<open>String.c on memory\<close>

text \<open>\<^verbatim>\<open>memset\<close>, and \<^verbatim>\<open>memmove\<close> with its two copy directions. Lengths are
  \<^verbatim>\<open>uint\<close>.\<close>

fun memset_loop :: "memory \<Rightarrow> u64 \<Rightarrow> u8 \<Rightarrow> nat \<Rightarrow> memory" where
  "memset_loop m cdst c 0 = m"
| "memset_loop m cdst c (Suc n) = memset_loop (m(cdst := c)) (cdst + 1) c n"

definition memset :: "memory \<Rightarrow> u64 \<Rightarrow> u8 \<Rightarrow> u32 \<Rightarrow> memory" where
  "memset m dst c n = memset_loop m dst c (unat n)"

fun copy_forward :: "memory \<Rightarrow> u64 \<Rightarrow> u64 \<Rightarrow> nat \<Rightarrow> memory" where
  "copy_forward m d s 0 = m"
| "copy_forward m d s (Suc n) = copy_forward (m(d := m s)) (d + 1) (s + 1) n"

fun copy_backward :: "memory \<Rightarrow> u64 \<Rightarrow> u64 \<Rightarrow> nat \<Rightarrow> memory" where
  "copy_backward m d s 0 = m"
| "copy_backward m d s (Suc n) = copy_backward (m(d - 1 := m (s - 1))) (d - 1) (s - 1) n"

definition memmove :: "memory \<Rightarrow> u64 \<Rightarrow> u64 \<Rightarrow> u32 \<Rightarrow> memory" where
  "memmove m dst src n =
     (if n = 0 then m
      else if src < dst \<and> src + ucast n > dst
      then copy_backward m (dst + ucast n) (src + ucast n) (unat n)
      else copy_forward m dst src (unat n))"

fun memcmp_loop :: "memory \<Rightarrow> u64 \<Rightarrow> u64 \<Rightarrow> nat \<Rightarrow> int" where
  "memcmp_loop m s1 s2 0 = 0"
| "memcmp_loop m s1 s2 (Suc n) =
     (if m s1 \<noteq> m s2 then uint (m s1) - uint (m s2) else memcmp_loop m (s1 + 1) (s2 + 1) n)"

definition memcmp :: "memory \<Rightarrow> u64 \<Rightarrow> u64 \<Rightarrow> u32 \<Rightarrow> int" where
  "memcmp m v1 v2 n = memcmp_loop m v1 v2 (unat n)"

lemma memset_loop_store: "memset_loop m d c n = store_bytes m d (replicate n c)"
  by (induction n arbitrary: m d) auto

lemma memset_apply: "memset m dst c n x = (if unat (x - dst) < unat n then c else m x)"
proof -
  have "length (replicate (unat n) c) \<le> 2 ^ 64" using unat_lt2p [of n] by simp
  from store_bytes_apply [OF this, of m dst x] show ?thesis
    by (simp add: memset_def memset_loop_store)
qed

text \<open>What both copy directions compute when the destination region does not
  wrap onto itself: the bytes of the source before the call.\<close>

definition copied :: "memory \<Rightarrow> u64 \<Rightarrow> u64 \<Rightarrow> nat \<Rightarrow> memory" where
  "copied m dst src n = (\<lambda>x. if unat (x - dst) < n then m (src + (x - dst)) else m x)"

lemma copied_store: "n \<le> 2 ^ 64 \<Longrightarrow> copied m dst src n = store_bytes m dst (load_bytes m src n)"
  by (rule ext) (simp add: copied_def store_bytes_apply load_bytes_def)

lemma copy_forward_copied:
  assumes "n \<le> 2 ^ 64" "\<And>k. 0 < k \<Longrightarrow> k < n \<Longrightarrow> d \<noteq> s + of_nat k"
  shows "copy_forward m d s n = copied m d s n"
  using assms
proof (induction n arbitrary: m d s)
  case 0
  then show ?case by (simp add: copied_def)
next
  case (Suc n)
  have IH: "copy_forward (m(d := m s)) (d + 1) (s + 1) n = copied (m(d := m s)) (d + 1) (s + 1) n"
  proof (rule Suc.IH)
    show "d + 1 \<noteq> s + 1 + of_nat k" if "0 < k" "k < n" for k
      using Suc.prems(2) [of k] that by (simp add: algebra_simps)
  qed (use Suc.prems in simp)
  have "copied (m(d := m s)) (d + 1) (s + 1) n x = copied m d s (Suc n) x" for x
  proof (cases "x = d")
    case True
    have "unat (d - (d + 1)) = 2 ^ 64 - 1" by (simp add: unsigned_minus_1_eq_mask mask_eq_exp_minus_1)
    with True Suc.prems(1) show ?thesis by (simp add: copied_def)
  next
    case False
    have "s + (x - d) \<noteq> d" if "unat (x - d) < Suc n"
      using Suc.prems(2) [of "unat (x - d)"] that False by (auto simp: unat_gt_0)
    with False unat_diff_Suc [OF False] show ?thesis
      by (auto simp: copied_def algebra_simps)
  qed
  with IH show ?case by auto
qed

lemma copy_backward_copied:
  assumes "n \<le> 2 ^ 64" "\<And>k. 0 < k \<Longrightarrow> k < n \<Longrightarrow> s \<noteq> d + of_nat k"
  shows "copy_backward m (d + of_nat n) (s + of_nat n) n = copied m d s n"
  using assms
proof (induction n arbitrary: m)
  case 0
  then show ?case by (simp add: copied_def)
next
  case (Suc n)
  let ?m = "m(d + of_nat n := m (s + of_nat n))"
  have IH: "copy_backward ?m (d + of_nat n) (s + of_nat n) n = copied ?m d s n"
    using Suc by simp
  have n: "unat (of_nat n :: u64) = n" using Suc.prems(1) by (simp add: unat_of_nat_small)
  have "copied ?m d s n x = copied m d s (Suc n) x" for x
  proof (cases "x = d + of_nat n")
    case True
    with n show ?thesis by (simp add: copied_def)
  next
    case False
    have ne: "unat (x - d) \<noteq> n"
    proof
      assume "unat (x - d) = n"
      then have "of_nat n = x - d" by auto
      with False show False by simp
    qed
    have "s + (x - d) \<noteq> d + of_nat n" if "unat (x - d) < n"
    proof
      assume eq: "s + (x - d) = d + of_nat n"
      have "of_nat (n - unat (x - d)) = (of_nat n - (x - d) :: u64)"
        using that by (simp add: of_nat_diff)
      moreover have "s = d + (of_nat n - (x - d))"
        using eq by (metis add_diff_cancel_right' add_diff_eq)
      ultimately have "s = d + of_nat (n - unat (x - d))" by simp
      moreover have "0 < n - unat (x - d)" "n - unat (x - d) < Suc n" using that by simp_all
      ultimately show False using Suc.prems(2) by blast
    qed
    with False ne show ?thesis by (auto simp: copied_def)
  qed
  with IH show ?case by (auto simp: algebra_simps)
qed

lemma unat_ucast_u32_u64: "unat (ucast (n :: u32) :: u64) = unat n"
  using unat_lt2p [of n] by (simp add: unsigned_ucast_eq take_bit_nat_eq_self)

lemma unat_add_of_nat:
  fixes a :: u64
  assumes "unat a + k < 2 ^ 64"
  shows "unat (a + of_nat k) = unat a + k"
  using assms by (simp add: unat_word_ariths unat_of_nat take_bit_nat_def)

text \<open>C9. Overlapping or not, \<^verbatim>\<open>memmove\<close> leaves in the destination the bytes the source
  had before the call and touches nothing else (regions that do not run past
  the end of the address space).\<close>

theorem memmove_copies:
  assumes "unat dst + unat n \<le> 2 ^ 64" "unat src + unat n < 2 ^ 64"
  shows "memmove m dst src n = copied m dst src (unat n)"
proof (cases "n = 0")
  case True
  then show ?thesis by (simp add: memmove_def copied_def)
next
  case False
  have "of_nat (unat (ucast n :: u64)) = (ucast n :: u64)" by simp
  then have n: "(ucast n :: u64) = of_nat (unat n)"
    by (simp only: unat_ucast_u32_u64)
  have le: "unat n \<le> 2 ^ 64" using assms(1) by linarith
  have src_n: "unat (src + ucast n) = unat src + unat n"
    unfolding n by (rule unat_add_of_nat [OF assms(2)])
  have dst_k: "unat (dst + of_nat k) = unat dst + k" if "k < unat n" for k
    using assms(1) that by (intro unat_add_of_nat) simp
  have src_k: "unat (src + of_nat k) = unat src + k" if "k < unat n" for k
    using assms(2) that by (intro unat_add_of_nat) simp
  show ?thesis
  proof (cases "src < dst \<and> src + ucast n > dst")
    case True
    then have "src \<noteq> dst + of_nat k" if "k < unat n" for k
      using dst_k [OF that] by (auto simp: word_less_nat_alt word_unat_eq_iff)
    then have "copy_backward m (dst + ucast n) (src + ucast n) (unat n) = copied m dst src (unat n)"
      unfolding n by (intro copy_backward_copied [OF le]) auto
    with True False show ?thesis by (simp add: memmove_def)
  next
    case c: False
    have "dst \<noteq> src + of_nat k" if "0 < k" "k < unat n" for k
      using src_k [OF that(2)] c src_n that by (auto simp: word_less_nat_alt word_unat_eq_iff)
    then have "copy_forward m dst src (unat n) = copied m dst src (unat n)"
      by (intro copy_forward_copied [OF le]) auto
    with c False show ?thesis by (auto simp add: memmove_def)
  qed
qed

theorem memmove_copies_witness:
  "memmove (\<lambda>a. ucast a) 0x1004 0x1000 8 = copied (\<lambda>a. ucast a) 0x1004 0x1000 8"
  using memmove_copies [of "0x1004" 8 "0x1000" "\<lambda>a. ucast a"] by simp

lemma memcmp_eq_0_iff:
  "memcmp m v1 v2 n = 0 \<longleftrightarrow> load_bytes m v1 (unat n) = load_bytes m v2 (unat n)"
proof -
  have "memcmp_loop m v1 v2 k = 0 \<longleftrightarrow> (\<forall>i<k. m (v1 + of_nat i) = m (v2 + of_nat i))" for k
  proof (induction k arbitrary: v1 v2)
    case (Suc k)
    show ?case
      by (simp add: All_less_Suc2 Suc.IH word_uint_eq_iff add.assoc)
  qed simp
  then show ?thesis by (auto simp: memcmp_def load_bytes_def)
qed

section \<open>Loads and stores inside a page\<close>

lemma in_range_add:
  fixes a :: u64
  assumes "unat (x - a) < k"
  obtains i where "i < k" "x = a + of_nat i"
proof
  show "unat (x - a) < k" by (fact assms)
  show "x = a + of_nat (unat (x - a))" by simp
qed

lemma store_bytes_page:
  assumes "page_aligned p" "off + length bs \<le> 4096" "PGROUNDDOWN x \<noteq> p"
  shows "store_bytes m (p + of_nat off) bs x = m x"
proof -
  have "\<not> unat (x - (p + of_nat off)) < length bs"
  proof
    assume "unat (x - (p + of_nat off)) < length bs"
    then obtain i where i: "i < length bs" "x = p + of_nat off + of_nat i"
      by (rule in_range_add)
    then have "x = p + of_nat (off + i)" by simp
    with assms(1,2) i(1) have "PGROUNDDOWN x = p" by (simp add: PGROUNDDOWN_offset del: of_nat_add)
    with assms(3) show False by simp
  qed
  with assms(2) show ?thesis by (simp add: store_bytes_apply)
qed

lemma store64_page:
  "page_aligned p \<Longrightarrow> off + 8 \<le> 4096 \<Longrightarrow> PGROUNDDOWN x \<noteq> p \<Longrightarrow> store64 m (p + of_nat off) v x = m x"
  by (simp add: store64_def store_bytes_page)

lemma load64_page_cong:
  assumes "page_aligned p" "off + 8 \<le> 4096" "\<And>x. PGROUNDDOWN x = p \<Longrightarrow> m x = m' x"
  shows "load64 m (p + of_nat off) = load64 m' (p + of_nat off)"
proof (rule load64_cong)
  fix i :: nat assume "i < 8"
  then have "PGROUNDDOWN (p + of_nat (off + i)) = p"
    using assms(1,2) by (intro PGROUNDDOWN_offset) auto
  then show "m (p + of_nat off + of_nat i) = m' (p + of_nat off + of_nat i)"
    using assms(3) [of "p + of_nat (off + i)"] by (simp add: add.assoc)
qed

lemma memset_page:
  "page_aligned p \<Longrightarrow> memset m p c 4096 x = (if PGROUNDDOWN x = p then c else m x)"
  by (simp add: memset_apply in_page_iff)

text \<open>The 512 eight-byte slots of a page.\<close>

definition slot :: "u64 \<Rightarrow> nat \<Rightarrow> u64" where
  "slot p i = p + of_nat (8 * i)"

lemma slot_page: "page_aligned p \<Longrightarrow> i < 512 \<Longrightarrow> PGROUNDDOWN (slot p i) = p"
  unfolding slot_def by (rule PGROUNDDOWN_offset) auto

lemma slot_0 [simp]: "slot p 0 = p"
  by (simp add: slot_def)

lemma store64_slot_page:
  "page_aligned p \<Longrightarrow> i < 512 \<Longrightarrow> PGROUNDDOWN x \<noteq> p \<Longrightarrow> store64 m (slot p i) v x = m x"
  unfolding slot_def by (rule store64_page) auto

lemma load64_slot_cong:
  "page_aligned p \<Longrightarrow> i < 512 \<Longrightarrow> (\<And>x. PGROUNDDOWN x = p \<Longrightarrow> m x = m' x) \<Longrightarrow>
   load64 m (slot p i) = load64 m' (slot p i)"
  unfolding slot_def by (rule load64_page_cong) auto

lemma load64_store64_slot:
  assumes "page_aligned p" "page_aligned q" "i < 512" "j < 512"
  shows "load64 (store64 m (slot p i) v) (slot q j) = (if p = q \<and> i = j then v else load64 m (slot q j))"
proof (cases "p = q \<and> i = j")
  case False
  show ?thesis
  proof (cases "p = q")
    case True
    with False have ij: "i \<noteq> j" by simp
    have "\<not> unat (slot q j + of_nat k - slot p i) < 8" if k: "k < 8" for k
    proof
      assume "unat (slot q j + of_nat k - slot p i) < 8"
      then obtain l where l: "l < 8" "slot q j + of_nat k = slot p i + of_nat l"
        by (rule in_range_add)
      then have "(of_nat (8 * j + k) :: u64) = of_nat (8 * i + l)"
        using True by (simp add: slot_def add.assoc)
      then have "unat (of_nat (8 * j + k) :: u64) = unat (of_nat (8 * i + l) :: u64)" by simp
      then have "8 * j + k = 8 * i + l"
        using assms(3,4) k l(1) by (subst (asm) (1 2) unat_of_nat_small) auto
      with ij k l(1) show False by presburger
    qed
    then have "load64 (store64 m (slot p i) v) (slot q j) = load64 m (slot q j)"
      by (intro load64_cong) (simp add: store64_apply)
    with False show ?thesis by auto
  next
    case c: False
    have "load64 (store64 m (slot p i) v) (slot q j) = load64 m (slot q j)"
      by (rule load64_slot_cong) (use assms c in \<open>auto simp: store64_slot_page\<close>)
    with c show ?thesis by simp
  qed
qed simp

lemma load64_memset_zero:
  assumes "page_aligned p" "i < 512"
  shows "load64 (memset m p 0 4096) (slot p i) = 0"
proof -
  have "load64 (memset m p 0 4096) (slot p i) = load64 (\<lambda>_. 0) (slot p i)"
    by (rule load64_slot_cong) (use assms in \<open>simp_all add: memset_page\<close>)
  also have "load64 (\<lambda>_. 0) a = 0" for a
    by (simp add: load64_def load_bytes_def upt_rec)
  finally show ?thesis .
qed

end
