(* ===== verification/Kalloc.thy ===== *)
theory Kalloc
  imports Phys_Mem
begin

text \<open>
  The physical page allocator (\<^verbatim>\<open>kernel/kalloc.c\<close>). The free list is the C one:
  \<open>freelist\<close> is the address of the first free page and the first eight bytes of
  a free page hold the address of the next. \<open>kend\<close> is the linker symbol
  \<^verbatim>\<open>end\<close>. The abstraction is the list of free pages; the allocator is shown to
  be a stack of distinct pages.
\<close>

record phys = kst +
  mem :: memory
  freelist :: u64
  kend :: u64

section \<open>Operations\<close>

definition kfree :: "u64 \<Rightarrow> 'a phys_scheme \<Rightarrow> 'a phys_scheme res" where
  "kfree pa s =
     (if pa mod PGSIZE \<noteq> 0 \<or> pa < kend s \<or> pa \<ge> PHYSTOP then Panic ''kfree''
      else let s = s\<lparr>mem := memset (mem s) pa 1 4096\<rparr>
           in rbind (acquire L_kmem s) (\<lambda>s.
                let s = s\<lparr>mem := store64 (mem s) pa (freelist s), freelist := pa\<rparr>
                in release L_kmem s))"

definition kalloc :: "'a phys_scheme \<Rightarrow> (u64 \<times> 'a phys_scheme) res" where
  "kalloc s =
     rbind (acquire L_kmem s) (\<lambda>s.
       let r = freelist s;
           s = (if r \<noteq> 0 then s\<lparr>freelist := load64 (mem s) r\<rparr> else s)
       in rbind (release L_kmem s) (\<lambda>s.
            Ok (r, if r \<noteq> 0 then s\<lparr>mem := memset (mem s) r 5 4096\<rparr> else s)))"

fun freerange_loop :: "nat \<Rightarrow> u64 \<Rightarrow> u64 \<Rightarrow> 'a phys_scheme \<Rightarrow> 'a phys_scheme res" where
  "freerange_loop 0 p pa_end s = NoFuel"
| "freerange_loop (Suc fuel) p pa_end s =
     (if p + PGSIZE \<le> pa_end
      then rbind (kfree p s) (\<lambda>s. freerange_loop fuel (p + PGSIZE) pa_end s)
      else Ok s)"

text \<open>The bound is one more than the number of pages of an address space of
  physical size \<open>PHYSTOP\<close>.\<close>

definition freerange :: "u64 \<Rightarrow> u64 \<Rightarrow> 'a phys_scheme \<Rightarrow> 'a phys_scheme res" where
  "freerange pa_start pa_end s =
     freerange_loop (Suc (unat PHYSTOP div 4096)) (PGROUNDUP pa_start) pa_end s"

definition kinit :: "'a phys_scheme \<Rightarrow> 'a phys_scheme res" where
  "kinit s = freerange (kend s) PHYSTOP s"

section \<open>The free list\<close>

fun flist :: "memory \<Rightarrow> u64 \<Rightarrow> u64 list \<Rightarrow> bool" where
  "flist m p [] \<longleftrightarrow> p = 0"
| "flist m p (q # qs) \<longleftrightarrow> p = q \<and> q \<noteq> 0 \<and> flist m (load64 m q) qs"

definition page_ok :: "'a phys_scheme \<Rightarrow> u64 \<Rightarrow> bool" where
  "page_ok s p \<longleftrightarrow> page_aligned p \<and> kend s \<le> p \<and> p < PHYSTOP \<and> p \<noteq> 0"

definition kmem_inv :: "'a phys_scheme \<Rightarrow> u64 list \<Rightarrow> bool" where
  "kmem_inv s ps \<longleftrightarrow>
     flist (mem s) (freelist s) ps \<and> distinct ps \<and> (\<forall>p\<in>set ps. page_ok s p)"

lemma flist_cong:
  assumes "flist m p ps" "\<forall>q\<in>set ps. page_aligned q"
    and "\<And>x. PGROUNDDOWN x \<in> set ps \<Longrightarrow> m' x = m x"
  shows "flist m' p ps"
  using assms
proof (induction ps arbitrary: p)
  case (Cons q qs)
  have "load64 m' (slot q 0) = load64 m (slot q 0)"
    by (rule load64_slot_cong) (use Cons.prems in auto)
  with Cons show ?case by simp
qed simp

lemma flist_unique: "flist m p ps \<Longrightarrow> flist m p qs \<Longrightarrow> ps = qs"
proof (induction ps arbitrary: p qs)
  case Nil
  then show ?case by (cases qs) auto
next
  case (Cons a ps)
  then show ?case by (cases qs) auto
qed

lemma kmem_inv_unique: "kmem_inv s ps \<Longrightarrow> kmem_inv s qs \<Longrightarrow> ps = qs"
  by (auto simp: kmem_inv_def intro: flist_unique)

lemma page_ok_cong: "kend t = kend s \<Longrightarrow> page_ok t p = page_ok s p"
  by (simp add: page_ok_def)

text \<open>Memory outside the free pages does not matter to the allocator.\<close>

lemma kmem_inv_frame:
  assumes "kmem_inv s ps" "freelist t = freelist s" "kend t = kend s"
    and "\<And>x. PGROUNDDOWN x \<in> set ps \<Longrightarrow> mem t x = mem s x"
  shows "kmem_inv t ps"
  using assms flist_cong [of "mem s" "freelist s" ps "mem t"]
  by (auto simp: kmem_inv_def page_ok_def)

lemma kfree_Ok:
  assumes "page_ok s p" "L_kmem \<notin> set (held s)"
  shows "kfree p s =
    Ok (s\<lparr>mem := store64 (memset (mem s) p 1 4096) p (freelist s), freelist := p\<rparr>)"
  using assms by (auto simp: kfree_def page_ok_def page_aligned_def not_less not_le)

lemma kfree_inv:
  assumes "kmem_inv s ps" "page_ok s p" "p \<notin> set ps" "L_kmem \<notin> set (held s)"
  shows "returns (kfree p s) (\<lambda>t. kmem_inv t (p # ps) \<and> held t = held s \<and> kend t = kend s \<and>
           (\<forall>x. PGROUNDDOWN x \<noteq> p \<longrightarrow> mem t x = mem s x))"
proof -
  let ?m = "store64 (memset (mem s) p 1 4096) p (freelist s)"
  have al: "page_aligned p" "\<forall>q\<in>set ps. page_aligned q"
    using assms by (auto simp: page_ok_def kmem_inv_def)
  have out: "?m x = mem s x" if "PGROUNDDOWN x \<noteq> p" for x
    using store64_slot_page [OF al(1), of 0 x "memset (mem s) p 1 4096" "freelist s"] that al(1)
    by (simp add: memset_page)
  have "flist ?m (freelist s) ps"
  proof (rule flist_cong [OF _ al(2)])
    show "flist (mem s) (freelist s) ps" using assms(1) by (simp add: kmem_inv_def)
    show "?m x = mem s x" if "PGROUNDDOWN x \<in> set ps" for x
      using that assms(3) by (intro out) auto
  qed
  with assms out show ?thesis
    by (auto simp: kfree_Ok kmem_inv_def page_ok_def)
qed

lemma kalloc_None:
  assumes "kmem_inv s []" "L_kmem \<notin> set (held s)"
  shows "kalloc s = Ok (0, s)"
  using assms by (simp add: kalloc_def kmem_inv_def)

lemma kalloc_Some:
  assumes "kmem_inv s (p # ps)" "L_kmem \<notin> set (held s)"
  shows "kalloc s = Ok (p, s\<lparr>freelist := load64 (mem s) p, mem := memset (mem s) p 5 4096\<rparr>)"
  using assms by (simp add: kalloc_def kmem_inv_def)

lemma kalloc_inv:
  assumes "kmem_inv s (p # ps)" "L_kmem \<notin> set (held s)"
  shows "returns (kalloc s) (\<lambda>(r, t). r = p \<and> kmem_inv t ps \<and> held t = held s \<and> kend t = kend s \<and>
           (\<forall>x. mem t x = (if PGROUNDDOWN x = p then 5 else mem s x)))"
proof -
  have al: "page_aligned p" "\<forall>q\<in>set ps. page_aligned q"
    using assms by (auto simp: page_ok_def kmem_inv_def)
  have "flist (memset (mem s) p 5 4096) (load64 (mem s) p) ps"
    by (rule flist_cong [of "mem s"])
      (use assms al in \<open>auto simp: kmem_inv_def memset_page split: if_splits\<close>)
  with assms(1) al show ?thesis
    unfolding kalloc_Some [OF assms] by (auto simp: kmem_inv_def page_ok_def memset_page)
qed

text \<open>A bad address panics and a good one never does.\<close>

lemma kfree_panic_iff:
  assumes "L_kmem \<notin> set (held s)"
  shows "(\<exists>e. kfree pa s = Panic e) \<longleftrightarrow> \<not> (page_aligned pa \<and> kend s \<le> pa \<and> pa < PHYSTOP)"
  using assms by (auto simp: kfree_def page_aligned_def not_less not_le Let_def)

section \<open>Initialisation\<close>

definition pages_from :: "u64 \<Rightarrow> nat \<Rightarrow> u64 list" where
  "pages_from p n = map (\<lambda>i. p + of_nat (4096 * i)) [0..<n]"

lemma pages_from_Suc: "pages_from p (Suc n) = p # pages_from (p + PGSIZE) n"
proof -
  have "[0..<Suc n] = 0 # map Suc [0..<n]" by (simp add: map_Suc_upt upt_conv_Cons)
  then show ?thesis by (simp add: pages_from_def PGSIZE_def algebra_simps)
qed

lemma PHYSTOP_unat: "unat PHYSTOP = 2281701376"
  by (simp add: PHYSTOP_def KERNBASE_def)

lemma freerange_loop_inv:
  assumes "kmem_inv s ps" "L_kmem \<notin> set (held s)" "0 < kend s"
    and "page_aligned p" "kend s \<le> p" "unat p \<le> unat PHYSTOP + 4096" "pa_end \<le> PHYSTOP"
    and "\<forall>q\<in>set ps. q < p"
    and "(unat pa_end - unat p) div 4096 = n" "n < fuel"
  shows "returns (freerange_loop fuel p pa_end s)
    (\<lambda>t. kmem_inv t (rev (pages_from p n) @ ps) \<and> held t = held s \<and> kend t = kend s)"
  using assms
proof (induction n arbitrary: fuel p s ps)
  case 0
  obtain fuel' where f: "fuel = Suc fuel'" using "0.prems"(10) by (cases fuel) auto
  have pp: "unat (p + PGSIZE) = unat p + 4096"
    using "0.prems"(6) by (simp add: PGSIZE_def unat_word_ariths PHYSTOP_unat)
  have "\<not> p + PGSIZE \<le> pa_end"
    using "0.prems"(9) pp by (simp add: word_le_nat_alt)
  with f "0.prems" show ?case by (simp add: pages_from_def)
next
  case (Suc n)
  obtain fuel' where f: "fuel = Suc fuel'" using Suc.prems(10) by (cases fuel) auto
  have pp: "unat (p + PGSIZE) = unat p + 4096"
    using Suc.prems(6) by (simp add: PGSIZE_def unat_word_ariths PHYSTOP_unat)
  have le: "unat p + 4096 \<le> unat pa_end" using Suc.prems(9) by linarith
  have pe: "unat pa_end \<le> unat PHYSTOP" using Suc.prems(7) by (simp add: word_le_nat_alt)
  have ok: "page_ok s p"
    using Suc.prems(3-5) le pe by (auto simp: page_ok_def word_less_nat_alt word_le_nat_alt)
  have nin: "p \<notin> set ps" using Suc.prems(8) by auto
  obtain t where t: "kfree p s = Ok t" "kmem_inv t (p # ps)" "held t = held s" "kend t = kend s"
    using kfree_inv [OF Suc.prems(1) ok nin Suc.prems(2)] by (auto simp: returns_def)
  have "returns (freerange_loop fuel' (p + PGSIZE) pa_end t)
    (\<lambda>u. kmem_inv u (rev (pages_from (p + PGSIZE) n) @ p # ps) \<and> held u = held t \<and> kend u = kend t)"
  proof (rule Suc.IH)
    show "page_aligned (p + PGSIZE)" using Suc.prems(4) by (simp add: page_aligned_unat pp)
    show "kend t \<le> p + PGSIZE" using Suc.prems(5) by (simp add: t word_le_nat_alt pp)
    show "\<forall>q\<in>set (p # ps). q < p + PGSIZE"
      using Suc.prems(8) by (auto simp: word_less_nat_alt pp)
    show "(unat pa_end - unat (p + PGSIZE)) div 4096 = n" using Suc.prems(9) pp le by simp
  qed (use t Suc.prems f le pe pp in \<open>auto simp: word_le_nat_alt\<close>)
  then show ?case
    using f t le by (simp add: word_le_nat_alt pp pages_from_Suc)
qed

lemma set_pages_from:
  assumes "page_aligned p" "unat p + 4096 * n < 2 ^ 64"
  shows "set (pages_from p n) = {q. page_aligned q \<and> unat p \<le> unat q \<and> unat q < unat p + 4096 * n}"
proof (rule set_eqI)
  fix q
  obtain k where k: "unat p = 4096 * k" using assms(1) by (auto simp: page_aligned_unat)
  have u: "unat (p + of_nat (4096 * i)) = unat p + 4096 * i" if "i < n" for i
    by (rule unat_add_of_nat) (use assms(2) that in auto)
  show "q \<in> set (pages_from p n) \<longleftrightarrow>
      q \<in> {q. page_aligned q \<and> unat p \<le> unat q \<and> unat q < unat p + 4096 * n}"
  proof
    assume "q \<in> set (pages_from p n)"
    then obtain i where "i < n" "q = p + of_nat (4096 * i)" by (auto simp: pages_from_def)
    with u k show "q \<in> {q. page_aligned q \<and> unat p \<le> unat q \<and> unat q < unat p + 4096 * n}"
      by (simp add: page_aligned_unat del: of_nat_mult)
  next
    assume "q \<in> {q. page_aligned q \<and> unat p \<le> unat q \<and> unat q < unat p + 4096 * n}"
    then obtain l where l: "unat q = 4096 * l" "k \<le> l" "l < k + n"
      using k by (auto simp: page_aligned_unat)
    have "unat (p + of_nat (4096 * (l - k))) = unat q"
      using u [of "l - k"] l k by simp
    then have "q = p + of_nat (4096 * (l - k))" by (simp only: word_unat_eq_iff)
    moreover have "l - k < n" using l by simp
    ultimately show "q \<in> set (pages_from p n)" by (auto simp: pages_from_def)
  qed
qed

text \<open>C6. After \<^verbatim>\<open>kinit\<close> the allocator owns exactly the page-aligned physical pages
  between the end of the kernel image and \<open>PHYSTOP\<close>, each once; the boot loop
  ends within its bound and does not panic.\<close>

theorem kinit_frees_all:
  assumes "KERNBASE \<le> kend s" "kend s \<le> PHYSTOP" "freelist s = 0" "L_kmem \<notin> set (held s)"
  shows "returns (kinit s) (\<lambda>t. \<exists>ps. kmem_inv t ps \<and> distinct ps \<and>
    set ps = {p. page_aligned p \<and> kend s \<le> p \<and> p < PHYSTOP})"
proof -
  let ?p = "PGROUNDUP (kend s)"
  have ke: "unat KERNBASE \<le> unat (kend s)" "unat (kend s) \<le> unat PHYSTOP"
    using assms(1,2) by (simp_all add: word_le_nat_alt)
  have pu: "unat ?p = (unat (kend s) + 4095) div 4096 * 4096"
    using ke by (intro unat_PGROUNDUP) (simp add: PHYSTOP_unat)
  have lep: "kend s \<le> ?p" unfolding word_le_nat_alt pu by linarith
  have "(unat (kend s) + 4095) div 4096 \<le> (unat PHYSTOP + 4095) div 4096"
    using ke(2) by (intro div_le_mono) simp
  then have up: "unat ?p \<le> unat PHYSTOP" unfolding pu PHYSTOP_unat by simp
  define n where "n = (unat PHYSTOP - unat ?p) div 4096"
  have stop: "unat ?p + 4096 * n = unat PHYSTOP"
  proof -
    obtain j where j: "unat ?p = 4096 * j" using pu by (metis mult.commute)
    have P: "unat PHYSTOP = 4096 * 557056" by (simp add: PHYSTOP_unat)
    have "n = 557056 - j" unfolding n_def j P by (simp flip: diff_mult_distrib2)
    moreover have "j \<le> 557056" using up unfolding j P by simp
    ultimately show ?thesis unfolding j P by simp
  qed
  have "returns (kinit s) (\<lambda>t. kmem_inv t (rev (pages_from ?p n) @ []) \<and> held t = held s \<and> kend t = kend s)"
    unfolding kinit_def freerange_def
  proof (rule freerange_loop_inv)
    show "kmem_inv s []" using assms(3) by (simp add: kmem_inv_def)
    show "0 < kend s" using ke(1) by (simp add: word_less_nat_alt KERNBASE_def)
    show "(unat PHYSTOP - unat ?p) div 4096 = n" by (simp add: n_def)
    show "n < Suc (unat PHYSTOP div 4096)" by (simp add: n_def div_le_mono less_Suc_eq_le)
  qed (use assms lep up in auto)
  moreover have "set (pages_from ?p n) = {p. page_aligned p \<and> kend s \<le> p \<and> p < PHYSTOP}"
  proof -
    have "unat ?p \<le> unat q \<longleftrightarrow> unat (kend s) \<le> unat q" if al: "page_aligned q" for q
    proof -
      obtain l where "unat q = 4096 * l" using al by (auto simp: page_aligned_unat)
      moreover have "(unat (kend s) + 4095) div 4096 < Suc l \<longleftrightarrow> unat (kend s) + 4095 < Suc l * 4096"
        by (rule div_less_iff_less_mult) simp
      ultimately show ?thesis unfolding pu by auto
    qed
    then show ?thesis
      by (subst set_pages_from)
        (simp, simp add: stop PHYSTOP_unat, auto simp: stop word_le_nat_alt word_less_nat_alt)
  qed
  ultimately show ?thesis
    by (elim returns_mono) (auto simp: kmem_inv_def)
qed

theorem kinit_frees_all_witness:
  "returns (kinit (\<lparr>held = [], mem = (\<lambda>_. 0), freelist = 0, kend = 0x80021d58\<rparr> :: phys))
    (\<lambda>t. \<exists>ps. kmem_inv t ps \<and> distinct ps \<and>
      set ps = {p. page_aligned p \<and> 0x80021d58 \<le> p \<and> p < PHYSTOP})"
  using kinit_frees_all [of "\<lparr>held = [], mem = (\<lambda>_. 0), freelist = 0, kend = 0x80021d58\<rparr> :: phys"]
  by (simp add: KERNBASE_def PHYSTOP_def)

text \<open>The contract the rest of the kernel relies on, and what follows from it for any
  client: an allocated page is not handed out again before it is freed.\<close>

locale page_allocator =
  fixes alloc :: "'s \<Rightarrow> (u64 \<times> 's) res"
    and free :: "u64 \<Rightarrow> 's \<Rightarrow> 's res"
    and avail :: "'s \<Rightarrow> u64 list \<Rightarrow> bool"
    and is_page :: "'s \<Rightarrow> u64 \<Rightarrow> bool"
  assumes avail_distinct: "avail s ps \<Longrightarrow> distinct ps"
    and avail_page: "avail s ps \<Longrightarrow> p \<in> set ps \<Longrightarrow> is_page s p \<and> p \<noteq> 0"
    and alloc_Cons: "avail s (p # ps) \<Longrightarrow>
      returns (alloc s) (\<lambda>(r, t). r = p \<and> avail t ps \<and> is_page t = is_page s)"
    and alloc_Nil: "avail s [] \<Longrightarrow> returns (alloc s) (\<lambda>(r, t). r = 0 \<and> avail t [])"
    and free_page: "avail s ps \<Longrightarrow> is_page s p \<Longrightarrow> p \<notin> set ps \<Longrightarrow>
      returns (free p s) (\<lambda>t. avail t (p # ps) \<and> is_page t = is_page s)"
begin

lemma alloc_fresh:
  assumes "avail s ps"
  shows "returns (alloc s) (\<lambda>(r, t). if r = 0 then ps = [] else r \<in> set ps \<and> (\<exists>qs. avail t qs \<and> r \<notin> set qs))"
proof (cases ps)
  case Nil
  with assms show ?thesis using alloc_Nil [of s] by (auto elim!: returns_mono)
next
  case (Cons p qs)
  then have "p \<noteq> 0" "p \<notin> set qs"
    using assms avail_page [of s ps p] avail_distinct [of s ps] by auto
  with Cons assms show ?thesis using alloc_Cons [of s p qs] by (auto elim!: returns_mono)
qed

lemma alloc_free:
  assumes "avail s (p # ps)"
  shows "returns (rbind (alloc s) (\<lambda>(r, t). free r t)) (\<lambda>u. avail u (p # ps))"
proof -
  obtain t where t: "alloc s = Ok (p, t)" "avail t ps" "is_page t = is_page s"
    using alloc_Cons [OF assms] by (auto simp: returns_def)
  have "is_page t p" "p \<notin> set ps"
    using t(3) assms avail_page [OF assms, of p] avail_distinct [OF assms] by auto
  with t free_page [OF t(2), of p] show ?thesis by (auto elim: returns_mono)
qed

lemma alloc_twice:
  assumes "avail s (p # q # ps)"
  shows "returns (rbind (alloc s) (\<lambda>(r, t). rbind (alloc t) (\<lambda>(r', u). Ok (r, r')))) (\<lambda>(r, r'). r \<noteq> r')"
proof -
  obtain t where t: "alloc s = Ok (p, t)" "avail t (q # ps)"
    using alloc_Cons [OF assms] by (auto simp: returns_def)
  moreover have "p \<noteq> q" using avail_distinct [OF assms] by simp
  ultimately show ?thesis using alloc_Cons [OF t(2)] by (auto elim!: returns_mono)
qed

end

definition kmem_ready :: "'a phys_scheme \<Rightarrow> u64 list \<Rightarrow> bool" where
  "kmem_ready s ps \<longleftrightarrow> kmem_inv s ps \<and> L_kmem \<notin> set (held s)"

interpretation kpages: page_allocator kalloc kfree kmem_ready page_ok
proof unfold_locales
  fix s :: "'a phys_scheme" and p ps
  show "distinct ps" if "kmem_ready s ps" using that by (simp add: kmem_ready_def kmem_inv_def)
  show "page_ok s p \<and> p \<noteq> 0" if "kmem_ready s ps" "p \<in> set ps"
    using that by (auto simp: kmem_ready_def kmem_inv_def page_ok_def)
  show "returns (kalloc s) (\<lambda>(r, t). r = p \<and> kmem_ready t ps \<and> page_ok t = page_ok s)"
    if "kmem_ready s (p # ps)"
    by (rule returns_mono [OF kalloc_inv [of s p ps]])
      (use that in \<open>auto simp: kmem_ready_def page_ok_def fun_eq_iff\<close>)
  show "returns (kalloc s) (\<lambda>(r, t). r = 0 \<and> kmem_ready t [])" if "kmem_ready s []"
    using that by (simp add: kmem_ready_def kalloc_None)
  show "returns (kfree p s) (\<lambda>t. kmem_ready t (p # ps) \<and> page_ok t = page_ok s)"
    if "kmem_ready s ps" "page_ok s p" "p \<notin> set ps"
    by (rule returns_mono [OF kfree_inv [of s ps p]])
      (use that in \<open>auto simp: kmem_ready_def page_ok_def fun_eq_iff\<close>)
qed

end
