(* ===== verification/Vm.thy ===== *)
theory Vm
  imports Kalloc
begin

text \<open>
  Virtual memory (\<^verbatim>\<open>kernel/vm.c\<close>): three-level Sv39 page tables kept in physical
  pages, the operations on user address spaces, and the copies between kernel
  and user memory. Page tables are read and written in the byte memory of
  \<^verbatim>\<open>Phys_Mem\<close> through the same loads and stores as the C code. Kernel buffers that
  are the source or destination of a copy are byte lists.
\<close>

section \<open>Page-table entries\<close>

definition PTE_V :: u64 where "PTE_V = 1"
definition PTE_R :: u64 where "PTE_R = 2"
definition PTE_W :: u64 where "PTE_W = 4"
definition PTE_X :: u64 where "PTE_X = 8"
definition PTE_U :: u64 where "PTE_U = 16"

lemmas pte_bits = PTE_V_def PTE_R_def PTE_W_def PTE_X_def PTE_U_def

definition PA2PTE :: "u64 \<Rightarrow> u64" where
  "PA2PTE pa = push_bit 10 (drop_bit 12 pa)"

definition PTE2PA :: "u64 \<Rightarrow> u64" where
  "PTE2PA pte = push_bit 12 (drop_bit 10 pte)"

definition PTE_FLAGS :: "u64 \<Rightarrow> u64" where
  "PTE_FLAGS pte = pte AND 0x3FF"

definition PXSHIFT :: "nat \<Rightarrow> nat" where
  "PXSHIFT level = 12 + 9 * level"

definition PX :: "nat \<Rightarrow> u64 \<Rightarrow> nat" where
  "PX level va = unat (drop_bit (PXSHIFT level) va AND 0x1FF)"

section \<open>Walking and mapping\<close>

fun walk_loop :: "nat \<Rightarrow> u64 \<Rightarrow> u64 \<Rightarrow> bool \<Rightarrow> 'a phys_scheme \<Rightarrow> (u64 \<times> 'a phys_scheme) res" where
  "walk_loop 0 pagetable va alloc s = Ok (slot pagetable (PX 0 va), s)"
| "walk_loop (Suc level) pagetable va alloc s =
     (let pte = slot pagetable (PX (Suc level) va)
      in if load64 (mem s) pte AND PTE_V \<noteq> 0
         then walk_loop level (PTE2PA (load64 (mem s) pte)) va alloc s
         else if \<not> alloc then Ok (0, s)
         else rbind (kalloc s) (\<lambda>(pg, s).
                if pg = 0 then Ok (0, s)
                else let s = s\<lparr>mem := memset (mem s) pg 0 4096\<rparr>;
                         s = s\<lparr>mem := store64 (mem s) pte (PA2PTE pg OR PTE_V)\<rparr>
                     in walk_loop level pg va alloc s))"

definition walk :: "u64 \<Rightarrow> u64 \<Rightarrow> bool \<Rightarrow> 'a phys_scheme \<Rightarrow> (u64 \<times> 'a phys_scheme) res" where
  "walk pagetable va alloc s =
     (if va \<ge> MAXVA then Panic ''walk'' else walk_loop 2 pagetable va alloc s)"

definition walkaddr :: "u64 \<Rightarrow> u64 \<Rightarrow> 'a phys_scheme \<Rightarrow> u64 res" where
  "walkaddr pagetable va s =
     (if va \<ge> MAXVA then Ok 0
      else rbind (walk pagetable va False s) (\<lambda>(pte, s).
        if pte = 0 then Ok 0
        else if load64 (mem s) pte AND PTE_V = 0 then Ok 0
        else if load64 (mem s) pte AND PTE_U = 0 then Ok 0
        else Ok (PTE2PA (load64 (mem s) pte))))"

fun mappages_loop ::
  "nat \<Rightarrow> u64 \<Rightarrow> u64 \<Rightarrow> u64 \<Rightarrow> u64 \<Rightarrow> u64 \<Rightarrow> 'a phys_scheme \<Rightarrow> (int \<times> 'a phys_scheme) res" where
  "mappages_loop 0 pagetable a lst pa perm s = NoFuel"
| "mappages_loop (Suc fuel) pagetable a lst pa perm s =
     rbind (walk pagetable a True s) (\<lambda>(pte, s).
       if pte = 0 then Ok (-1, s)
       else if load64 (mem s) pte AND PTE_V \<noteq> 0 then Panic ''mappages: remap''
       else let s = s\<lparr>mem := store64 (mem s) pte (PA2PTE pa OR perm OR PTE_V)\<rparr>
            in if a = lst then Ok (0, s)
               else mappages_loop fuel pagetable (a + PGSIZE) lst (pa + PGSIZE) perm s)"

definition mappages ::
  "u64 \<Rightarrow> u64 \<Rightarrow> u64 \<Rightarrow> u64 \<Rightarrow> u64 \<Rightarrow> 'a phys_scheme \<Rightarrow> (int \<times> 'a phys_scheme) res" where
  "mappages pagetable va sz pa perm s =
     (if va mod PGSIZE \<noteq> 0 then Panic ''mappages: va not aligned''
      else if sz mod PGSIZE \<noteq> 0 then Panic ''mappages: size not aligned''
      else if sz = 0 then Panic ''mappages: size''
      else mappages_loop (unat sz div 4096) pagetable va (va + sz - PGSIZE) pa perm s)"

definition kvmmap :: "u64 \<Rightarrow> u64 \<Rightarrow> u64 \<Rightarrow> u64 \<Rightarrow> u64 \<Rightarrow> 'a phys_scheme \<Rightarrow> 'a phys_scheme res" where
  "kvmmap kpgtbl va pa sz perm s =
     rbind (mappages kpgtbl va sz pa perm s) (\<lambda>(r, s). if r \<noteq> 0 then Panic ''kvmmap'' else Ok s)"

fun uvmunmap_loop :: "nat \<Rightarrow> u64 \<Rightarrow> u64 \<Rightarrow> u64 \<Rightarrow> bool \<Rightarrow> 'a phys_scheme \<Rightarrow> 'a phys_scheme res" where
  "uvmunmap_loop 0 pagetable a stop do_free s = (if a < stop then NoFuel else Ok s)"
| "uvmunmap_loop (Suc fuel) pagetable a stop do_free s =
     (if a < stop
      then rbind (walk pagetable a False s) (\<lambda>(pte, s).
        if pte = 0 then Panic ''uvmunmap: walk''
        else if load64 (mem s) pte AND PTE_V = 0 then Panic ''uvmunmap: not mapped''
        else if PTE_FLAGS (load64 (mem s) pte) = PTE_V then Panic ''uvmunmap: not a leaf''
        else rbind (if do_free then kfree (PTE2PA (load64 (mem s) pte)) s else Ok s) (\<lambda>s.
          uvmunmap_loop fuel pagetable (a + PGSIZE) stop do_free
            (s\<lparr>mem := store64 (mem s) pte 0\<rparr>)))
      else Ok s)"

definition uvmunmap :: "u64 \<Rightarrow> u64 \<Rightarrow> u64 \<Rightarrow> bool \<Rightarrow> 'a phys_scheme \<Rightarrow> 'a phys_scheme res" where
  "uvmunmap pagetable va npages do_free s =
     (if va mod PGSIZE \<noteq> 0 then Panic ''uvmunmap: not aligned''
      else uvmunmap_loop (unat npages) pagetable va (va + npages * PGSIZE) do_free s)"

section \<open>User address spaces\<close>

definition uvmcreate :: "'a phys_scheme \<Rightarrow> (u64 \<times> 'a phys_scheme) res" where
  "uvmcreate s = rbind (kalloc s) (\<lambda>(pagetable, s).
     if pagetable = 0 then Ok (0, s)
     else Ok (pagetable, s\<lparr>mem := memset (mem s) pagetable 0 4096\<rparr>))"

text \<open>\<^verbatim>\<open>uvmfirst\<close> does not check the page it allocates: a store through the null
  pointer faults in the kernel, and \<^verbatim>\<open>kerneltrap\<close> panics.\<close>

definition uvmfirst :: "u64 \<Rightarrow> u8 list \<Rightarrow> 'a phys_scheme \<Rightarrow> 'a phys_scheme res" where
  "uvmfirst pagetable src s =
     (if length src \<ge> 4096 then Panic ''uvmfirst: more than a page''
      else rbind (kalloc s) (\<lambda>(pg, s).
        if pg = 0 then Panic ''kerneltrap''
        else let s = s\<lparr>mem := memset (mem s) pg 0 4096\<rparr>
             in rbind (mappages pagetable 0 PGSIZE pg (PTE_W OR PTE_R OR PTE_X OR PTE_U) s)
                  (\<lambda>(_, s). Ok (s\<lparr>mem := store_bytes (mem s) pg src\<rparr>))))"

definition uvmdealloc :: "u64 \<Rightarrow> u64 \<Rightarrow> u64 \<Rightarrow> 'a phys_scheme \<Rightarrow> (u64 \<times> 'a phys_scheme) res" where
  "uvmdealloc pagetable oldsz newsz s =
     (if newsz \<ge> oldsz then Ok (oldsz, s)
      else rbind
        (if PGROUNDUP newsz < PGROUNDUP oldsz
         then uvmunmap pagetable (PGROUNDUP newsz)
                (scast (ucast ((PGROUNDUP oldsz - PGROUNDUP newsz) div PGSIZE) :: u32)) True s
         else Ok s)
        (\<lambda>s. Ok (newsz, s)))"

fun uvmalloc_loop ::
  "nat \<Rightarrow> u64 \<Rightarrow> u64 \<Rightarrow> u64 \<Rightarrow> u64 \<Rightarrow> u64 \<Rightarrow> 'a phys_scheme \<Rightarrow> (u64 \<times> 'a phys_scheme) res" where
  "uvmalloc_loop 0 pagetable a oldsz newsz xperm s = (if a < newsz then NoFuel else Ok (newsz, s))"
| "uvmalloc_loop (Suc fuel) pagetable a oldsz newsz xperm s =
     (if a < newsz
      then rbind (kalloc s) (\<lambda>(pg, s).
        if pg = 0 then rbind (uvmdealloc pagetable a oldsz s) (\<lambda>(_, s). Ok (0, s))
        else let s = s\<lparr>mem := memset (mem s) pg 0 4096\<rparr>
             in rbind (mappages pagetable a PGSIZE pg (PTE_R OR PTE_U OR xperm) s) (\<lambda>(r, s).
                  if r \<noteq> 0
                  then rbind (kfree pg s) (\<lambda>s.
                         rbind (uvmdealloc pagetable a oldsz s) (\<lambda>(_, s). Ok (0, s)))
                  else uvmalloc_loop fuel pagetable (a + PGSIZE) oldsz newsz xperm s))
      else Ok (newsz, s))"

text \<open>The loop starts at the rounded-up old size and advances a page at a time, so
  the number of pages up to \<open>newsz\<close>, rounded up, bounds it.\<close>

definition uvmalloc ::
  "u64 \<Rightarrow> u64 \<Rightarrow> u64 \<Rightarrow> u64 \<Rightarrow> 'a phys_scheme \<Rightarrow> (u64 \<times> 'a phys_scheme) res" where
  "uvmalloc pagetable oldsz newsz xperm s =
     (if newsz < oldsz then Ok (oldsz, s)
      else let oldsz = PGROUNDUP oldsz
           in uvmalloc_loop (unat newsz div 4096 + 1) pagetable oldsz oldsz newsz xperm s)"

text \<open>\<^verbatim>\<open>freewalk\<close>: the recursion goes down one level per call, so \<open>depth\<close> is the number
  of table levels; a deeper chain of table entries would exhaust it.\<close>

fun freewalk_entries ::
  "(u64 \<Rightarrow> 'a phys_scheme \<Rightarrow> 'a phys_scheme res) \<Rightarrow> u64 \<Rightarrow> nat list \<Rightarrow> 'a phys_scheme \<Rightarrow> 'a phys_scheme res"
where
  "freewalk_entries f pagetable [] s = Ok s"
| "freewalk_entries f pagetable (i # is) s =
     (let pte = load64 (mem s) (slot pagetable i)
      in if pte AND PTE_V \<noteq> 0 \<and> pte AND (PTE_R OR PTE_W OR PTE_X) = 0
         then rbind (f (PTE2PA pte) s) (\<lambda>s.
                freewalk_entries f pagetable is (s\<lparr>mem := store64 (mem s) (slot pagetable i) 0\<rparr>))
         else if pte AND PTE_V \<noteq> 0 then Panic ''freewalk: leaf''
         else freewalk_entries f pagetable is s)"

fun freewalk :: "nat \<Rightarrow> u64 \<Rightarrow> 'a phys_scheme \<Rightarrow> 'a phys_scheme res" where
  "freewalk 0 pagetable s = NoFuel"
| "freewalk (Suc depth) pagetable s =
     rbind (freewalk_entries (freewalk depth) pagetable [0..<512] s) (kfree pagetable)"

definition uvmfree :: "u64 \<Rightarrow> u64 \<Rightarrow> 'a phys_scheme \<Rightarrow> 'a phys_scheme res" where
  "uvmfree pagetable sz s =
     rbind (if sz > 0 then uvmunmap pagetable 0 (PGROUNDUP sz div PGSIZE) True s else Ok s)
       (freewalk 3 pagetable)"

fun uvmcopy_loop ::
  "nat \<Rightarrow> u64 \<Rightarrow> u64 \<Rightarrow> u64 \<Rightarrow> u64 \<Rightarrow> 'a phys_scheme \<Rightarrow> (int \<times> 'a phys_scheme) res" where
  "uvmcopy_loop 0 old new i sz s = (if i < sz then NoFuel else Ok (0, s))"
| "uvmcopy_loop (Suc fuel) old new i sz s =
     (if i < sz
      then rbind (walk old i False s) (\<lambda>(pte, s).
        if pte = 0 then Panic ''uvmcopy: pte should exist''
        else if load64 (mem s) pte AND PTE_V = 0 then Panic ''uvmcopy: page not present''
        else let pa = PTE2PA (load64 (mem s) pte); flags = PTE_FLAGS (load64 (mem s) pte)
             in rbind (kalloc s) (\<lambda>(pg, s).
                  if pg = 0
                  then rbind (uvmunmap new 0 (i div PGSIZE) True s) (\<lambda>s. Ok (-1, s))
                  else let s = s\<lparr>mem := memmove (mem s) pg pa 4096\<rparr>
                       in rbind (mappages new i PGSIZE pg flags s) (\<lambda>(r, s).
                            if r \<noteq> 0
                            then rbind (kfree pg s) (\<lambda>s.
                                   rbind (uvmunmap new 0 (i div PGSIZE) True s) (\<lambda>s. Ok (-1, s)))
                            else uvmcopy_loop fuel old new (i + PGSIZE) sz s)))
      else Ok (0, s))"

definition uvmcopy :: "u64 \<Rightarrow> u64 \<Rightarrow> u64 \<Rightarrow> 'a phys_scheme \<Rightarrow> (int \<times> 'a phys_scheme) res" where
  "uvmcopy old new sz s = uvmcopy_loop (unat sz div 4096 + 1) old new 0 sz s"

definition uvmclear :: "u64 \<Rightarrow> u64 \<Rightarrow> 'a phys_scheme \<Rightarrow> 'a phys_scheme res" where
  "uvmclear pagetable va s =
     rbind (walk pagetable va False s) (\<lambda>(pte, s).
       if pte = 0 then Panic ''uvmclear''
       else Ok (s\<lparr>mem := store64 (mem s) pte (load64 (mem s) pte AND NOT PTE_U)\<rparr>))"

section \<open>Copies between kernel and user memory\<close>

definition page_rest :: "u64 \<Rightarrow> nat \<Rightarrow> nat" where
  "page_rest va len = min (unat (PGSIZE - (va - PGROUNDDOWN va))) len"

lemma page_rest_le: "page_rest va len \<le> len"
  by (simp add: page_rest_def)

lemma unat_page_rest: "unat (PGSIZE - (va - PGROUNDDOWN va)) = 4096 - unat (va - PGROUNDDOWN va)"
  using page_offset_less [of va]
  by (simp add: PGSIZE_def unat_sub word_le_nat_alt)

lemma page_rest_pos [simp]: "0 < len \<Longrightarrow> 0 < page_rest va len"
  using page_offset_less [of va] by (simp add: page_rest_def unat_page_rest)

function copyout :: "u64 \<Rightarrow> u64 \<Rightarrow> u8 list \<Rightarrow> 'a phys_scheme \<Rightarrow> (int \<times> 'a phys_scheme) res" where
  "copyout pagetable dstva src s =
     (if src = [] then Ok (0, s)
      else let va0 = PGROUNDDOWN dstva
           in if va0 \<ge> MAXVA then Ok (-1, s)
              else rbind (walk pagetable va0 False s) (\<lambda>(pte, s).
                if pte = 0 \<or> load64 (mem s) pte AND PTE_V = 0 \<or> load64 (mem s) pte AND PTE_U = 0 \<or>
                   load64 (mem s) pte AND PTE_W = 0
                then Ok (-1, s)
                else let pa0 = PTE2PA (load64 (mem s) pte); n = page_rest dstva (length src)
                     in copyout pagetable (va0 + PGSIZE) (drop n src)
                          (s\<lparr>mem := store_bytes (mem s) (pa0 + (dstva - va0)) (take n src)\<rparr>)))"
  by pat_completeness auto
termination
  by (relation "measure (\<lambda>(pt, va, src, s). length src)") auto

function copyin :: "u64 \<Rightarrow> u64 \<Rightarrow> nat \<Rightarrow> 'a phys_scheme \<Rightarrow> (int \<times> u8 list) res" where
  "copyin pagetable srcva len s =
     (if len = 0 then Ok (0, [])
      else let va0 = PGROUNDDOWN srcva
           in rbind (walkaddr pagetable va0 s) (\<lambda>pa0.
                if pa0 = 0 then Ok (-1, [])
                else let n = page_rest srcva len;
                         bs = load_bytes (mem s) (pa0 + (srcva - va0)) n
                     in rbind (copyin pagetable (va0 + PGSIZE) (len - n) s)
                          (\<lambda>(r, rest). Ok (r, bs @ rest))))"
  by pat_completeness auto
termination
  by (relation "measure (\<lambda>(pt, va, len, s). len)") auto

text \<open>The bytes \<^verbatim>\<open>copyinstr\<close> takes from one page: up to the first NUL, which it keeps.\<close>

fun copystr_page :: "memory \<Rightarrow> u64 \<Rightarrow> nat \<Rightarrow> bool \<times> u8 list" where
  "copystr_page m p 0 = (False, [])"
| "copystr_page m p (Suc n) =
     (if m p = 0 then (True, [0])
      else let (got_null, bs) = copystr_page m (p + 1) n in (got_null, m p # bs))"

function copyinstr :: "u64 \<Rightarrow> u64 \<Rightarrow> nat \<Rightarrow> 'a phys_scheme \<Rightarrow> (int \<times> u8 list) res" where
  "copyinstr pagetable srcva mx s =
     (if mx = 0 then Ok (-1, [])
      else let va0 = PGROUNDDOWN srcva
           in rbind (walkaddr pagetable va0 s) (\<lambda>pa0.
                if pa0 = 0 then Ok (-1, [])
                else let n = page_rest srcva mx;
                         (got_null, bs) = copystr_page (mem s) (pa0 + (srcva - va0)) n
                     in if got_null then Ok (0, bs)
                        else rbind (copyinstr pagetable (va0 + PGSIZE) (mx - n) s)
                               (\<lambda>(r, rest). Ok (r, bs @ rest))))"
  by pat_completeness auto
termination
  by (relation "measure (\<lambda>(pt, va, mx, s). mx)") auto

declare copyout.simps [simp del] copyin.simps [simp del] copyinstr.simps [simp del]

end
