(* ===== verification/Strings.thy ===== *)
theory Strings
  imports Xv6_Prelude
begin

text \<open>
  The string routines of \<^verbatim>\<open>kernel/string.c\<close> on byte lists. A list stands for the
  bytes of a C string; past its end a NUL is read, so a list with no 0 in it is
  the string itself and a fixed-width array is the list of its bytes.
\<close>

type_synonym bytes = "u8 list"

definition ch :: "bytes \<Rightarrow> u8" where
  "ch p = (case p of [] \<Rightarrow> 0 | c # _ \<Rightarrow> c)"

lemma ch_simps [simp]: "ch [] = 0" "ch (c # p) = c"
  by (simp_all add: ch_def)

text \<open>The string a buffer holds: the bytes before the first NUL.\<close>

definition cstr :: "bytes \<Rightarrow> bytes" where
  "cstr p = takeWhile (\<lambda>c. c \<noteq> 0) p"

fun strlen :: "bytes \<Rightarrow> nat" where
  "strlen [] = 0"
| "strlen (c # s) = (if c = 0 then 0 else Suc (strlen s))"

fun strncmp :: "bytes \<Rightarrow> bytes \<Rightarrow> nat \<Rightarrow> int" where
  "strncmp p q 0 = 0"
| "strncmp p q (Suc n) =
     (if ch p \<noteq> 0 \<and> ch p = ch q then strncmp (tl p) (tl q) n else uint (ch p) - uint (ch q))"

text \<open>The bytes \<^verbatim>\<open>strncpy\<close> leaves in an array of \<open>n\<close> bytes.\<close>

fun strncpy :: "bytes \<Rightarrow> nat \<Rightarrow> bytes" where
  "strncpy t 0 = []"
| "strncpy t (Suc n) = (if ch t \<noteq> 0 then ch t # strncpy (tl t) n else 0 # replicate n 0)"

text \<open>The bytes \<^verbatim>\<open>safestrcpy\<close> writes, the final NUL included; it writes nothing when
  \<open>n \<le> 0\<close>.\<close>

fun safestrcpy_loop :: "bytes \<Rightarrow> nat \<Rightarrow> bytes" where
  "safestrcpy_loop t 0 = [0]"
| "safestrcpy_loop t (Suc n) = (if ch t \<noteq> 0 then ch t # safestrcpy_loop (tl t) n else [0, 0])"

definition safestrcpy :: "bytes \<Rightarrow> int \<Rightarrow> bytes" where
  "safestrcpy t n = (if n \<le> 0 then [] else safestrcpy_loop t (nat (n - 1)))"

section \<open>What they compute\<close>

lemma strlen_cstr: "strlen s = length (cstr s)"
  by (induction s) (auto simp: cstr_def)

lemma cstr_Cons: "cstr (c # s) = (if c = 0 then [] else c # cstr s)"
  by (simp add: cstr_def)

lemma cstr_Nil [simp]: "cstr [] = []"
  by (simp add: cstr_def)

lemma ch_zero_iff: "ch p = 0 \<longleftrightarrow> cstr p = []"
  by (cases p) (auto simp: cstr_Cons)

lemma cstr_ch: "ch p \<noteq> 0 \<Longrightarrow> cstr p = ch p # cstr (tl p)"
  by (cases p) (auto simp: cstr_Cons)

lemma strncmp_eq_0_iff: "strncmp p q n = 0 \<longleftrightarrow> take n (cstr p) = take n (cstr q)"
proof (induction n arbitrary: p q)
  case (Suc n)
  show ?case
  proof (cases "ch p = 0 \<or> ch q = 0")
    case True
    have u: "uint a - uint b = 0 \<longleftrightarrow> a = b" for a b :: u8 by (simp add: word_uint_eq_iff)
    have "strncmp p q (Suc n) = 0 \<longleftrightarrow> ch p = ch q" using True u by auto
    moreover have "take (Suc n) (cstr p) = take (Suc n) (cstr q) \<longleftrightarrow> ch p = ch q"
      using True cstr_ch [of p] cstr_ch [of q] ch_zero_iff [of p] ch_zero_iff [of q]
      by (cases "ch p = 0"; cases "ch q = 0") auto
    ultimately show ?thesis by simp
  next
    case False
    with Suc show ?thesis by (auto simp: cstr_ch dest: word_uint_eq_iff [THEN iffD2])
  qed
qed simp

lemma length_strncpy [simp]: "length (strncpy t n) = n"
  by (induction n arbitrary: t) auto

lemma cstr_zeros [simp]: "cstr (replicate n 0) = []"
  by (cases n) (auto simp: cstr_Cons)

lemma strncpy_cstr: "cstr (strncpy t n) = take n (cstr t)"
proof (induction n arbitrary: t)
  case (Suc n)
  then show ?case
    by (cases "ch t = 0") (auto simp: cstr_Cons cstr_ch ch_zero_iff)
qed simp

lemma cstr_idem [simp]: "cstr (cstr t) = cstr t"
  by (simp add: cstr_def)

lemma safestrcpy_loop_cstr: "cstr (safestrcpy_loop t n) = take n (cstr t)"
proof (induction n arbitrary: t)
  case (Suc n)
  then show ?case
    by (cases "ch t = 0") (auto simp: cstr_Cons cstr_ch ch_zero_iff)
qed (simp add: cstr_Cons)

lemma safestrcpy_cstr: "0 < n \<Longrightarrow> cstr (safestrcpy t n) = take (nat (n - 1)) (cstr t)"
  by (simp add: safestrcpy_def safestrcpy_loop_cstr)

text \<open>The terminator always fits.\<close>

lemma safestrcpy_bounds:
  assumes "0 < n"
  shows "0 \<in> set (safestrcpy t n)" "length (safestrcpy t n) \<le> nat n"
proof -
  have "0 \<in> set (safestrcpy_loop t k) \<and> length (safestrcpy_loop t k) \<le> Suc k" for k
    by (induction k arbitrary: t) auto
  from this [of "nat (n - 1)"] assms
  show "0 \<in> set (safestrcpy t n)" "length (safestrcpy t n) \<le> nat n"
    by (auto simp: safestrcpy_def Suc_nat_eq_nat_zadd1)
qed

end
