(* ===== verification/Proc.thy ===== *)
theory Proc
  imports Vm Strings
begin

text \<open>
  Processes (\<^verbatim>\<open>kernel/proc.c\<close>, \<^verbatim>\<open>kernel/proc.h\<close>): the process table, allocation and
  release of slots, the three scheduling policies, sleep and wakeup, wait and
  its variant that reports times, kill, and the process listing. A process is
  named by its index in the table; \<open>None\<close> is the null pointer. \<^verbatim>\<open>fork\<close>, \<^verbatim>\<open>exit\<close> and
  \<^verbatim>\<open>userinit\<close> also use the file system and are in a later theory.

  The trapframe page of a process is kept as a typed store indexed by the page's
  address. C \<^verbatim>\<open>int\<close>s that are only copied and compared are \<open>int\<close>; the tick counters
  are 32-bit words, since the code subtracts them.
\<close>

section \<open>Data\<close>

definition NPROC :: nat where [xv6_consts]: "NPROC = 64"
definition NOFILE :: nat where [xv6_consts]: "NOFILE = 16"

datatype procstate = UNUSED | USED | SLEEPING | RUNNABLE | RUNNING | ZOMBIE

definition SCHED_ROUND_ROBIN :: int where "SCHED_ROUND_ROBIN = 0"
definition SCHED_FCFS :: int where "SCHED_FCFS = 1"
definition SCHED_PRIORITY :: int where "SCHED_PRIORITY = 2"

lemmas sched_modes = SCHED_ROUND_ROBIN_def SCHED_FCFS_def SCHED_PRIORITY_def

record kcontext =
  cx_ra :: u64
  cx_sp :: u64
  cx_s :: "u64 list"

text \<open>\<open>tf_regs\<close> holds the registers from \<^verbatim>\<open>ra\<close> to \<^verbatim>\<open>t6\<close> that the kernel only saves and
  restores; the ones it reads or writes have a field.\<close>

record trapframe =
  tf_kernel_satp :: u64
  tf_kernel_sp :: u64
  tf_kernel_trap :: u64
  tf_epc :: u64
  tf_kernel_hartid :: u64
  tf_sp :: u64
  tf_a :: "u64 list"
  tf_regs :: "u64 list"

record proc =
  pstate :: procstate
  pchan :: "chan option"
  pkilled :: int
  xstate :: int
  pid :: int
  priority :: int
  parent :: "nat option"
  kstack :: u64
  sz :: u64
  pagetable :: u64
  trapframe :: u64
  pcontext :: kcontext
  ofile :: "nat option list"
  cwd :: "nat option"
  pname :: bytes
  creation_time :: u32
  run_time :: u32
  finish_time :: u32
  turnaround_time :: u32
  waiting_time :: u32

text \<open>The globals of \<^verbatim>\<open>proc.c\<close> and \<^verbatim>\<open>trap.c\<close>, and the process on the running CPU.
  \<open>trampoline\<close>, \<open>etext\<close> and \<open>forkret_pc\<close> are addresses the linker fixes.\<close>

record pst = phys +
  procs :: "proc list"
  initproc :: "nat option"
  nextpid :: int
  curproc :: "nat option"
  ticks :: u32
  sched_mode :: int
  tframes :: "u64 \<Rightarrow> trapframe"
  trampoline :: u64
  etext :: u64
  forkret_pc :: u64
  kernel_pagetable :: u64

definition pr :: "'a pst_scheme \<Rightarrow> nat \<Rightarrow> proc" where
  "pr s i = procs s ! i"

definition upd_proc :: "nat \<Rightarrow> (proc \<Rightarrow> proc) \<Rightarrow> 'a pst_scheme \<Rightarrow> 'a pst_scheme" where
  "upd_proc i f s = s\<lparr>procs := (procs s)[i := f (procs s ! i)]\<rparr>"

text \<open>\<^verbatim>\<open>myproc\<close>; its \<^verbatim>\<open>push_off\<close>/\<^verbatim>\<open>pop_off\<close> pair leaves the nesting depth as it was. Using
  the result when there is no process is a fault.\<close>

definition myproc :: "'a pst_scheme \<Rightarrow> nat option" where
  "myproc s = curproc s"

definition with_proc :: "'a pst_scheme \<Rightarrow> (nat \<Rightarrow> 'b res) \<Rightarrow> 'b res" where
  "with_proc s f = (case myproc s of None \<Rightarrow> Panic ''kerneltrap'' | Some p \<Rightarrow> f p)"

section \<open>Boot\<close>

fun proc_mapstacks_loop :: "u64 \<Rightarrow> nat list \<Rightarrow> 'a pst_scheme \<Rightarrow> 'a pst_scheme res" where
  "proc_mapstacks_loop kpgtbl [] s = Ok s"
| "proc_mapstacks_loop kpgtbl (i # is) s =
     rbind (kalloc s) (\<lambda>(pa, s).
       if pa = 0 then Panic ''kalloc''
       else rbind (kvmmap kpgtbl (KSTACK i) pa PGSIZE (PTE_R OR PTE_W) s)
              (\<lambda>s. proc_mapstacks_loop kpgtbl is s))"

definition proc_mapstacks :: "u64 \<Rightarrow> 'a pst_scheme \<Rightarrow> 'a pst_scheme res" where
  "proc_mapstacks kpgtbl s = proc_mapstacks_loop kpgtbl [0..<NPROC] s"

definition UART0 :: u64 where "UART0 = 0x10000000"
definition VIRTIO0 :: u64 where "VIRTIO0 = 0x10001000"
definition PLIC :: u64 where "PLIC = 0x0c000000"
definition CLINT :: u64 where "CLINT = 0x2000000"

definition kvmmake :: "'a pst_scheme \<Rightarrow> (u64 \<times> 'a pst_scheme) res" where
  "kvmmake s =
     rbind (kalloc s) (\<lambda>(kpgtbl, s).
     if kpgtbl = 0 then Panic ''kerneltrap'' else
     let s = s\<lparr>mem := memset (mem s) kpgtbl 0 4096\<rparr> in
     rbind (kvmmap kpgtbl UART0 UART0 PGSIZE (PTE_R OR PTE_W) s) (\<lambda>s.
     rbind (kvmmap kpgtbl 0x100000 0x100000 PGSIZE (PTE_R OR PTE_W) s) (\<lambda>s.
     rbind (kvmmap kpgtbl VIRTIO0 VIRTIO0 PGSIZE (PTE_R OR PTE_W) s) (\<lambda>s.
     rbind (kvmmap kpgtbl CLINT CLINT 0x10000 (PTE_R OR PTE_W) s) (\<lambda>s.
     rbind (kvmmap kpgtbl PLIC PLIC 0x4000000 (PTE_R OR PTE_W) s) (\<lambda>s.
     rbind (kvmmap kpgtbl KERNBASE KERNBASE (etext s - KERNBASE) (PTE_R OR PTE_X) s) (\<lambda>s.
     rbind (kvmmap kpgtbl (etext s) (etext s) (PHYSTOP - etext s) (PTE_R OR PTE_W) s) (\<lambda>s.
     rbind (kvmmap kpgtbl TRAMPOLINE (trampoline s) PGSIZE (PTE_R OR PTE_X) s) (\<lambda>s.
     rbind (proc_mapstacks kpgtbl s) (\<lambda>s. Ok (kpgtbl, s)))))))))))"

definition kvminit :: "'a pst_scheme \<Rightarrow> 'a pst_scheme res" where
  "kvminit s = rbind (kvmmake s) (\<lambda>(kpgtbl, s). Ok (s\<lparr>kernel_pagetable := kpgtbl\<rparr>))"

fun procinit_loop :: "nat list \<Rightarrow> 'a pst_scheme \<Rightarrow> 'a pst_scheme" where
  "procinit_loop [] s = s"
| "procinit_loop (i # is) s =
     procinit_loop is (upd_proc i (\<lambda>p. p\<lparr>pstate := UNUSED, kstack := KSTACK i\<rparr>) s)"

definition procinit :: "'a pst_scheme \<Rightarrow> 'a pst_scheme" where
  "procinit s = procinit_loop [0..<NPROC] s"

section \<open>Slots\<close>

definition allocpid :: "'a pst_scheme \<Rightarrow> (int \<times> 'a pst_scheme) res" where
  "allocpid s =
     rbind (acquire L_pid s) (\<lambda>s.
       let pd = nextpid s; s = s\<lparr>nextpid := nextpid s + 1\<rparr>
       in rbind (release L_pid s) (\<lambda>s. Ok (pd, s)))"

definition proc_pagetable :: "nat \<Rightarrow> 'a pst_scheme \<Rightarrow> (u64 \<times> 'a pst_scheme) res" where
  "proc_pagetable p s =
     rbind (uvmcreate s) (\<lambda>(pt, s).
       if pt = 0 then Ok (0, s)
       else rbind (mappages pt TRAMPOLINE PGSIZE (trampoline s) (PTE_R OR PTE_X) s) (\<lambda>(r, s).
         if r < 0 then rbind (uvmfree pt 0 s) (\<lambda>s. Ok (0, s))
         else rbind (mappages pt TRAPFRAME PGSIZE (trapframe (pr s p)) (PTE_R OR PTE_W) s) (\<lambda>(r, s).
           if r < 0
           then rbind (uvmunmap pt TRAMPOLINE 1 False s) (\<lambda>s.
                  rbind (uvmfree pt 0 s) (\<lambda>s. Ok (0, s)))
           else Ok (pt, s))))"

definition proc_freepagetable :: "u64 \<Rightarrow> u64 \<Rightarrow> 'a phys_scheme \<Rightarrow> 'a phys_scheme res" where
  "proc_freepagetable pt nsz s =
     rbind (uvmunmap pt TRAMPOLINE 1 False s) (\<lambda>s.
       rbind (uvmunmap pt TRAPFRAME 1 False s) (\<lambda>s. uvmfree pt nsz s))"

definition freeproc :: "nat \<Rightarrow> 'a pst_scheme \<Rightarrow> 'a pst_scheme res" where
  "freeproc p s =
     rbind (if trapframe (pr s p) \<noteq> 0 then kfree (trapframe (pr s p)) s else Ok s) (\<lambda>s.
     let s = upd_proc p (\<lambda>q. q\<lparr>trapframe := 0\<rparr>) s in
     rbind (if pagetable (pr s p) \<noteq> 0
            then proc_freepagetable (pagetable (pr s p)) (sz (pr s p)) s else Ok s) (\<lambda>s.
     Ok (upd_proc p (\<lambda>q. q\<lparr>pagetable := 0, sz := 0, pid := 0, parent := None, pname := [],
           pchan := None, pkilled := 0, xstate := 0, creation_time := ticks s, run_time := 0,
           turnaround_time := 0, waiting_time := 0, finish_time := 0, pstate := UNUSED\<rparr>) s)))"

fun allocproc_scan :: "nat list \<Rightarrow> 'a pst_scheme \<Rightarrow> (nat option \<times> 'a pst_scheme) res" where
  "allocproc_scan [] s = Ok (None, s)"
| "allocproc_scan (i # is) s =
     rbind (acquire (L_proc i) s) (\<lambda>s.
       if pstate (pr s i) = UNUSED then Ok (Some i, s)
       else rbind (release (L_proc i) s) (\<lambda>s. allocproc_scan is s))"

text \<open>The registers of a fresh trapframe page: \<^verbatim>\<open>kalloc\<close> fills it with the byte 5.\<close>

definition tf_junk :: trapframe where
  "tf_junk = (let w = 0x0505050505050505 in
     \<lparr>tf_kernel_satp = w, tf_kernel_sp = w, tf_kernel_trap = w, tf_epc = w, tf_kernel_hartid = w,
      tf_sp = w, tf_a = replicate 8 w, tf_regs = replicate 22 w\<rparr>)"

definition allocproc_found :: "nat \<Rightarrow> 'a pst_scheme \<Rightarrow> (nat option \<times> 'a pst_scheme) res" where
  "allocproc_found p s =
     rbind (allocpid s) (\<lambda>(n, s).
     let s = upd_proc p (\<lambda>q. q\<lparr>pid := n, pstate := USED\<rparr>) s in
     rbind (kalloc s) (\<lambda>(tf, s).
     let s = upd_proc p (\<lambda>q. q\<lparr>trapframe := tf\<rparr>) s in
     if tf = 0
     then rbind (freeproc p s) (\<lambda>s. rbind (release (L_proc p) s) (\<lambda>s. Ok (None, s)))
     else
     let s = s\<lparr>tframes := (tframes s)(tf := tf_junk)\<rparr> in
     rbind (proc_pagetable p s) (\<lambda>(pt, s).
     let s = upd_proc p (\<lambda>q. q\<lparr>pagetable := pt\<rparr>) s in
     if pt = 0
     then rbind (freeproc p s) (\<lambda>s. rbind (release (L_proc p) s) (\<lambda>s. Ok (None, s)))
     else
     Ok (Some p,
       upd_proc p (\<lambda>q. q\<lparr>
         pcontext := \<lparr>cx_ra = forkret_pc s, cx_sp = kstack q + PGSIZE, cx_s = replicate 12 0\<rparr>,
         creation_time := ticks s, run_time := 0,
         priority := (if pid q mod 2 \<noteq> 0 then 10 else 5),
         turnaround_time := 0, waiting_time := 0, finish_time := 0\<rparr>) s))))"

definition allocproc :: "'a pst_scheme \<Rightarrow> (nat option \<times> 'a pst_scheme) res" where
  "allocproc s =
     rbind (allocproc_scan [0..<NPROC] s) (\<lambda>(r, s).
       case r of None \<Rightarrow> Ok (None, s) | Some p \<Rightarrow> allocproc_found p s)"

definition growproc :: "int \<Rightarrow> 'a pst_scheme \<Rightarrow> (int \<times> 'a pst_scheme) res" where
  "growproc n s = with_proc s (\<lambda>p.
     let nsz = sz (pr s p) in
     if n > 0
     then rbind (uvmalloc (pagetable (pr s p)) nsz (nsz + of_int n) PTE_W s) (\<lambda>(nsz, s).
            if nsz = 0 then Ok (-1, s) else Ok (0, upd_proc p (\<lambda>q. q\<lparr>sz := nsz\<rparr>) s))
     else if n < 0
     then rbind (uvmdealloc (pagetable (pr s p)) nsz (nsz + of_int n) s) (\<lambda>(nsz, s).
            Ok (0, upd_proc p (\<lambda>q. q\<lparr>sz := nsz\<rparr>) s))
     else Ok (0, upd_proc p (\<lambda>q. q\<lparr>sz := nsz\<rparr>) s))"

section \<open>Sleep and wakeup\<close>

fun wakeup_loop :: "chan \<Rightarrow> nat list \<Rightarrow> 'a pst_scheme \<Rightarrow> 'a pst_scheme res" where
  "wakeup_loop c [] s = Ok s"
| "wakeup_loop c (i # is) s =
     (if myproc s \<noteq> Some i
      then rbind (acquire (L_proc i) s) (\<lambda>s.
             let s = (if pstate (pr s i) = SLEEPING \<and> pchan (pr s i) = Some c
                      then upd_proc i (\<lambda>q. q\<lparr>pstate := RUNNABLE\<rparr>) s else s)
             in rbind (release (L_proc i) s) (\<lambda>s. wakeup_loop c is s))
      else wakeup_loop c is s)"

definition wakeup :: "chan \<Rightarrow> 'a pst_scheme \<Rightarrow> 'a pst_scheme res" where
  "wakeup c s = wakeup_loop c [0..<NPROC] s"

text \<open>\<^verbatim>\<open>sched\<close> up to the context switch: its four checks. \<^verbatim>\<open>noff\<close> is the number of locks
  held, and interrupts are off while it is positive.\<close>

definition sched_check :: "'a pst_scheme \<Rightarrow> unit res" where
  "sched_check s = with_proc s (\<lambda>p.
     if L_proc p \<notin> set (held s) then Panic ''sched p->lock''
     else if length (held s) \<noteq> 1 then Panic ''sched locks''
     else if pstate (pr s p) = RUNNING then Panic ''sched running''
     else Ok ())"

text \<open>\<open>sleep_enter\<close> is \<^verbatim>\<open>sleep\<close> up to the switch to the scheduler, which releases the
  process lock; \<open>sleep_leave\<close> is the rest, run when the process is scheduled
  again, with the process lock held. In the view of one thread the call blocks.\<close>

definition sleep_enter :: "chan \<Rightarrow> lockid \<Rightarrow> 'a pst_scheme \<Rightarrow> 'a pst_scheme res" where
  "sleep_enter c lk s = with_proc s (\<lambda>p.
     rbind (acquire (L_proc p) s) (\<lambda>s.
     rbind (release lk s) (\<lambda>s.
     let s = upd_proc p (\<lambda>q. q\<lparr>pchan := Some c, pstate := SLEEPING\<rparr>) s
     in rbind (sched_check s) (\<lambda>_. Ok s))))"

definition sleep_leave :: "lockid \<Rightarrow> 'a pst_scheme \<Rightarrow> 'a pst_scheme res" where
  "sleep_leave lk s = with_proc s (\<lambda>p.
     let s = upd_proc p (\<lambda>q. q\<lparr>pchan := None\<rparr>) s
     in rbind (release (L_proc p) s) (\<lambda>s. acquire lk s))"

definition sleep :: "chan \<Rightarrow> lockid \<Rightarrow> 'a pst_scheme \<Rightarrow> 'b res" where
  "sleep c lk s = rbind (sleep_enter c lk s) (\<lambda>_. Block c)"

definition yield_enter :: "'a pst_scheme \<Rightarrow> 'a pst_scheme res" where
  "yield_enter s = with_proc s (\<lambda>p.
     rbind (acquire (L_proc p) s) (\<lambda>s.
     let s = upd_proc p (\<lambda>q. q\<lparr>pstate := RUNNABLE\<rparr>) s
     in rbind (sched_check s) (\<lambda>_. Ok s)))"

definition yield_leave :: "'a pst_scheme \<Rightarrow> 'a pst_scheme res" where
  "yield_leave s = with_proc s (\<lambda>p. release (L_proc p) s)"

section \<open>Scheduling\<close>

fun update_time_loop :: "nat list \<Rightarrow> 'a pst_scheme \<Rightarrow> 'a pst_scheme res" where
  "update_time_loop [] s = Ok s"
| "update_time_loop (i # is) s =
     rbind (acquire (L_proc i) s) (\<lambda>s.
       let s = (if pstate (pr s i) = RUNNING
                then upd_proc i (\<lambda>q. q\<lparr>run_time := run_time q + 1\<rparr>) s else s)
       in rbind (release (L_proc i) s) (\<lambda>s. update_time_loop is s))"

definition update_time :: "'a pst_scheme \<Rightarrow> 'a pst_scheme res" where
  "update_time s = update_time_loop [0..<NPROC] s"

fun choose_rr :: "nat list \<Rightarrow> 'a pst_scheme \<Rightarrow> nat option" where
  "choose_rr [] s = None"
| "choose_rr (i # is) s = (if pstate (pr s i) = RUNNABLE then Some i else choose_rr is s)"

fun choose_fcfs :: "nat list \<Rightarrow> nat option \<Rightarrow> 'a pst_scheme \<Rightarrow> (nat option \<times> 'a pst_scheme) res" where
  "choose_fcfs [] min_proc s =
     (case min_proc of None \<Rightarrow> Ok (None, s)
      | Some q \<Rightarrow> rbind (release (L_proc q) s) (\<lambda>s. Ok (Some q, s)))"
| "choose_fcfs (i # is) min_proc s =
     rbind (acquire (L_proc i) s) (\<lambda>s.
       if pstate (pr s i) = RUNNABLE \<and>
          (case min_proc of None \<Rightarrow> True | Some q \<Rightarrow> creation_time (pr s i) < creation_time (pr s q))
       then rbind (case min_proc of None \<Rightarrow> Ok s | Some q \<Rightarrow> release (L_proc q) s)
              (\<lambda>s. choose_fcfs is (Some i) s)
       else rbind (release (L_proc i) s) (\<lambda>s. choose_fcfs is min_proc s))"

fun choose_max_prio :: "nat list \<Rightarrow> int \<Rightarrow> 'a pst_scheme \<Rightarrow> (int \<times> 'a pst_scheme) res" where
  "choose_max_prio [] max_prio s = Ok (max_prio, s)"
| "choose_max_prio (i # is) max_prio s =
     rbind (acquire (L_proc i) s) (\<lambda>s.
       let max_prio = (if pstate (pr s i) = RUNNABLE \<and> priority (pr s i) > max_prio
                       then priority (pr s i) else max_prio)
       in rbind (release (L_proc i) s) (\<lambda>s. choose_max_prio is max_prio s))"

fun choose_prio :: "nat list \<Rightarrow> int \<Rightarrow> 'a pst_scheme \<Rightarrow> (nat option \<times> 'a pst_scheme) res" where
  "choose_prio [] max_prio s = Ok (None, s)"
| "choose_prio (i # is) max_prio s =
     rbind (acquire (L_proc i) s) (\<lambda>s.
       if pstate (pr s i) = RUNNABLE \<and> priority (pr s i) = max_prio
       then rbind (release (L_proc i) s) (\<lambda>s. Ok (Some i, s))
       else rbind (release (L_proc i) s) (\<lambda>s. choose_prio is max_prio s))"

definition choose_next_process :: "'a pst_scheme \<Rightarrow> (nat option \<times> 'a pst_scheme) res" where
  "choose_next_process s =
     (if sched_mode s = SCHED_ROUND_ROBIN then Ok (choose_rr [0..<NPROC] s, s)
      else if sched_mode s = SCHED_FCFS then choose_fcfs [0..<NPROC] None s
      else if sched_mode s = SCHED_PRIORITY
      then rbind (choose_max_prio [0..<NPROC] (-1) s) (\<lambda>(max_prio, s).
             if max_prio = -1 then Ok (None, s) else choose_prio [0..<NPROC] max_prio s)
      else Ok (None, s))"

text \<open>One round of \<^verbatim>\<open>scheduler\<close>: \<open>scheduler_enter\<close> runs up to the switch to the chosen
  process, whose lock it holds then, and \<open>scheduler_leave\<close> from the switch back.
  The result of \<open>scheduler_enter\<close> is the process switched to; on \<open>None\<close> the CPU
  waits for an interrupt.\<close>

definition scheduler_enter :: "'a pst_scheme \<Rightarrow> (nat option \<times> 'a pst_scheme) res" where
  "scheduler_enter s =
     rbind (choose_next_process s) (\<lambda>(r, s).
       case r of None \<Rightarrow> Ok (None, s)
       | Some p \<Rightarrow> rbind (acquire (L_proc p) s) (\<lambda>s.
           if pstate (pr s p) = RUNNABLE
           then Ok (Some p, (upd_proc p (\<lambda>q. q\<lparr>pstate := RUNNING\<rparr>) s)\<lparr>curproc := Some p\<rparr>)
           else rbind (release (L_proc p) s) (\<lambda>s. Ok (None, s))))"

definition scheduler_leave :: "nat \<Rightarrow> 'a pst_scheme \<Rightarrow> 'a pst_scheme res" where
  "scheduler_leave p s = release (L_proc p) (s\<lparr>curproc := None\<rparr>)"

section \<open>Kill and wait\<close>

fun kill_loop :: "int \<Rightarrow> nat list \<Rightarrow> 'a pst_scheme \<Rightarrow> (int \<times> 'a pst_scheme) res" where
  "kill_loop n [] s = Ok (-1, s)"
| "kill_loop n (i # is) s =
     rbind (acquire (L_proc i) s) (\<lambda>s.
       if pid (pr s i) = n
       then let s = upd_proc i (\<lambda>q. q\<lparr>pkilled := 1,
                      pstate := (if pstate q = SLEEPING then RUNNABLE else pstate q)\<rparr>) s
            in rbind (release (L_proc i) s) (\<lambda>s. Ok (0, s))
       else rbind (release (L_proc i) s) (\<lambda>s. kill_loop n is s))"

definition kill :: "int \<Rightarrow> 'a pst_scheme \<Rightarrow> (int \<times> 'a pst_scheme) res" where
  "kill n s = kill_loop n [0..<NPROC] s"

definition setkilled :: "nat \<Rightarrow> 'a pst_scheme \<Rightarrow> 'a pst_scheme res" where
  "setkilled p s =
     rbind (acquire (L_proc p) s) (\<lambda>s.
       release (L_proc p) (upd_proc p (\<lambda>q. q\<lparr>pkilled := 1\<rparr>) s))"

definition killed :: "nat \<Rightarrow> 'a pst_scheme \<Rightarrow> (int \<times> 'a pst_scheme) res" where
  "killed p s =
     rbind (acquire (L_proc p) s) (\<lambda>s.
       let k = pkilled (pr s p) in rbind (release (L_proc p) s) (\<lambda>s. Ok (k, s)))"

text \<open>The result of one round of a loop that may sleep.\<close>

datatype 'r turn = Done 'r | Sleeping chan

definition i32_bytes :: "int \<Rightarrow> bytes" where
  "i32_bytes n = bytes_of 4 (of_int n :: u32)"

text \<open>\<^verbatim>\<open>copyout\<close> to an address the caller may leave 0.\<close>

definition copyout_opt :: "u64 \<Rightarrow> u64 \<Rightarrow> bytes \<Rightarrow> 'a phys_scheme \<Rightarrow> (int \<times> 'a phys_scheme) res" where
  "copyout_opt pt addr bs s = (if addr \<noteq> 0 then copyout pt addr bs s else Ok (0, s))"

definition release2 :: "lockid \<Rightarrow> lockid \<Rightarrow> 'r \<Rightarrow> 'a kst_scheme \<Rightarrow> ('r \<times> 'a kst_scheme) res" where
  "release2 a b r s = rbind (release a s) (\<lambda>s. rbind (release b s) (\<lambda>s. Ok (r, s)))"

text \<open>The scan of \<^verbatim>\<open>wait\<close>: \<open>Inl r\<close> is a return with both locks released, \<open>Inr\<close> the value
  of \<^verbatim>\<open>havekids\<close> at its end.\<close>

fun wait_scan ::
  "nat \<Rightarrow> u64 \<Rightarrow> nat list \<Rightarrow> bool \<Rightarrow> 'a pst_scheme \<Rightarrow> ((int + bool) \<times> 'a pst_scheme) res" where
  "wait_scan p addr [] havekids s = Ok (Inr havekids, s)"
| "wait_scan p addr (i # is) havekids s =
     (if parent (pr s i) = Some p
      then rbind (acquire (L_proc i) s) (\<lambda>s.
        if pstate (pr s i) = ZOMBIE
        then let n = pid (pr s i)
             in rbind (copyout_opt (pagetable (pr s p)) addr (i32_bytes (xstate (pr s i))) s) (\<lambda>(r, s).
                  if r < 0 then release2 (L_proc i) L_wait (Inl (-1)) s
                  else rbind (freeproc i s) (\<lambda>s. release2 (L_proc i) L_wait (Inl n) s))
        else rbind (release (L_proc i) s) (\<lambda>s. wait_scan p addr is True s))
      else wait_scan p addr is havekids s)"

definition wait_round :: "u64 \<Rightarrow> 'a pst_scheme \<Rightarrow> (int turn \<times> 'a pst_scheme) res" where
  "wait_round addr s = with_proc s (\<lambda>p.
     rbind (wait_scan p addr [0..<NPROC] False s) (\<lambda>(r, s).
       case r of Inl n \<Rightarrow> Ok (Done n, s)
       | Inr havekids \<Rightarrow>
           rbind (if \<not> havekids then Ok (1, s) else killed p s) (\<lambda>(k, s).
             if k \<noteq> 0 then rbind (release L_wait s) (\<lambda>s. Ok (Done (-1), s))
             else rbind (sleep_enter (Ch_proc p) L_wait s) (\<lambda>s. Ok (Sleeping (Ch_proc p), s)))))"

definition wait :: "u64 \<Rightarrow> 'a pst_scheme \<Rightarrow> (int turn \<times> 'a pst_scheme) res" where
  "wait addr s = rbind (acquire L_wait s) (wait_round addr)"

definition wait_resume :: "u64 \<Rightarrow> 'a pst_scheme \<Rightarrow> (int turn \<times> 'a pst_scheme) res" where
  "wait_resume addr s = rbind (sleep_leave L_wait s) (wait_round addr)"

text \<open>\<^verbatim>\<open>wait_sched\<close> also reports the child's times; it reads \<^verbatim>\<open>p->killed\<close> without the
  process lock.\<close>

fun wait_sched_scan ::
  "nat \<Rightarrow> u64 \<Rightarrow> u64 \<Rightarrow> u64 \<Rightarrow> nat list \<Rightarrow> bool \<Rightarrow> 'a pst_scheme \<Rightarrow> ((int + bool) \<times> 'a pst_scheme) res"
where
  "wait_sched_scan p addr addr_tt addr_wt [] havekids s = Ok (Inr havekids, s)"
| "wait_sched_scan p addr addr_tt addr_wt (i # is) havekids s =
     (if parent (pr s i) = Some p
      then rbind (acquire (L_proc i) s) (\<lambda>s.
        if pstate (pr s i) = ZOMBIE
        then let n = pid (pr s i); pt = pagetable (pr s p)
             in rbind (copyout_opt pt addr (i32_bytes (xstate (pr s i))) s) (\<lambda>(r, s).
                  if r < 0 then release2 (L_proc i) L_wait (Inl (-1)) s
                  else rbind (copyout_opt pt addr_tt (bytes_of 4 (turnaround_time (pr s i))) s) (\<lambda>(r, s).
                    if r < 0 then release2 (L_proc i) L_wait (Inl (-1)) s
                    else rbind (copyout_opt pt addr_wt (bytes_of 4 (waiting_time (pr s i))) s) (\<lambda>(r, s).
                      if r < 0 then release2 (L_proc i) L_wait (Inl (-1)) s
                      else rbind (freeproc i s) (\<lambda>s. release2 (L_proc i) L_wait (Inl n) s))))
        else rbind (release (L_proc i) s) (\<lambda>s. wait_sched_scan p addr addr_tt addr_wt is True s))
      else wait_sched_scan p addr addr_tt addr_wt is havekids s)"

definition wait_sched_round ::
  "u64 \<Rightarrow> u64 \<Rightarrow> u64 \<Rightarrow> 'a pst_scheme \<Rightarrow> (int turn \<times> 'a pst_scheme) res" where
  "wait_sched_round addr addr_tt addr_wt s = with_proc s (\<lambda>p.
     rbind (wait_sched_scan p addr addr_tt addr_wt [0..<NPROC] False s) (\<lambda>(r, s).
       case r of Inl n \<Rightarrow> Ok (Done n, s)
       | Inr havekids \<Rightarrow>
           if \<not> havekids \<or> pkilled (pr s p) \<noteq> 0
           then rbind (release L_wait s) (\<lambda>s. Ok (Done (-1), s))
           else rbind (sleep_enter (Ch_proc p) L_wait s) (\<lambda>s. Ok (Sleeping (Ch_proc p), s))))"

definition wait_sched ::
  "u64 \<Rightarrow> u64 \<Rightarrow> u64 \<Rightarrow> 'a pst_scheme \<Rightarrow> (int turn \<times> 'a pst_scheme) res" where
  "wait_sched addr addr_tt addr_wt s = rbind (acquire L_wait s) (wait_sched_round addr addr_tt addr_wt)"

fun reparent_loop :: "nat \<Rightarrow> nat list \<Rightarrow> 'a pst_scheme \<Rightarrow> 'a pst_scheme res" where
  "reparent_loop p [] s = Ok s"
| "reparent_loop p (i # is) s =
     (if parent (pr s i) = Some p
      then let s = upd_proc i (\<lambda>q. q\<lparr>parent := initproc s\<rparr>) s
           in rbind (case initproc s of None \<Rightarrow> Ok s | Some ip \<Rightarrow> wakeup (Ch_proc ip) s)
                (\<lambda>s. reparent_loop p is s)
      else reparent_loop p is s)"

definition reparent :: "nat \<Rightarrow> 'a pst_scheme \<Rightarrow> 'a pst_scheme res" where
  "reparent p s = reparent_loop p [0..<NPROC] s"

section \<open>Copies to user or kernel memory, and the process listing\<close>

definition either_copyout ::
  "bool \<Rightarrow> u64 \<Rightarrow> bytes \<Rightarrow> 'a pst_scheme \<Rightarrow> (int \<times> 'a pst_scheme) res" where
  "either_copyout user_dst dst src s = with_proc s (\<lambda>p.
     if user_dst then copyout (pagetable (pr s p)) dst src s
     else Ok (0, s\<lparr>mem := store_bytes (mem s) dst src\<rparr>))"

definition either_copyin ::
  "bool \<Rightarrow> u64 \<Rightarrow> nat \<Rightarrow> 'a pst_scheme \<Rightarrow> (int \<times> bytes) res" where
  "either_copyin user_src src len s = with_proc s (\<lambda>p.
     if user_src then copyin (pagetable (pr s p)) src len s
     else Ok (0, load_bytes (mem s) src len))"

definition procstate_num :: "procstate \<Rightarrow> int" where
  "procstate_num st = (case st of UNUSED \<Rightarrow> 0 | USED \<Rightarrow> 1 | SLEEPING \<Rightarrow> 2 | RUNNABLE \<Rightarrow> 3
     | RUNNING \<Rightarrow> 4 | ZOMBIE \<Rightarrow> 5)"

text \<open>A \<^verbatim>\<open>struct proc_info\<close> as it is copied out: 40 bytes, four of them padding, whose
  value the C code does not set (\<open>pad\<close>).\<close>

definition proc_info_bytes :: "bytes \<Rightarrow> 'a pst_scheme \<Rightarrow> nat \<Rightarrow> bytes" where
  "proc_info_bytes pad s i =
     (let p = pr s i in
      i32_bytes (pid p) @
      i32_bytes (case parent p of None \<Rightarrow> 0 | Some q \<Rightarrow> pid (pr s q)) @
      i32_bytes (procstate_num (pstate p)) @
      (strncpy (pname p) 16)[15 := 0] @ pad @ bytes_of 8 (sz p))"

fun getptable_loop ::
  "bytes \<Rightarrow> u64 \<Rightarrow> int \<Rightarrow> u64 \<Rightarrow> nat list \<Rightarrow> nat \<Rightarrow> 'a pst_scheme \<Rightarrow> (int \<times> 'a pst_scheme) res" where
  "getptable_loop pad pt nproc buffer [] count s = Ok (1, s)"
| "getptable_loop pad pt nproc buffer (i # is) count s =
     rbind (acquire (L_proc i) s) (\<lambda>s.
       if pstate (pr s i) \<noteq> UNUSED
       then if int count \<ge> nproc then rbind (release (L_proc i) s) (\<lambda>s. Ok (1, s))
            else rbind (copyout pt (buffer + of_nat (count * 40)) (proc_info_bytes pad s i) s) (\<lambda>(r, s).
                   if r < 0 then rbind (release (L_proc i) s) (\<lambda>s. Ok (0, s))
                   else rbind (release (L_proc i) s) (\<lambda>s.
                          getptable_loop pad pt nproc buffer is (Suc count) s))
       else rbind (release (L_proc i) s) (\<lambda>s. getptable_loop pad pt nproc buffer is count s))"

definition getptable :: "bytes \<Rightarrow> int \<Rightarrow> u64 \<Rightarrow> 'a pst_scheme \<Rightarrow> (int \<times> 'a pst_scheme) res" where
  "getptable pad nproc buffer s =
     (if nproc < 1 \<or> buffer = 0 then Ok (0, s)
      else with_proc s (\<lambda>p. getptable_loop pad (pagetable (pr s p)) nproc buffer [0..<NPROC] 0 s))"

end
