(* ===== verification/Sched.thy ===== *)
theory Sched
  imports Proc
begin

text \<open>
  Properties of the process table operations of \<^verbatim>\<open>Proc\<close> that run over the whole
  table: wakeup and the tick accounting as one update of every slot, and the
  three scheduling policies against the order each is meant to implement.
\<close>

section \<open>Sweeps over the table\<close>

definition unlocked :: "'a kst_scheme \<Rightarrow> bool" where
  "unlocked s \<longleftrightarrow> (\<forall>i. L_proc i \<notin> set (held s))"

definition table_ok :: "'a pst_scheme \<Rightarrow> bool" where
  "table_ok s \<longleftrightarrow> length (procs s) = NPROC \<and> unlocked s"

lemma upd_proc_simps [simp]:
  "held (upd_proc i f s) = held s" "curproc (upd_proc i f s) = curproc s"
  "length (procs (upd_proc i f s)) = length (procs s)" "ticks (upd_proc i f s) = ticks s"
  "mem (upd_proc i f s) = mem s" "freelist (upd_proc i f s) = freelist s" "kend (upd_proc i f s) = kend s"
  "nextpid (upd_proc i f s) = nextpid s" "sched_mode (upd_proc i f s) = sched_mode s"
  "initproc (upd_proc i f s) = initproc s" "tframes (upd_proc i f s) = tframes s"
  by (simp_all add: upd_proc_def)

lemma pr_upd_proc:
  "i < length (procs s) \<Longrightarrow> pr (upd_proc i f s) j = (if j = i then f (pr s i) else pr s j)"
  by (simp add: pr_def upd_proc_def)

lemma upd_proc_procs: "(upd_proc i f s)\<lparr>procs := ps\<rparr> = s\<lparr>procs := ps\<rparr>"
  by (simp add: upd_proc_def)

lemma pr_held [simp]: "pr (s\<lparr>held := h\<rparr>) i = pr s i"
  by (simp add: pr_def)

lemma unlockedD [simp]: "unlocked s \<Longrightarrow> L_proc i \<notin> set (held s)"
  by (simp add: unlocked_def)

text \<open>A loop that visits the slots in turn, each under its lock, and applies \<open>step\<close>.\<close>

locale proc_sweep =
  fixes loop :: "nat list \<Rightarrow> 'a pst_scheme \<Rightarrow> 'a pst_scheme res"
    and step :: "nat option \<Rightarrow> nat \<Rightarrow> proc \<Rightarrow> proc"
  assumes loop_Nil: "loop [] s = Ok s"
    and loop_Cons: "unlocked s \<Longrightarrow> loop (i # is) s = loop is (upd_proc i (step (curproc s) i) s)"
begin

lemma sweep_some:
  "unlocked s \<Longrightarrow> distinct is \<Longrightarrow> \<forall>i\<in>set is. i < length (procs s) \<Longrightarrow>
   loop is s = Ok (s\<lparr>procs := map (\<lambda>i. if i \<in> set is then step (curproc s) i (pr s i) else pr s i)
                                [0..<length (procs s)]\<rparr>)"
proof (induction "is" arbitrary: s)
  case Nil
  have "map (pr s) [0..<length (procs s)] = procs s"
    by (rule nth_equalityI) (simp_all add: pr_def)
  then show ?case by (simp add: loop_Nil)
next
  case (Cons i "is")
  let ?s = "upd_proc i (step (curproc s) i) s"
  have i: "i < length (procs s)" using Cons.prems by simp
  have u: "unlocked ?s" using Cons.prems(1) by (simp add: unlocked_def)
  have eq: "map (\<lambda>j. if j \<in> set is then step (curproc s) j (pr ?s j) else pr ?s j) [0..<length (procs s)] =
      map (\<lambda>j. if j \<in> set (i # is) then step (curproc s) j (pr s j) else pr s j) [0..<length (procs s)]"
    using Cons.prems(2) i by (auto simp: pr_upd_proc)
  have "loop is ?s = Ok (?s\<lparr>procs := map (\<lambda>j. if j \<in> set is then step (curproc ?s) j (pr ?s j) else pr ?s j)
      [0..<length (procs ?s)]\<rparr>)"
    by (rule Cons.IH [OF u]) (use Cons.prems in auto)
  then show ?case
    by (simp only: loop_Cons [OF Cons.prems(1)] upd_proc_simps upd_proc_procs eq)
qed

lemma sweep:
  assumes "table_ok s"
  shows "loop [0..<NPROC] s =
    Ok (s\<lparr>procs := map (\<lambda>i. step (curproc s) i (pr s i)) [0..<NPROC]\<rparr>)"
proof -
  have "loop [0..<NPROC] s = Ok (s\<lparr>procs := map (\<lambda>i. if i \<in> set [0..<NPROC]
      then step (curproc s) i (pr s i) else pr s i) [0..<length (procs s)]\<rparr>)"
    by (rule sweep_some) (use assms in \<open>simp_all add: table_ok_def\<close>)
  moreover have "map (\<lambda>i. if i \<in> set [0..<NPROC] then step (curproc s) i (pr s i) else pr s i) [0..<NPROC] =
      map (\<lambda>i. step (curproc s) i (pr s i)) [0..<NPROC]"
    by (rule map_cong) auto
  ultimately show ?thesis using assms by (simp add: table_ok_def)
qed

end

definition wake_step :: "chan \<Rightarrow> nat option \<Rightarrow> nat \<Rightarrow> proc \<Rightarrow> proc" where
  "wake_step c me i p =
     (if me \<noteq> Some i \<and> pstate p = SLEEPING \<and> pchan p = Some c then p\<lparr>pstate := RUNNABLE\<rparr> else p)"

definition tick_step :: "nat option \<Rightarrow> nat \<Rightarrow> proc \<Rightarrow> proc" where
  "tick_step me i p = (if pstate p = RUNNING then p\<lparr>run_time := run_time p + 1\<rparr> else p)"

lemma upd_proc_id: "f (pr s i) = pr s i \<Longrightarrow> upd_proc i f s = s"
  by (simp add: upd_proc_def pr_def)

lemma upd_proc_held: "(upd_proc i f (s\<lparr>held := h\<rparr>))\<lparr>held := h'\<rparr> = upd_proc i f (s\<lparr>held := h'\<rparr>)"
  by (simp add: upd_proc_def)

lemma upd_proc_cong: "f (pr s i) = g (pr s i) \<Longrightarrow> upd_proc i f s = upd_proc i g s"
  by (simp add: upd_proc_def pr_def)

lemma upd_proc_unlock: "(upd_proc i f (s\<lparr>held := h\<rparr>))\<lparr>held := held s\<rparr> = upd_proc i f s"
  by (simp add: upd_proc_def)

interpretation wakeup_sweep: proc_sweep "wakeup_loop c" "wake_step c" for c
proof unfold_locales
  fix s :: "'a pst_scheme" and i "is"
  show "wakeup_loop c [] s = Ok s" by simp
  assume u: "unlocked s"
  show "wakeup_loop c (i # is) s = wakeup_loop c is (upd_proc i (wake_step c (curproc s) i) s)"
  proof (cases "curproc s \<noteq> Some i \<and> pstate (pr s i) = SLEEPING \<and> pchan (pr s i) = Some c")
    case True
    then have "upd_proc i (wake_step c (curproc s) i) s = upd_proc i (\<lambda>q. q\<lparr>pstate := RUNNABLE\<rparr>) s"
      by (intro upd_proc_cong) (simp add: wake_step_def)
    with True u show ?thesis by (simp add: myproc_def upd_proc_unlock)
  next
    case False
    then have "upd_proc i (wake_step c (curproc s) i) s = s"
      by (intro upd_proc_id) (auto simp: wake_step_def)
    with False u show ?thesis by (auto simp: myproc_def)
  qed
qed

interpretation tick_sweep: proc_sweep update_time_loop tick_step
proof unfold_locales
  fix s :: "'a pst_scheme" and i "is"
  show "update_time_loop [] s = Ok s" by simp
  assume u: "unlocked s"
  show "update_time_loop (i # is) s = update_time_loop is (upd_proc i (tick_step (curproc s) i) s)"
  proof (cases "pstate (pr s i) = RUNNING")
    case True
    then have "upd_proc i (tick_step (curproc s) i) s = upd_proc i (\<lambda>q. q\<lparr>run_time := run_time q + 1\<rparr>) s"
      by (intro upd_proc_cong) (simp add: tick_step_def)
    with True u show ?thesis by (simp add: upd_proc_unlock)
  next
    case False
    then have "upd_proc i (tick_step (curproc s) i) s = s"
      by (intro upd_proc_id) (auto simp: tick_step_def)
    with False u show ?thesis by simp
  qed
qed

text \<open>C12. \<^verbatim>\<open>wakeup\<close> makes runnable exactly the processes other than the caller that sleep
  on the channel, and changes nothing else.\<close>

theorem wakeup_wakes:
  assumes "table_ok s"
  shows "wakeup c s =
    Ok (s\<lparr>procs := map (\<lambda>i. wake_step c (curproc s) i (pr s i)) [0..<NPROC]\<rparr>)"
  unfolding wakeup_def by (rule wakeup_sweep.sweep [OF assms])

lemma update_time_ticks:
  "table_ok s \<Longrightarrow> update_time s = Ok (s\<lparr>procs := map (\<lambda>i. tick_step (curproc s) i (pr s i)) [0..<NPROC]\<rparr>)"
  unfolding update_time_def by (rule tick_sweep.sweep)

section \<open>Scheduling policies\<close>

definition runnable :: "'a pst_scheme \<Rightarrow> nat \<Rightarrow> bool" where
  "runnable s i \<longleftrightarrow> i < NPROC \<and> pstate (pr s i) = RUNNABLE"

text \<open>What it means to choose the best runnable process, the first one of several.\<close>

definition picks :: "(proc \<Rightarrow> proc \<Rightarrow> bool) \<Rightarrow> 'a pst_scheme \<Rightarrow> nat option \<Rightarrow> bool" where
  "picks better s r \<longleftrightarrow>
     (case r of None \<Rightarrow> \<forall>i. \<not> runnable s i
      | Some p \<Rightarrow> runnable s p \<and> (\<forall>q. runnable s q \<longrightarrow> \<not> better (pr s q) (pr s p)) \<and>
                  (\<forall>q<p. runnable s q \<longrightarrow> better (pr s p) (pr s q)))"

lemma picks_unique: "picks better s r \<Longrightarrow> picks better s r' \<Longrightarrow> r = r'"
  unfolding picks_def by (auto split: option.splits) (metis linorder_neqE_nat)

locale sched_policy =
  fixes pick_next :: "'a pst_scheme \<Rightarrow> (nat option \<times> 'a pst_scheme) res"
    and better :: "proc \<Rightarrow> proc \<Rightarrow> bool"
    and ready :: "'a pst_scheme \<Rightarrow> bool"
  assumes choose_picks: "ready s \<Longrightarrow> \<exists>r. pick_next s = Ok (r, s) \<and> picks better s r"
begin

lemma never_idle:
  assumes "ready s" "runnable s i"
  shows "\<exists>p. pick_next s = Ok (Some p, s) \<and> runnable s p"
  using choose_picks [OF assms(1)] assms(2) by (auto simp: picks_def split: option.splits)

lemma choose_iff:
  assumes "ready s"
  shows "pick_next s = Ok (r, s) \<longleftrightarrow> picks better s r"
proof -
  obtain r' where r: "pick_next s = Ok (r', s)" "picks better s r'" using choose_picks [OF assms] by blast
  then have "pick_next s = Ok (r, s) \<longleftrightarrow> r = r'" by auto
  with r(2) picks_unique [OF _ r(2), of r] show ?thesis by blast
qed

lemma passed_over:
  assumes "ready s" "runnable s q" "q < p" "\<not> better (pr s p) (pr s q)"
  shows "pick_next s \<noteq> Ok (Some p, s)"
  unfolding choose_iff [OF assms(1)] using assms(2-4) by (auto simp: picks_def)

end

definition older :: "proc \<Rightarrow> proc \<Rightarrow> bool" where
  "older p q \<longleftrightarrow> creation_time p < creation_time q"

definition higher :: "proc \<Rightarrow> proc \<Rightarrow> bool" where
  "higher p q \<longleftrightarrow> priority p > priority q"

definition prio_ok :: "'a pst_scheme \<Rightarrow> bool" where
  "prio_ok s \<longleftrightarrow> (\<forall>i. runnable s i \<longrightarrow> 0 \<le> priority (pr s i))"

lemma choose_rr_first:
  "choose_rr is s = map_option ((!) is) (find_idx (\<lambda>i. pstate (pr s i) = RUNNABLE) is)"
  by (induction "is") (auto simp: map_option.compositionality o_def)

lemma find_idx_upt:
  "map_option ((!) [0..<n]) (find_idx P [0..<n]) = Some p \<longleftrightarrow> p < n \<and> P p \<and> (\<forall>q<p. \<not> P q)"
  "map_option ((!) [0..<n]) (find_idx P [0..<n]) = None \<longleftrightarrow> (\<forall>p<n. \<not> P p)"
proof -
  show "map_option ((!) [0..<n]) (find_idx P [0..<n]) = Some p \<longleftrightarrow> p < n \<and> P p \<and> (\<forall>q<p. \<not> P q)"
  proof
    assume "map_option ((!) [0..<n]) (find_idx P [0..<n]) = Some p"
    then show "p < n \<and> P p \<and> (\<forall>q<p. \<not> P q)" by (auto dest!: find_idx_SomeD)
  next
    assume "p < n \<and> P p \<and> (\<forall>q<p. \<not> P q)"
    then have "find_idx P [0..<n] = Some p" by (intro find_idx_SomeI) auto
    with \<open>p < n \<and> P p \<and> (\<forall>q<p. \<not> P q)\<close> show "map_option ((!) [0..<n]) (find_idx P [0..<n]) = Some p" by simp
  qed
  show "map_option ((!) [0..<n]) (find_idx P [0..<n]) = None \<longleftrightarrow> (\<forall>p<n. \<not> P p)"
    by (auto simp: find_idx_None_iff)
qed

interpretation rr: sched_policy "\<lambda>s. Ok (choose_rr [0..<NPROC] s, s)" "\<lambda>_ _. False" "\<lambda>_. True"
proof unfold_locales
  fix s :: "'a pst_scheme"
  show "\<exists>r. Ok (choose_rr [0..<NPROC] s, s) = Ok (r, s) \<and> picks (\<lambda>_ _. False) s r"
  proof (cases "choose_rr [0..<NPROC] s")
    case None
    then have "\<forall>i<NPROC. pstate (pr s i) \<noteq> RUNNABLE" by (auto simp: choose_rr_first find_idx_None_iff)
    with None show ?thesis by (simp add: picks_def runnable_def)
  next
    case (Some p)
    then have "p < NPROC \<and> pstate (pr s p) = RUNNABLE \<and> (\<forall>q<p. pstate (pr s q) \<noteq> RUNNABLE)"
      unfolding choose_rr_first find_idx_upt .
    with Some show ?thesis by (simp add: picks_def runnable_def)
  qed
qed

text \<open>The FCFS loop keeps the lock of its candidate.\<close>

lemma choose_fcfs_Some:
  assumes "held s = L_proc q # h" "\<forall>i. L_proc i \<notin> set h" "sorted_wrt (<) is" "q \<notin> set is"
    and "pstate (pr s q) = RUNNABLE"
  shows "\<exists>p. choose_fcfs is (Some q) s = Ok (Some p, s\<lparr>held := h\<rparr>) \<and>
    (p = q \<or> p \<in> set is \<and> older (pr s p) (pr s q)) \<and> pstate (pr s p) = RUNNABLE \<and>
    (\<forall>j\<in>set is. pstate (pr s j) = RUNNABLE \<longrightarrow> \<not> older (pr s j) (pr s p)) \<and>
    (\<forall>j\<in>set is. p \<noteq> q \<longrightarrow> j < p \<longrightarrow> pstate (pr s j) = RUNNABLE \<longrightarrow> older (pr s p) (pr s j))"
  using assms
proof (induction "is" arbitrary: q s)
  case Nil
  then show ?case by simp
next
  case (Cons i "is")
  have qi: "q \<noteq> i" using Cons.prems(4) by auto
  let ?s = "s\<lparr>held := L_proc i # h\<rparr>"
  show ?case
  proof (cases "pstate (pr s i) = RUNNABLE \<and> older (pr s i) (pr s q)")
    case True
    have "\<exists>p. choose_fcfs is (Some i) ?s = Ok (Some p, ?s\<lparr>held := h\<rparr>) \<and>
      (p = i \<or> p \<in> set is \<and> older (pr ?s p) (pr ?s i)) \<and> pstate (pr ?s p) = RUNNABLE \<and>
      (\<forall>j\<in>set is. pstate (pr ?s j) = RUNNABLE \<longrightarrow> \<not> older (pr ?s j) (pr ?s p)) \<and>
      (\<forall>j\<in>set is. p \<noteq> i \<longrightarrow> j < p \<longrightarrow> pstate (pr ?s j) = RUNNABLE \<longrightarrow> older (pr ?s p) (pr ?s j))"
      by (rule Cons.IH) (use Cons.prems True in auto)
    then obtain p where p: "choose_fcfs is (Some i) ?s = Ok (Some p, s\<lparr>held := h\<rparr>)"
      "p = i \<or> p \<in> set is \<and> older (pr s p) (pr s i)" "pstate (pr s p) = RUNNABLE"
      "\<forall>j\<in>set is. pstate (pr s j) = RUNNABLE \<longrightarrow> \<not> older (pr s j) (pr s p)"
      "\<forall>j\<in>set is. p \<noteq> i \<longrightarrow> j < p \<longrightarrow> pstate (pr s j) = RUNNABLE \<longrightarrow> older (pr s p) (pr s j)"
      by auto
    have "choose_fcfs (i # is) (Some q) s = choose_fcfs is (Some i) ?s"
      using True Cons.prems(1,2) qi by (simp add: older_def)
    moreover have "\<forall>j\<in>set (i # is). j < p \<longrightarrow> pstate (pr s j) = RUNNABLE \<longrightarrow> older (pr s p) (pr s j)"
      using p Cons.prems(3) by (auto simp: less_imp_not_less)
    ultimately show ?thesis
      using p True by (intro exI [of _ p]) (auto simp: older_def)
  next
    case False
    have "\<exists>p. choose_fcfs is (Some q) s = Ok (Some p, s\<lparr>held := h\<rparr>) \<and>
      (p = q \<or> p \<in> set is \<and> older (pr s p) (pr s q)) \<and> pstate (pr s p) = RUNNABLE \<and>
      (\<forall>j\<in>set is. pstate (pr s j) = RUNNABLE \<longrightarrow> \<not> older (pr s j) (pr s p)) \<and>
      (\<forall>j\<in>set is. p \<noteq> q \<longrightarrow> j < p \<longrightarrow> pstate (pr s j) = RUNNABLE \<longrightarrow> older (pr s p) (pr s j))"
      by (rule Cons.IH) (use Cons.prems in auto)
    moreover have "choose_fcfs (i # is) (Some q) s = choose_fcfs is (Some q) s"
    proof -
      have e: "s\<lparr>held := L_proc q # h\<rparr> = s" using Cons.prems(1) by simp
      then show ?thesis using False Cons.prems(1,2) qi by (auto simp: older_def e)
    qed
    ultimately obtain p where p: "choose_fcfs (i # is) (Some q) s = Ok (Some p, s\<lparr>held := h\<rparr>)"
      "p = q \<or> p \<in> set is \<and> older (pr s p) (pr s q)" "pstate (pr s p) = RUNNABLE"
      "\<forall>j\<in>set is. pstate (pr s j) = RUNNABLE \<longrightarrow> \<not> older (pr s j) (pr s p)"
      "\<forall>j\<in>set is. p \<noteq> q \<longrightarrow> j < p \<longrightarrow> pstate (pr s j) = RUNNABLE \<longrightarrow> older (pr s p) (pr s j)"
      by auto
    have "\<not> older (pr s i) (pr s p)" "p \<noteq> q \<Longrightarrow> older (pr s p) (pr s i)" if "pstate (pr s i) = RUNNABLE"
      using that False p(2) by (auto simp: older_def)
    with p show ?thesis by (intro exI [of _ p]) auto
  qed
qed

lemma choose_fcfs_None:
  assumes "unlocked s" "sorted_wrt (<) is"
  shows "\<exists>r. choose_fcfs is None s = Ok (r, s) \<and>
    (case r of None \<Rightarrow> \<forall>i\<in>set is. pstate (pr s i) \<noteq> RUNNABLE
     | Some p \<Rightarrow> p \<in> set is \<and> pstate (pr s p) = RUNNABLE \<and>
        (\<forall>j\<in>set is. pstate (pr s j) = RUNNABLE \<longrightarrow> \<not> older (pr s j) (pr s p)) \<and>
        (\<forall>j\<in>set is. j < p \<longrightarrow> pstate (pr s j) = RUNNABLE \<longrightarrow> older (pr s p) (pr s j)))"
  using assms(2)
proof (induction "is")
  case (Cons i "is")
  show ?case
  proof (cases "pstate (pr s i) = RUNNABLE")
    case True
    let ?s = "s\<lparr>held := L_proc i # held s\<rparr>"
    have "\<exists>p. choose_fcfs is (Some i) ?s = Ok (Some p, ?s\<lparr>held := held s\<rparr>) \<and>
      (p = i \<or> p \<in> set is \<and> older (pr ?s p) (pr ?s i)) \<and> pstate (pr ?s p) = RUNNABLE \<and>
      (\<forall>j\<in>set is. pstate (pr ?s j) = RUNNABLE \<longrightarrow> \<not> older (pr ?s j) (pr ?s p)) \<and>
      (\<forall>j\<in>set is. p \<noteq> i \<longrightarrow> j < p \<longrightarrow> pstate (pr ?s j) = RUNNABLE \<longrightarrow> older (pr ?s p) (pr ?s j))"
      by (rule choose_fcfs_Some) (use assms(1) Cons.prems True in \<open>auto simp: unlocked_def\<close>)
    then obtain p where p: "choose_fcfs is (Some i) ?s = Ok (Some p, s)"
      "p = i \<or> p \<in> set is \<and> older (pr s p) (pr s i)" "pstate (pr s p) = RUNNABLE"
      "\<forall>j\<in>set is. pstate (pr s j) = RUNNABLE \<longrightarrow> \<not> older (pr s j) (pr s p)"
      "\<forall>j\<in>set is. p \<noteq> i \<longrightarrow> j < p \<longrightarrow> pstate (pr s j) = RUNNABLE \<longrightarrow> older (pr s p) (pr s j)"
      by auto
    have "choose_fcfs (i # is) None s = Ok (Some p, s)" using True assms(1) p(1) by simp
    moreover have "\<not> older (pr s i) (pr s p)" using p(2) by (auto simp: older_def)
    moreover have "older (pr s p) (pr s j)" if "j \<in> set (i # is)" "j < p" "pstate (pr s j) = RUNNABLE" for j
    proof (cases "p = i")
      case pi: True
      then show ?thesis using that Cons.prems by auto
    next
      case False
      then show ?thesis using that p(2,5) by (cases "j = i") auto
    qed
    ultimately show ?thesis using p(2,3,4) by (intro exI [of _ "Some p"]) auto
  next
    case False
    have e: "choose_fcfs (i # is) None s = choose_fcfs is None s" using False assms(1) by simp
    have "sorted_wrt (<) is" using Cons.prems by simp
    then obtain r where "choose_fcfs is None s = Ok (r, s)"
      and r: "case r of None \<Rightarrow> \<forall>i\<in>set is. pstate (pr s i) \<noteq> RUNNABLE
       | Some p \<Rightarrow> p \<in> set is \<and> pstate (pr s p) = RUNNABLE \<and>
        (\<forall>j\<in>set is. pstate (pr s j) = RUNNABLE \<longrightarrow> \<not> older (pr s j) (pr s p)) \<and>
        (\<forall>j\<in>set is. j < p \<longrightarrow> pstate (pr s j) = RUNNABLE \<longrightarrow> older (pr s p) (pr s j))"
      using Cons.IH by blast
    with e False show ?thesis by (intro exI [of _ r]) (auto split: option.splits)
  qed
qed simp

interpretation fcfs: sched_policy "choose_fcfs [0..<NPROC] None" older unlocked
proof unfold_locales
  fix s :: "'a pst_scheme"
  assume "unlocked s"
  from choose_fcfs_None [OF this, of "[0..<NPROC]"]
  show "\<exists>r. choose_fcfs [0..<NPROC] None s = Ok (r, s) \<and> picks older s r"
    by (auto simp: picks_def runnable_def split: option.splits)
qed

lemma choose_max_prio_max:
  assumes "unlocked s"
  shows "\<exists>m. choose_max_prio is m0 s = Ok (m, s) \<and> m0 \<le> m \<and>
    (\<forall>i\<in>set is. pstate (pr s i) = RUNNABLE \<longrightarrow> priority (pr s i) \<le> m) \<and>
    (m = m0 \<or> (\<exists>i\<in>set is. pstate (pr s i) = RUNNABLE \<and> priority (pr s i) = m))"
proof (induction "is" arbitrary: m0)
  case (Cons i "is")
  let ?m = "if pstate (pr s i) = RUNNABLE \<and> priority (pr s i) > m0 then priority (pr s i) else m0"
  obtain m where "choose_max_prio is ?m s = Ok (m, s)" "?m \<le> m"
    "\<forall>i\<in>set is. pstate (pr s i) = RUNNABLE \<longrightarrow> priority (pr s i) \<le> m"
    "m = ?m \<or> (\<exists>i\<in>set is. pstate (pr s i) = RUNNABLE \<and> priority (pr s i) = m)"
    using Cons.IH by blast
  then show ?case using assms by (intro exI [of _ m]) (auto split: if_splits)
qed simp

lemma choose_prio_first:
  assumes "unlocked s"
  shows "choose_prio is m s =
    Ok (map_option ((!) is) (find_idx (\<lambda>i. pstate (pr s i) = RUNNABLE \<and> priority (pr s i) = m) is), s)"
  using assms by (induction "is") (auto simp: map_option.compositionality o_def split: option.splits)

definition choose_priority :: "'a pst_scheme \<Rightarrow> (nat option \<times> 'a pst_scheme) res" where
  "choose_priority s =
     rbind (choose_max_prio [0..<NPROC] (-1) s) (\<lambda>(m, s).
       if m = -1 then Ok (None, s) else choose_prio [0..<NPROC] m s)"

interpretation prio: sched_policy choose_priority higher "\<lambda>s. unlocked s \<and> prio_ok s"
proof unfold_locales
  fix s :: "'a pst_scheme"
  assume u: "unlocked s \<and> prio_ok s"
  let ?P = "\<lambda>m i. pstate (pr s i) = RUNNABLE \<and> priority (pr s i) = m"
  obtain m where m: "choose_max_prio [0..<NPROC] (-1) s = Ok (m, s)"
    "\<forall>i<NPROC. pstate (pr s i) = RUNNABLE \<longrightarrow> priority (pr s i) \<le> m"
    "m = -1 \<or> (\<exists>i<NPROC. ?P m i)"
    using choose_max_prio_max [of s "[0..<NPROC]" "-1"] u by (auto simp: Bex_def Ball_def)
  show "\<exists>r. choose_priority s = Ok (r, s) \<and> picks higher s r"
  proof (cases "m = -1")
    case True
    then have "\<not> runnable s i" for i using m(2) u by (force simp: prio_ok_def runnable_def)
    with True m(1) show ?thesis by (simp add: choose_priority_def picks_def)
  next
    case False
    have c: "choose_priority s = Ok (map_option ((!) [0..<NPROC]) (find_idx (?P m) [0..<NPROC]), s)"
      using m(1) False u by (simp add: choose_priority_def choose_prio_first)
    show ?thesis
    proof (cases "map_option ((!) [0..<NPROC]) (find_idx (?P m) [0..<NPROC])")
      case None
      then show ?thesis using m(3) False unfolding find_idx_upt by blast
    next
      case (Some p)
      then have p: "p < NPROC" "?P m p" "\<forall>q<p. \<not> ?P m q" unfolding find_idx_upt by auto
      have "higher (pr s p) (pr s q)" if "q < p" "runnable s q" for q
      proof -
        have "priority (pr s q) \<le> m" "priority (pr s q) \<noteq> m"
          using m(2) p(3) that by (auto simp: runnable_def)
        then show ?thesis using p(2) by (simp add: higher_def)
      qed
      moreover have "\<not> higher (pr s q) (pr s p)" if "runnable s q" for q
        using m(2) p(2) that by (auto simp: higher_def runnable_def not_less)
      ultimately show ?thesis using c Some p by (auto simp: picks_def runnable_def)
    qed
  qed
qed

definition policy :: "int \<Rightarrow> proc \<Rightarrow> proc \<Rightarrow> bool" where
  "policy mode = (if mode = SCHED_FCFS then older else if mode = SCHED_PRIORITY then higher
     else (\<lambda>_ _. False))"

definition mode_ok :: "'a pst_scheme \<Rightarrow> bool" where
  "mode_ok s \<longleftrightarrow> sched_mode s \<in> {SCHED_ROUND_ROBIN, SCHED_FCFS, SCHED_PRIORITY}"

lemma choose_next_process_modes:
  "sched_mode s = SCHED_ROUND_ROBIN \<Longrightarrow> choose_next_process s = Ok (choose_rr [0..<NPROC] s, s)"
  "sched_mode s = SCHED_FCFS \<Longrightarrow> choose_next_process s = choose_fcfs [0..<NPROC] None s"
  "sched_mode s = SCHED_PRIORITY \<Longrightarrow> choose_next_process s = choose_priority s"
  by (simp_all add: choose_next_process_def choose_priority_def sched_modes)

lemma next_process_picks:
  assumes "unlocked s" "prio_ok s" "mode_ok s"
  shows "\<exists>r. choose_next_process s = Ok (r, s) \<and> picks (policy (sched_mode s)) s r"
proof -
  consider "sched_mode s = SCHED_ROUND_ROBIN" | "sched_mode s = SCHED_FCFS" | "sched_mode s = SCHED_PRIORITY"
    using assms(3) by (auto simp: mode_ok_def)
  then show ?thesis
  proof cases
    case 1
    then show ?thesis using rr.choose_picks [of s] by (simp add: choose_next_process_modes policy_def sched_modes)
  next
    case 2
    then show ?thesis using fcfs.choose_picks [OF assms(1)] by (simp add: choose_next_process_modes policy_def)
  next
    case 3
    then show ?thesis using prio.choose_picks [of s] assms(1,2)
      by (simp add: choose_next_process_modes policy_def sched_modes)
  qed
qed

text \<open>C13. In every mode the scheduler's choice is the policy's: the runnable process the
  mode prefers (the earliest created under FCFS, the highest priority under
  priority scheduling), the lowest slot among equals, and none exactly when no
  process is runnable. Choosing takes and drops the process locks it needs and
  changes nothing.\<close>

theorem choose_next_process_picks:
  assumes "unlocked s" "prio_ok s" "mode_ok s"
  shows "choose_next_process s = Ok (r, s) \<longleftrightarrow> picks (policy (sched_mode s)) s r"
proof -
  obtain r' where r: "choose_next_process s = Ok (r', s)" "picks (policy (sched_mode s)) s r'"
    using next_process_picks [OF assms] by blast
  with picks_unique [OF r(2), of r] show ?thesis by auto
qed

text \<open>A process table with runnable processes in slots 2 and 5; the one in slot 5 was
  created first and has the higher priority.\<close>

definition idle_proc :: proc where
  "idle_proc = \<lparr>pstate = UNUSED, pchan = None, pkilled = 0, xstate = 0, pid = 0, priority = 0,
     parent = None, kstack = 0, sz = 0, pagetable = 0, trapframe = 0,
     pcontext = \<lparr>cx_ra = 0, cx_sp = 0, cx_s = []\<rparr>, ofile = replicate NOFILE None, cwd = None, pname = [],
     creation_time = 0, run_time = 0, finish_time = 0, turnaround_time = 0, waiting_time = 0\<rparr>"

definition demo_procs :: "proc list" where
  "demo_procs = (replicate 64 idle_proc)
     [2 := idle_proc\<lparr>pstate := RUNNABLE, pid := 4, priority := 5, creation_time := 30\<rparr>,
      5 := idle_proc\<lparr>pstate := RUNNABLE, pid := 3, priority := 10, creation_time := 20\<rparr>]"

definition demo_pst :: "int \<Rightarrow> pst" where
  "demo_pst mode = \<lparr>held = [], mem = (\<lambda>_. 0), freelist = 0, kend = 0x80021000, procs = demo_procs,
     initproc = None, nextpid = 5, curproc = None, ticks = 40, sched_mode = mode, tframes = (\<lambda>_. tf_junk),
     trampoline = 0x80007000, etext = 0x80008000, forkret_pc = 0x80001000, kernel_pagetable = 0\<rparr>"

lemma demo_pst_runnable: "runnable (demo_pst mode) i \<longleftrightarrow> i = 2 \<or> i = 5"
  by (auto simp: runnable_def demo_pst_def demo_procs_def pr_def NPROC_def nth_list_update idle_proc_def)

lemma demo_pst_ready:
  "unlocked (demo_pst mode)" "prio_ok (demo_pst mode)" "table_ok (demo_pst mode)"
  "mode \<in> {SCHED_ROUND_ROBIN, SCHED_FCFS, SCHED_PRIORITY} \<Longrightarrow> mode_ok (demo_pst mode)"
proof -
  show u: "unlocked (demo_pst mode)" by (simp add: unlocked_def demo_pst_def)
  show "prio_ok (demo_pst mode)"
    unfolding prio_ok_def demo_pst_runnable by (auto simp: demo_pst_def demo_procs_def pr_def)
  show "table_ok (demo_pst mode)" using u by (simp add: table_ok_def demo_pst_def demo_procs_def NPROC_def)
qed (simp add: mode_ok_def demo_pst_def)

theorem choose_next_process_picks_witness:
  "choose_next_process (demo_pst SCHED_FCFS) = Ok (Some 5, demo_pst SCHED_FCFS) \<and>
   choose_next_process (demo_pst SCHED_PRIORITY) = Ok (Some 5, demo_pst SCHED_PRIORITY) \<and>
   choose_next_process (demo_pst SCHED_ROUND_ROBIN) = Ok (Some 2, demo_pst SCHED_ROUND_ROBIN)"
proof (intro conjI)
  show "choose_next_process (demo_pst SCHED_FCFS) = Ok (Some 5, demo_pst SCHED_FCFS)"
    by (subst choose_next_process_picks)
      (auto simp: demo_pst_ready picks_def demo_pst_runnable policy_def older_def,
       auto simp: demo_pst_def pr_def demo_procs_def sched_modes)
  show "choose_next_process (demo_pst SCHED_PRIORITY) = Ok (Some 5, demo_pst SCHED_PRIORITY)"
    by (subst choose_next_process_picks)
      (auto simp: demo_pst_ready picks_def demo_pst_runnable policy_def higher_def,
       auto simp: demo_pst_def pr_def demo_procs_def sched_modes)
  show "choose_next_process (demo_pst SCHED_ROUND_ROBIN) = Ok (Some 2, demo_pst SCHED_ROUND_ROBIN)"
    by (subst choose_next_process_picks)
      (auto simp: demo_pst_ready picks_def demo_pst_runnable policy_def,
       auto simp: demo_pst_def sched_modes)
qed

lemma scheduler_enter_picks:
  assumes "table_ok s" "prio_ok s" "mode_ok s" "picks (policy (sched_mode s)) s (Some p)"
  shows "scheduler_enter s =
    Ok (Some p, s\<lparr>held := L_proc p # held s, procs := (procs s)[p := (pr s p)\<lparr>pstate := RUNNING\<rparr>],
                  curproc := Some p\<rparr>)"
proof -
  have u: "unlocked s" using assms(1) by (simp add: table_ok_def)
  have "choose_next_process s = Ok (Some p, s)"
    using next_process_picks [OF u assms(2,3)] picks_unique [OF assms(4)] by metis
  moreover have "pstate (pr s p) = RUNNABLE" using assms(4) by (simp add: picks_def runnable_def)
  ultimately show ?thesis using u by (simp add: scheduler_enter_def upd_proc_def pr_def)
qed

text \<open>C15. Whenever a process is runnable, a round of \<^verbatim>\<open>scheduler\<close> switches to one: the
  policy's choice becomes \<open>RUNNING\<close> on this CPU with its lock held, and no other
  process changes.\<close>

theorem scheduler_runs_choice:
  assumes "table_ok s" "prio_ok s" "mode_ok s" "runnable s i"
  shows "\<exists>p. picks (policy (sched_mode s)) s (Some p) \<and> scheduler_enter s =
    Ok (Some p, s\<lparr>held := L_proc p # held s, procs := (procs s)[p := (pr s p)\<lparr>pstate := RUNNING\<rparr>],
                  curproc := Some p\<rparr>)"
proof -
  obtain r where r: "picks (policy (sched_mode s)) s r"
    using next_process_picks assms(1-3) by (auto simp: table_ok_def)
  then obtain p where "r = Some p" using assms(4) by (cases r) (auto simp: picks_def)
  with r scheduler_enter_picks [OF assms(1-3)] show ?thesis by blast
qed

theorem scheduler_runs_choice_witness:
  "\<exists>p. picks (policy SCHED_FCFS) (demo_pst SCHED_FCFS) (Some p) \<and>
     (\<exists>t. scheduler_enter (demo_pst SCHED_FCFS) = Ok (Some p, t) \<and> curproc t = Some p)"
  using scheduler_runs_choice [of "demo_pst SCHED_FCFS" 2]
  by (auto simp: demo_pst_ready demo_pst_runnable) (auto simp: demo_pst_def)

theorem wakeup_wakes_witness:
  "wakeup Ch_ticks ((demo_pst 0)\<lparr>procs := demo_procs[2 := (demo_procs ! 2)\<lparr>pstate := SLEEPING, pchan := Some Ch_ticks\<rparr>]\<rparr>) =
   Ok ((demo_pst 0)\<lparr>procs := demo_procs[2 := (demo_procs ! 2)\<lparr>pchan := Some Ch_ticks\<rparr>]\<rparr>)"
proof -
  let ?s = "(demo_pst 0)\<lparr>procs := demo_procs[2 := (demo_procs ! 2)\<lparr>pstate := SLEEPING, pchan := Some Ch_ticks\<rparr>]\<rparr>"
  have t: "table_ok ?s" by (simp add: table_ok_def unlocked_def demo_pst_def demo_procs_def NPROC_def)
  have "map (\<lambda>i. wake_step Ch_ticks (curproc ?s) i (pr ?s i)) [0..<NPROC] =
      demo_procs[2 := (demo_procs ! 2)\<lparr>pchan := Some Ch_ticks\<rparr>]"
    by (rule nth_equalityI)
      (auto simp: NPROC_def demo_procs_def wake_step_def demo_pst_def pr_def nth_list_update idle_proc_def)
  then show ?thesis using wakeup_wakes [OF t, of Ch_ticks] by simp
qed

end
