(* ===== verification/Sleeplock.thy ===== *)
theory Sleeplock
  imports Sched
begin

text \<open>
  Sleep locks (\<^verbatim>\<open>kernel/sleeplock.c\<close>). The locks of the buffers and of the in-memory
  inodes are kept in one store, indexed by the object they are a field of. In the
  view of one thread an \<^verbatim>\<open>acquiresleep\<close> of a taken lock blocks.
\<close>

record sleeplock =
  slocked :: bool
  spid :: int

record sst = pst +
  slks :: "slk \<Rightarrow> sleeplock"

definition set_slk :: "slk \<Rightarrow> bool \<Rightarrow> int \<Rightarrow> 'a sst_scheme \<Rightarrow> 'a sst_scheme" where
  "set_slk lk b n s = s\<lparr>slks := (slks s)(lk := \<lparr>slocked = b, spid = n\<rparr>)\<rparr>"

definition initsleeplock :: "slk \<Rightarrow> 'a sst_scheme \<Rightarrow> 'a sst_scheme" where
  "initsleeplock lk s = set_slk lk False 0 s"

definition acquiresleep :: "slk \<Rightarrow> 'a sst_scheme \<Rightarrow> 'a sst_scheme res" where
  "acquiresleep lk s =
     rbind (acquire (L_slk lk) s) (\<lambda>s.
       if slocked (slks s lk) then sleep (Ch_slk lk) (L_slk lk) s
       else with_proc s (\<lambda>p. release (L_slk lk) (set_slk lk True (pid (pr s p)) s)))"

definition releasesleep :: "slk \<Rightarrow> 'a sst_scheme \<Rightarrow> 'a sst_scheme res" where
  "releasesleep lk s =
     rbind (acquire (L_slk lk) s) (\<lambda>s.
       rbind (wakeup (Ch_slk lk) (set_slk lk False 0 s)) (release (L_slk lk)))"

definition holdingsleep :: "slk \<Rightarrow> 'a sst_scheme \<Rightarrow> (bool \<times> 'a sst_scheme) res" where
  "holdingsleep lk s =
     rbind (acquire (L_slk lk) s) (\<lambda>s. with_proc s (\<lambda>p.
       let r = (slocked (slks s lk) \<and> spid (slks s lk) = pid (pr s p))
       in rbind (release (L_slk lk) s) (\<lambda>s. Ok (r, s))))"

section \<open>The effect of the calls of a running process\<close>

text \<open>What a wakeup may do to the table: sleeping processes other than the running
  one become runnable, and nothing else changes.\<close>

definition woken :: "nat option \<Rightarrow> proc list \<Rightarrow> proc list \<Rightarrow> bool" where
  "woken me ps qs \<longleftrightarrow> length qs = length ps \<and>
     (\<forall>i<length ps. qs ! i = ps ! i \<or>
        (me \<noteq> Some i \<and> pstate (ps ! i) = SLEEPING \<and> qs ! i = (ps ! i)\<lparr>pstate := RUNNABLE\<rparr>))"

lemma woken_refl [simp]: "woken me ps ps"
  by (simp add: woken_def)

lemma woken_trans: "woken me ps qs \<Longrightarrow> woken me qs rs \<Longrightarrow> woken me ps rs"
  unfolding woken_def by (auto 0 4) 

lemma woken_pid: "woken me ps qs \<Longrightarrow> i < length ps \<Longrightarrow> pid (qs ! i) = pid (ps ! i)"
  by (auto simp: woken_def)

lemma woken_me: "woken (Some i) ps qs \<Longrightarrow> i < length ps \<Longrightarrow> qs ! i = ps ! i"
  by (auto simp: woken_def)

lemma woken_length: "woken me ps qs \<Longrightarrow> length qs = length ps"
  by (simp add: woken_def)

lemma wakeup_woken:
  assumes "table_ok s"
  obtains ps where "wakeup c s = Ok (s\<lparr>procs := ps\<rparr>)" "woken (curproc s) (procs s) ps"
proof
  let ?ps = "map (\<lambda>i. wake_step c (curproc s) i (pr s i)) [0..<NPROC]"
  show "wakeup c s = Ok (s\<lparr>procs := ?ps\<rparr>)"
    unfolding wakeup_def by (rule wakeup_sweep.sweep [OF assms])
  show "woken (curproc s) (procs s) ?ps"
    using assms by (auto simp: woken_def wake_step_def pr_def table_ok_def)
qed

text \<open>A process in a system call that holds no spin lock.\<close>

definition calm :: "'a pst_scheme \<Rightarrow> bool" where
  "calm s \<longleftrightarrow> held s = [] \<and> length (procs s) = NPROC \<and> (\<exists>p<NPROC. curproc s = Some p)"

definition mypid :: "'a pst_scheme \<Rightarrow> int" where
  "mypid s = pid (pr s (the (curproc s)))"

lemma calm_table_ok: "calm s \<Longrightarrow> table_ok s"
  by (simp add: calm_def table_ok_def unlocked_def)

lemma acquiresleep_free:
  assumes "calm s" "\<not> slocked (slks s lk)"
  shows "acquiresleep lk s = Ok (set_slk lk True (mypid s) s)"
  using assms by (auto simp: acquiresleep_def calm_def with_proc_def myproc_def mypid_def set_slk_def)

lemma acquiresleep_taken:
  assumes "calm s" "slocked (slks s lk)" "pstate (pr s (the (curproc s))) = RUNNING"
  shows "acquiresleep lk s = Block (Ch_slk lk)"
  using assms
  by (auto simp: acquiresleep_def calm_def with_proc_def myproc_def sleep_def sleep_enter_def
      sched_check_def pr_upd_proc)

lemma holdingsleep_calm:
  assumes "calm s"
  shows "holdingsleep lk s = Ok (slocked (slks s lk) \<and> spid (slks s lk) = mypid s, s)"
  using assms by (auto simp: holdingsleep_def calm_def with_proc_def myproc_def mypid_def)

lemma releasesleep_calm:
  assumes "calm s"
  obtains ps where "releasesleep lk s = Ok ((set_slk lk False 0 s)\<lparr>procs := ps\<rparr>)"
    "woken (curproc s) (procs s) ps"
proof -
  let ?s = "set_slk lk False 0 (s\<lparr>held := [L_slk lk]\<rparr>)"
  have "table_ok ?s" using assms by (simp add: table_ok_def unlocked_def calm_def set_slk_def)
  then obtain ps where "wakeup (Ch_slk lk) ?s = Ok (?s\<lparr>procs := ps\<rparr>)" "woken (curproc s) (procs s) ps"
    by (rule wakeup_woken [of ?s "Ch_slk lk"]) (simp add: set_slk_def)
  with assms show ?thesis by (intro that [of ps]) (simp_all add: releasesleep_def calm_def set_slk_def)
qed

end
