(* ===== verification/Bio.thy ===== *)
theory Bio
  imports Sleeplock
begin

text \<open>
  The buffer cache (\<^verbatim>\<open>kernel/bio.c\<close>, \<^verbatim>\<open>kernel/buf.h\<close>). A buffer is named by its index in
  \<^verbatim>\<open>bcache.buf\<close>; index \<open>NBUF\<close> is \<^verbatim>\<open>bcache.head\<close>. The least-recently-used list is the
  doubly linked ring of the code. The disk is a function from block numbers to
  contents, together with the list of the writes made to it, oldest first;
  \<open>disk_rw\<close> is what the driver does for its caller.
\<close>

section \<open>Data\<close>

definition BSIZE :: nat where [xv6_consts]: "BSIZE = 1024"
definition NBUF :: nat where [xv6_consts]: "NBUF = 30"
definition ROOTDEV :: u32 where [xv6_consts]: "ROOTDEV = 1"

record buf =
  bvalid :: bool
  bdisk :: bool
  bdev :: u32
  blockno :: u32
  refcnt :: u32
  bprev :: nat
  bnext :: nat
  bdata :: bytes

record bst = sst +
  bufs :: "buf list"
  disk :: "u32 \<Rightarrow> bytes"
  writes :: "(u32 \<times> bytes) list"

definition bhead :: nat where
  "bhead = NBUF"

definition bf :: "'a bst_scheme \<Rightarrow> nat \<Rightarrow> buf" where
  "bf s i = bufs s ! i"

definition upd_buf :: "nat \<Rightarrow> (buf \<Rightarrow> buf) \<Rightarrow> 'a bst_scheme \<Rightarrow> 'a bst_scheme" where
  "upd_buf i f s = s\<lparr>bufs := (bufs s)[i := f (bufs s ! i)]\<rparr>"

text \<open>A store to \<^verbatim>\<open>b->data\<close> as a whole.\<close>

definition set_data :: "nat \<Rightarrow> bytes \<Rightarrow> 'a bst_scheme \<Rightarrow> 'a bst_scheme" where
  "set_data i bs s = upd_buf i (\<lambda>b. b\<lparr>bdata := bs\<rparr>) s"

definition disk_rw :: "nat \<Rightarrow> bool \<Rightarrow> 'a bst_scheme \<Rightarrow> 'a bst_scheme" where
  "disk_rw i wr s =
     (let n = blockno (bf s i); bs = bdata (bf s i)
      in if wr then s\<lparr>disk := (disk s)(n := bs), writes := writes s @ [(n, bs)]\<rparr>
         else upd_buf i (\<lambda>b. b\<lparr>bdata := disk s n\<rparr>) s)"

section \<open>Operations\<close>

text \<open>Putting buffer \<open>i\<close> at the front of the ring, as \<^verbatim>\<open>binit\<close> and \<^verbatim>\<open>brelse\<close> do.\<close>

definition ring_push :: "nat \<Rightarrow> 'a bst_scheme \<Rightarrow> 'a bst_scheme" where
  "ring_push i s =
     (let s = upd_buf i (\<lambda>b. b\<lparr>bnext := bnext (bf s bhead)\<rparr>) s;
          s = upd_buf i (\<lambda>b. b\<lparr>bprev := bhead\<rparr>) s;
          s = upd_buf (bnext (bf s bhead)) (\<lambda>b. b\<lparr>bprev := i\<rparr>) s
      in upd_buf bhead (\<lambda>b. b\<lparr>bnext := i\<rparr>) s)"

definition ring_unlink :: "nat \<Rightarrow> 'a bst_scheme \<Rightarrow> 'a bst_scheme" where
  "ring_unlink i s =
     (let s = upd_buf (bnext (bf s i)) (\<lambda>b. b\<lparr>bprev := bprev (bf s i)\<rparr>) s
      in upd_buf (bprev (bf s i)) (\<lambda>b. b\<lparr>bnext := bnext (bf s i)\<rparr>) s)"

fun binit_loop :: "nat list \<Rightarrow> 'a bst_scheme \<Rightarrow> 'a bst_scheme" where
  "binit_loop [] s = s"
| "binit_loop (i # is) s = binit_loop is (ring_push i (initsleeplock (Slk_buf i) s))"

definition binit :: "'a bst_scheme \<Rightarrow> 'a bst_scheme" where
  "binit s =
     (let s = upd_buf bhead (\<lambda>b. b\<lparr>bprev := bhead\<rparr>) s;
          s = upd_buf bhead (\<lambda>b. b\<lparr>bnext := bhead\<rparr>) s
      in binit_loop [0..<NBUF] s)"

text \<open>The two scans of \<^verbatim>\<open>bget\<close>, each bounded by the number of buffers and the head.\<close>

fun bget_cached :: "nat \<Rightarrow> u32 \<Rightarrow> u32 \<Rightarrow> nat \<Rightarrow> 'a bst_scheme \<Rightarrow> nat option res" where
  "bget_cached 0 dev n b s = NoFuel"
| "bget_cached (Suc k) dev n b s =
     (if b = bhead then Ok None
      else if bdev (bf s b) = dev \<and> blockno (bf s b) = n then Ok (Some b)
      else bget_cached k dev n (bnext (bf s b)) s)"

fun bget_unused :: "nat \<Rightarrow> nat \<Rightarrow> 'a bst_scheme \<Rightarrow> nat option res" where
  "bget_unused 0 b s = NoFuel"
| "bget_unused (Suc k) b s =
     (if b = bhead then Ok None
      else if refcnt (bf s b) = 0 then Ok (Some b)
      else bget_unused k (bprev (bf s b)) s)"

definition bget :: "u32 \<Rightarrow> u32 \<Rightarrow> 'a bst_scheme \<Rightarrow> (nat \<times> 'a bst_scheme) res" where
  "bget dev n s =
     rbind (acquire L_bcache s) (\<lambda>s.
     rbind (bget_cached (Suc NBUF) dev n (bnext (bf s bhead)) s) (\<lambda>r.
     case r of
       Some b \<Rightarrow>
         rbind (release L_bcache (upd_buf b (\<lambda>f. f\<lparr>refcnt := refcnt f + 1\<rparr>) s)) (\<lambda>s.
         rbind (acquiresleep (Slk_buf b) s) (\<lambda>s. Ok (b, s)))
     | None \<Rightarrow>
         rbind (bget_unused (Suc NBUF) (bprev (bf s bhead)) s) (\<lambda>r.
         case r of
           Some b \<Rightarrow>
             rbind (release L_bcache (upd_buf b (\<lambda>f. f\<lparr>bdev := dev, blockno := n, bvalid := False,
                      refcnt := 1\<rparr>) s)) (\<lambda>s.
             rbind (acquiresleep (Slk_buf b) s) (\<lambda>s. Ok (b, s)))
         | None \<Rightarrow> Panic ''bget: no buffers'')))"

definition bread :: "u32 \<Rightarrow> u32 \<Rightarrow> 'a bst_scheme \<Rightarrow> (nat \<times> 'a bst_scheme) res" where
  "bread dev n s =
     rbind (bget dev n s) (\<lambda>(b, s).
       if \<not> bvalid (bf s b) then Ok (b, upd_buf b (\<lambda>f. f\<lparr>bvalid := True\<rparr>) (disk_rw b False s))
       else Ok (b, s))"

definition bwrite :: "nat \<Rightarrow> 'a bst_scheme \<Rightarrow> 'a bst_scheme res" where
  "bwrite b s =
     rbind (holdingsleep (Slk_buf b) s) (\<lambda>(h, s).
       if \<not> h then Panic ''bwrite'' else Ok (disk_rw b True s))"

definition brelse :: "nat \<Rightarrow> 'a bst_scheme \<Rightarrow> 'a bst_scheme res" where
  "brelse b s =
     rbind (holdingsleep (Slk_buf b) s) (\<lambda>(h, s).
     if \<not> h then Panic ''brelse''
     else rbind (releasesleep (Slk_buf b) s) (\<lambda>s.
          rbind (acquire L_bcache s) (\<lambda>s.
          let s = upd_buf b (\<lambda>f. f\<lparr>refcnt := refcnt f - 1\<rparr>) s;
              s = (if refcnt (bf s b) = 0 then ring_push b (ring_unlink b s) else s)
          in release L_bcache s)))"

definition bpin :: "nat \<Rightarrow> 'a bst_scheme \<Rightarrow> 'a bst_scheme res" where
  "bpin b s =
     rbind (acquire L_bcache s) (\<lambda>s.
       release L_bcache (upd_buf b (\<lambda>f. f\<lparr>refcnt := refcnt f + 1\<rparr>) s))"

definition bunpin :: "nat \<Rightarrow> 'a bst_scheme \<Rightarrow> 'a bst_scheme res" where
  "bunpin b s =
     rbind (acquire L_bcache s) (\<lambda>s.
       release L_bcache (upd_buf b (\<lambda>f. f\<lparr>refcnt := refcnt f - 1\<rparr>) s))"

section \<open>The ring\<close>

lemma upd_buf_simps [simp]:
  "length (bufs (upd_buf i f s)) = length (bufs s)" "slks (upd_buf i f s) = slks s"
  "disk (upd_buf i f s) = disk s" "writes (upd_buf i f s) = writes s" "held (upd_buf i f s) = held s"
  "procs (upd_buf i f s) = procs s" "curproc (upd_buf i f s) = curproc s"
  by (simp_all add: upd_buf_def)

lemma bf_upd_buf:
  "i < length (bufs s) \<Longrightarrow> bf (upd_buf i f s) j = (if j = i then f (bf s i) else bf s j)"
  by (simp add: bf_def upd_buf_def)

lemma bf_frame [simp]:
  "bf (s\<lparr>held := h\<rparr>) i = bf s i" "bf (s\<lparr>procs := ps\<rparr>) i = bf s i" "bf (s\<lparr>slks := sl\<rparr>) i = bf s i"
  "bf (s\<lparr>disk := d, writes := w\<rparr>) i = bf s i" "bf (set_slk lk b n s) i = bf s i"
  by (simp_all add: bf_def set_slk_def)

text \<open>\<open>ring s xs\<close>: following \<^verbatim>\<open>next\<close> from the head visits the buffers \<open>xs\<close> in this order
  and returns to the head, and \<^verbatim>\<open>prev\<close> is the reverse.\<close>

fun linked :: "'a bst_scheme \<Rightarrow> nat list \<Rightarrow> bool" where
  "linked s (x # y # ys) \<longleftrightarrow> bnext (bf s x) = y \<and> bprev (bf s y) = x \<and> linked s (y # ys)"
| "linked s _ \<longleftrightarrow> True"

definition ring :: "'a bst_scheme \<Rightarrow> nat list \<Rightarrow> bool" where
  "ring s xs \<longleftrightarrow> length (bufs s) = Suc NBUF \<and> distinct xs \<and> set xs = {0..<NBUF} \<and>
     linked s (bhead # xs @ [bhead])"

lemma linked_split: "linked s (xs @ y # ys) \<longleftrightarrow> linked s (xs @ [y]) \<and> linked s (y # ys)"
proof (induction xs)
  case (Cons x xs)
  then show ?case by (cases xs) auto
qed simp

lemma linked_frame:
  "linked s ys \<Longrightarrow> (\<And>x. x \<in> set (butlast ys) \<Longrightarrow> bnext (bf t x) = bnext (bf s x)) \<Longrightarrow>
   (\<And>x. x \<in> set (tl ys) \<Longrightarrow> bprev (bf t x) = bprev (bf s x)) \<Longrightarrow> linked t ys"
proof (induction s ys rule: linked.induct)
  case (1 s x y ys)
  have "linked t (y # ys)"
    by (rule "1.IH") (use "1.prems" in \<open>auto intro: list.set_sel(2)\<close>)
  with "1.prems" show ?case by auto
qed auto


text \<open>Moving a buffer to the front of the ring, on the list of its members.\<close>

definition move_front :: "nat \<Rightarrow> nat list \<Rightarrow> nat list" where
  "move_front i xs = i # remove1 i xs"

definition relink :: "nat \<Rightarrow> nat \<Rightarrow> nat \<Rightarrow> nat \<Rightarrow> 'a bst_scheme \<Rightarrow> 'a bst_scheme \<Rightarrow> bool" where
  "relink i a c n s t \<longleftrightarrow>
     (\<forall>x. bnext (bf t x) = (if x = bhead then i else if x = i then n else if x = a then c
                            else bnext (bf s x))) \<and>
     (\<forall>x. bprev (bf t x) = (if x = n then i else if x = i then bhead else if x = c then a
                            else bprev (bf s x)))"

lemma ring_at:
  assumes "ring s xs" "i < NBUF"
  obtains us vs where "xs = us @ i # vs" "bprev (bf s i) = last (bhead # us)"
    "bnext (bf s i) = hd (vs @ [bhead])" "bnext (bf s bhead) = hd (xs @ [bhead])"
    "linked s (bhead # us)" "linked s (vs @ [bhead])" "i \<notin> set us" "i \<notin> set vs"
proof -
  have "i \<in> set xs" using assms by (simp add: ring_def)
  then obtain us vs where xs: "xs = us @ i # vs" by (auto dest: split_list)
  have l: "linked s ((bhead # us) @ i # vs @ [bhead])" using assms(1) xs by (simp add: ring_def)
  then have l1: "linked s ((bhead # us) @ [i])" and l2: "linked s (i # vs @ [bhead])"
    using linked_split by blast+
  obtain bs z where z: "bhead # us = bs @ [z]" by (cases "bhead # us" rule: rev_cases) auto
  then have "linked s (bs @ z # [i])" using l1 by simp
  then have "linked s (bs @ [z]) \<and> linked s (z # [i])" by (rule linked_split [THEN iffD1])
  then have "linked s (bs @ [z])" "bprev (bf s i) = z" by simp_all
  then have a: "bprev (bf s i) = last (bhead # us)" and l3: "linked s (bhead # us)" using z by simp_all
  have c: "bnext (bf s i) = hd (vs @ [bhead])" "linked s (vs @ [bhead])"
    using l2 by (cases "vs"; simp)+
  have h: "bnext (bf s bhead) = hd (xs @ [bhead])"
    using assms(1) by (cases xs) (simp_all add: ring_def)
  show ?thesis using that [OF xs a c(1) h l3 c(2)] assms(1) xs by (simp add: ring_def)
qed

lemma bf_upd_in: "bf (upd_buf i f s) j = (if j = i \<and> i < length (bufs s) then f (bf s i) else bf s j)"
proof (cases "i < length (bufs s)")
  case True
  then show ?thesis by (simp add: bf_def upd_buf_def nth_list_update)
next
  case False
  then show ?thesis by (simp add: bf_def upd_buf_def list_update_beyond)
qed

lemma link_upd:
  "bnext (bf (upd_buf i (\<lambda>b. b\<lparr>bprev := v\<rparr>) s) x) = bnext (bf s x)"
  "bprev (bf (upd_buf i (\<lambda>b. b\<lparr>bnext := v\<rparr>) s) x) = bprev (bf s x)"
  "bnext (bf (upd_buf i (\<lambda>b. b\<lparr>bnext := v\<rparr>) s) x) = (if x = i \<and> i < length (bufs s) then v else bnext (bf s x))"
  "bprev (bf (upd_buf i (\<lambda>b. b\<lparr>bprev := v\<rparr>) s) x) = (if x = i \<and> i < length (bufs s) then v else bprev (bf s x))"
  by (simp_all add: bf_upd_in)

lemma relink_moves:
  assumes "ring s xs" "i < NBUF"
  shows "relink i (bprev (bf s i)) (bnext (bf s i))
     (if bprev (bf s i) = bhead then bnext (bf s i) else bnext (bf s bhead)) s
     (ring_push i (ring_unlink i s))"
proof -
  obtain us vs where xs: "xs = us @ i # vs" and a: "bprev (bf s i) = last (bhead # us)"
    and c: "bnext (bf s i) = hd (vs @ [bhead])" and h: "bnext (bf s bhead) = hd (xs @ [bhead])"
    and i: "i \<notin> set us" "i \<notin> set vs"
    using ring_at [OF assms] by metis
  have len: "length (bufs s) = Suc NBUF" and st: "set xs = {0..<NBUF}"
    using assms(1) by (simp_all add: ring_def)
  define A C N where "A = bprev (bf s i)" and "C = bnext (bf s i)" and "N = bnext (bf s bhead)"
  have ih: "i \<noteq> bhead" "bhead < Suc NBUF" "i < Suc NBUF" using assms(2) by (simp_all add: bhead_def)
  have "last (bhead # us) \<in> set (bhead # us)" by (rule last_in_set) simp
  then have A: "A \<noteq> i" "A < Suc NBUF" using i ih st xs a by (auto simp: A_def bhead_def)
  have "hd (vs @ [bhead]) \<in> set (vs @ [bhead])" by (rule hd_in_set) simp
  then have C: "C \<noteq> i" "C < Suc NBUF" using i ih st xs c by (auto simp: C_def bhead_def)
  have "hd (xs @ [bhead]) \<in> set (xs @ [bhead])" by (rule hd_in_set) simp
  then have N: "N < Suc NBUF" using st h by (auto simp: N_def bhead_def)
  have NA: "A = bhead \<or> N \<noteq> i"
  proof (cases us)
    case Nil
    then show ?thesis using a by (simp add: A_def)
  next
    case (Cons u us')
    then show ?thesis using h i xs by (simp add: N_def)
  qed
  have u: "bnext (bf (ring_unlink i s) x) = (if x = A then C else bnext (bf s x))"
    "bprev (bf (ring_unlink i s) x) = (if x = C then A else bprev (bf s x))"
    "length (bufs (ring_unlink i s)) = Suc NBUF" for x
    using A C len by (simp_all add: ring_unlink_def link_upd Let_def A_def C_def)
  define t where "t = ring_unlink i s"
  define n where "n = (if A = bhead then C else N)"
  have n: "bnext (bf t bhead) = n" by (simp add: t_def u n_def N_def)
  have n': "n \<noteq> i" "n < Suc NBUF" using C N NA by (auto simp: n_def)
  have p: "bnext (bf (ring_push i t) x) = (if x = bhead then i else if x = i then n else bnext (bf t x))"
    "bprev (bf (ring_push i t) x) = (if x = n then i else if x = i then bhead else bprev (bf t x))" for x
    using ih n n' u(3) by (simp_all add: ring_push_def link_upd Let_def t_def [symmetric])
  show ?thesis
    unfolding relink_def A_def [symmetric] C_def [symmetric] N_def [symmetric] n_def [symmetric]
    using p A C by (simp add: t_def u)
qed


lemma linked_join:
  "linked s us \<Longrightarrow> linked s ws \<Longrightarrow>
   (us \<noteq> [] \<Longrightarrow> ws \<noteq> [] \<Longrightarrow> bnext (bf s (last us)) = hd ws \<and> bprev (bf s (hd ws)) = last us) \<Longrightarrow>
   linked s (us @ ws)"
proof (induction us)
  case (Cons x us)
  show ?case
  proof (cases us)
    case Nil
    with Cons.prems show ?thesis by (cases ws) simp_all
  next
    case (Cons y ys)
    with Cons.IH Cons.prems show ?thesis by simp
  qed
qed simp

lemma distinct_last_butlast: "distinct xs \<Longrightarrow> x \<in> set (butlast xs) \<Longrightarrow> x \<noteq> last xs"
  by (cases xs rule: rev_cases) auto

lemma distinct_hd_tl: "distinct xs \<Longrightarrow> x \<in> set (tl xs) \<Longrightarrow> x \<noteq> hd xs"
  by (cases xs) auto

text \<open>Changes of links only.\<close>

definition bcore :: "buf \<Rightarrow> bool \<times> u32 \<times> u32 \<times> u32 \<times> bytes" where
  "bcore b = (bvalid b, bdev b, blockno b, refcnt b, bdata b)"

definition links_only :: "'a bst_scheme \<Rightarrow> 'a bst_scheme \<Rightarrow> bool" where
  "links_only s t \<longleftrightarrow> t = s\<lparr>bufs := bufs t\<rparr> \<and> length (bufs t) = length (bufs s) \<and>
     (\<forall>x. bcore (bf t x) = bcore (bf s x))"

lemma links_only_trans: "links_only s t \<Longrightarrow> links_only t u \<Longrightarrow> links_only s u"
  unfolding links_only_def by (metis (no_types, lifting) bst.surjective bst.update_convs(1))

lemma links_only_upd:
  "links_only s (upd_buf i (\<lambda>b. b\<lparr>bnext := v\<rparr>) s)" "links_only s (upd_buf i (\<lambda>b. b\<lparr>bprev := v\<rparr>) s)"
  by (simp_all add: links_only_def bf_upd_in bcore_def) (simp_all add: upd_buf_def)

lemma links_only_move: "links_only s (ring_push i (ring_unlink i s))"
  unfolding ring_push_def ring_unlink_def Let_def
  by (intro links_only_trans [OF _ links_only_upd(1)] links_only_trans [OF _ links_only_upd(2)] links_only_upd)

text \<open>The links after the move, for the part \<open>us\<close> of the ring before the buffer and the
  part \<open>vs\<close> after it.\<close>

definition moved :: "nat \<Rightarrow> nat list \<Rightarrow> nat list \<Rightarrow> 'a bst_scheme \<Rightarrow> 'a bst_scheme \<Rightarrow> bool" where
  "moved i us vs s t \<longleftrightarrow> distinct (bhead # us @ i # vs) \<and>
     relink i (last (bhead # us)) (hd (vs @ [bhead])) (hd (us @ vs @ [bhead])) s t"

lemma moved_next:
  "moved i us vs s t \<Longrightarrow> bnext (bf t x) = (if x = bhead then i else if x = i then hd (us @ vs @ [bhead])
     else if x = last (bhead # us) then hd (vs @ [bhead]) else bnext (bf s x))"
  by (simp add: moved_def relink_def)

lemma moved_prev:
  "moved i us vs s t \<Longrightarrow> bprev (bf t x) = (if x = hd (us @ vs @ [bhead]) then i else if x = i then bhead
     else if x = hd (vs @ [bhead]) then last (bhead # us) else bprev (bf s x))"
  by (simp add: moved_def relink_def)

lemma hd_snoc_in: "hd (vs @ [a]) \<in> set (vs @ [a])"
  by (rule hd_in_set) simp

lemma last_Cons_in: "last (a # us) \<in> set (a # us)"
  by (rule last_in_set) simp

lemma moved_before:
  assumes m: "moved i us vs s t" and l: "linked s us"
  shows "linked t us"
proof (rule linked_frame [OF l])
  have d: "distinct (bhead # us @ i # vs)" using m by (simp add: moved_def)
  fix x
  show "bnext (bf t x) = bnext (bf s x)" if x: "x \<in> set (butlast us)"
  proof -
    have "x \<noteq> last us" using distinct_last_butlast [OF _ x] d by simp
    moreover have "x \<in> set us" "us \<noteq> []" using x by (auto dest: in_set_butlastD)
    ultimately show ?thesis using d unfolding moved_next [OF m] by auto
  qed
  show "bprev (bf t x) = bprev (bf s x)" if x: "x \<in> set (tl us)"
  proof -
    have "x \<in> set us" "x \<noteq> hd (us @ vs @ [bhead])" using x d by (cases us; auto)+
    then show ?thesis using hd_snoc_in [of vs bhead] d unfolding moved_prev [OF m] by auto
  qed
qed

lemma moved_after:
  assumes m: "moved i us vs s t" and l: "linked s (vs @ [bhead])"
  shows "linked t (vs @ [bhead])"
proof (rule linked_frame [OF l])
  have d: "distinct (bhead # us @ i # vs)" using m by (simp add: moved_def)
  fix x
  show "bnext (bf t x) = bnext (bf s x)" if "x \<in> set (butlast (vs @ [bhead]))"
    using that d last_Cons_in [of bhead us] unfolding moved_next [OF m] by auto
  show "bprev (bf t x) = bprev (bf s x)" if x: "x \<in> set (tl (vs @ [bhead]))"
  proof -
    have "distinct (vs @ [bhead])" using d by auto
    then have "x \<noteq> hd (vs @ [bhead])" using x by (rule distinct_hd_tl)
    moreover have xv: "x \<in> set (vs @ [bhead])" using x by (rule list.set_sel(2) [rotated]) simp
    moreover have "x \<noteq> hd (us @ vs @ [bhead])" using calculation d by (cases us) auto
    ultimately show ?thesis using d unfolding moved_prev [OF m] by auto
  qed
qed

lemma moved_linked:
  assumes m: "moved i us vs s t" and l: "linked s us" "linked s (vs @ [bhead])"
  shows "linked t (bhead # i # us @ vs @ [bhead])"
proof -
  have d: "distinct (bhead # us @ i # vs)" using m by (simp add: moved_def)
  have "linked t (us @ vs @ [bhead])"
  proof (rule linked_join [OF moved_before [OF m l(1)] moved_after [OF m l(2)]])
    assume u: "us \<noteq> []"
    then have in_us: "last us \<in> set us" "hd us \<in> set us" by simp_all
    have "last us \<noteq> bhead" "last us \<noteq> i" "hd (vs @ [bhead]) \<noteq> hd us" "hd (vs @ [bhead]) \<noteq> i"
      using in_us hd_snoc_in [of vs bhead] d by auto
    with u show "bnext (bf t (last us)) = hd (vs @ [bhead]) \<and> bprev (bf t (hd (vs @ [bhead]))) = last us"
      unfolding moved_next [OF m] moved_prev [OF m] by simp
  qed
  then have "linked t ([bhead, i] @ us @ vs @ [bhead])"
  proof (rule linked_join [rotated])
    have "hd (us @ vs @ [bhead]) \<noteq> i" using d hd_in_set [of "us @ vs @ [bhead]"] by auto
    then show "linked t [bhead, i]" using d by (auto simp: moved_next [OF m] moved_prev [OF m])
    show "bnext (bf t (last [bhead, i])) = hd (us @ vs @ [bhead]) \<and>
        bprev (bf t (hd (us @ vs @ [bhead]))) = last [bhead, i]"
      using d by (auto simp: moved_next [OF m] moved_prev [OF m])
  qed
  then show ?thesis by simp
qed

lemma ring_move_front:
  assumes r: "ring s xs" and i: "i < NBUF"
  shows "ring (ring_push i (ring_unlink i s)) (move_front i xs)"
proof -
  let ?t = "ring_push i (ring_unlink i s)"
  obtain us vs where xs: "xs = us @ i # vs" and a: "bprev (bf s i) = last (bhead # us)"
    and c: "bnext (bf s i) = hd (vs @ [bhead])" and h: "bnext (bf s bhead) = hd (xs @ [bhead])"
    and l: "linked s (bhead # us)" "linked s (vs @ [bhead])" and iv: "i \<notin> set us" "i \<notin> set vs"
    using ring_at [OF r i] by metis
  have d: "distinct (bhead # us @ i # vs)" using r xs by (auto simp: ring_def bhead_def)
  have lu: "linked s us" using l(1) by (cases us) simp_all
  have n: "(if last (bhead # us) = bhead then hd (vs @ [bhead]) else hd (xs @ [bhead])) = hd (us @ vs @ [bhead])"
  proof (cases us)
    case (Cons u us')
    have "last us \<in> set us" using Cons by simp
    then have "last us \<noteq> bhead" using d by auto
    then show ?thesis using Cons xs by simp
  qed simp
  have "moved i us vs s ?t"
    using d relink_moves [OF r i] unfolding a c h n moved_def by simp
  from moved_linked [OF this lu l(2)] show ?thesis
    using r xs iv links_only_move [of s i] by (auto simp: ring_def move_front_def links_only_def remove1_append)
qed


text \<open>The two scans of \<^verbatim>\<open>bget\<close> over the ring, within their bound.\<close>

lemma bget_cached_find:
  "linked s (xs @ [bhead]) \<Longrightarrow> bhead \<notin> set xs \<Longrightarrow> length xs < k \<Longrightarrow>
   bget_cached k dev n (hd (xs @ [bhead])) s =
     Ok (find (\<lambda>b. bdev (bf s b) = dev \<and> blockno (bf s b) = n) xs)"
proof (induction xs arbitrary: k)
  case Nil
  then show ?case by (cases k) simp_all
next
  case (Cons x xs)
  obtain k' where k: "k = Suc k'" using Cons.prems(3) by (cases k) simp_all
  have "linked s (xs @ [bhead])" "bnext (bf s x) = hd (xs @ [bhead])"
    using Cons.prems(1) by (cases xs; simp)+
  with Cons.IH [of k'] Cons.prems k show ?case by simp
qed

lemma bget_unused_find:
  "linked s (bhead # xs) \<Longrightarrow> bhead \<notin> set xs \<Longrightarrow> length xs < k \<Longrightarrow>
   bget_unused k (last (bhead # xs)) s = Ok (find (\<lambda>b. refcnt (bf s b) = 0) (rev xs))"
proof (induction xs arbitrary: k rule: rev_induct)
  case Nil
  then show ?case by (cases k) simp_all
next
  case (snoc x xs)
  obtain k' where k: "k = Suc k'" using snoc.prems(3) by (cases k) simp_all
  obtain bs z where z: "bhead # xs = bs @ [z]" by (cases "bhead # xs" rule: rev_cases) auto
  have "linked s ((bhead # xs) @ [x])" using snoc.prems(1) by simp
  then have "linked s (bs @ z # [x])" unfolding z by simp
  then have "linked s (bs @ [z]) \<and> linked s (z # [x])" by (rule linked_split [THEN iffD1])
  then have l: "linked s (bhead # xs)" "bprev (bf s x) = last (bhead # xs)" unfolding z by simp_all
  show ?case
    using snoc.IH [OF l(1), of k'] snoc.prems k l(2) by simp
qed

lemma ring_scans:
  assumes "ring s xs"
  shows "bget_cached (Suc NBUF) dev n (bnext (bf s bhead)) s =
      Ok (find (\<lambda>b. bdev (bf s b) = dev \<and> blockno (bf s b) = n) xs)"
    and "bget_unused (Suc NBUF) (bprev (bf s bhead)) s = Ok (find (\<lambda>b. refcnt (bf s b) = 0) (rev xs))"
proof -
  have l: "linked s (bhead # xs @ [bhead])" and d: "distinct xs" "set xs = {0..<NBUF}"
    using assms by (simp_all add: ring_def)
  have len: "length xs = NBUF" using distinct_card [OF d(1)] d(2) by simp
  have h: "bhead \<notin> set xs" using d(2) by (simp add: bhead_def)
  have lx: "linked s (xs @ [bhead])" "bnext (bf s bhead) = hd (xs @ [bhead])"
    using l by (cases xs; simp)+
  show "bget_cached (Suc NBUF) dev n (bnext (bf s bhead)) s =
      Ok (find (\<lambda>b. bdev (bf s b) = dev \<and> blockno (bf s b) = n) xs)"
    unfolding lx(2) by (rule bget_cached_find [OF lx(1) h]) (simp add: len)
  obtain bs z where z: "bhead # xs = bs @ [z]" by (cases "bhead # xs" rule: rev_cases) auto
  have "linked s ((bhead # xs) @ [bhead])" using l by simp
  then have "linked s (bs @ z # [bhead])" unfolding z by simp
  then have "linked s (bs @ [z]) \<and> linked s (z # [bhead])" by (rule linked_split [THEN iffD1])
  then have l2: "linked s (bhead # xs)" "bprev (bf s bhead) = last (bhead # xs)" unfolding z by simp_all
  show "bget_unused (Suc NBUF) (bprev (bf s bhead)) s = Ok (find (\<lambda>b. refcnt (bf s b) = 0) (rev xs))"
    unfolding l2(2) by (rule bget_unused_find [OF l2(1) h]) (simp add: len)
qed


text \<open>\<^verbatim>\<open>binit\<close> builds the ring.\<close>

lemma ring_push_linked:
  assumes l: "linked s (bhead # xs @ [bhead])" and len: "length (bufs s) = Suc NBUF"
    and d: "distinct (bhead # i # xs)" and b: "\<forall>x\<in>set (i # xs). x < NBUF"
  shows "linked (ring_push i s) (bhead # i # xs @ [bhead])"
proof -
  let ?t = "ring_push i s" and ?n = "hd (xs @ [bhead])"
  have n: "bnext (bf s bhead) = ?n" and lx: "linked s (xs @ [bhead])" using l by (cases xs; simp)+
  have nn: "?n \<noteq> i" "?n < Suc NBUF" "bhead < Suc NBUF" "i < Suc NBUF" "i \<noteq> bhead"
    using hd_snoc_in [of xs bhead] d b by (auto simp: bhead_def)
  have N: "bnext (bf ?t x) = (if x = bhead then i else if x = i then ?n else bnext (bf s x))"
    and P: "bprev (bf ?t x) = (if x = ?n then i else if x = i then bhead else bprev (bf s x))" for x
    using nn len n by (simp_all add: ring_push_def link_upd Let_def)
  have "linked ?t (xs @ [bhead])"
  proof (rule linked_frame [OF lx])
    show "bnext (bf ?t x) = bnext (bf s x)" if "x \<in> set (butlast (xs @ [bhead]))" for x
      using that d unfolding N by auto
    show "bprev (bf ?t x) = bprev (bf s x)" if x: "x \<in> set (tl (xs @ [bhead]))" for x
    proof -
      have "x \<noteq> ?n" by (rule distinct_hd_tl [OF _ x]) (use d in auto)
      moreover have "x \<in> set (xs @ [bhead])" using x by (rule list.set_sel(2) [rotated]) simp
      ultimately show ?thesis using d unfolding P by auto
    qed
  qed
  then have "linked ?t ([bhead, i] @ xs @ [bhead])"
    by (rule linked_join [rotated]) (use nn in \<open>simp_all add: N P\<close>)
  then show ?thesis by simp
qed

lemma ring_push_length [simp]: "length (bufs (ring_push i s)) = length (bufs s)"
  by (simp add: ring_push_def Let_def)

lemma initsleeplock_frame [simp]:
  "bf (initsleeplock lk s) x = bf s x" "bufs (initsleeplock lk s) = bufs s"
  by (simp_all add: initsleeplock_def set_slk_def bf_def)

lemma linked_initsleeplock [simp]: "linked (initsleeplock lk s) xs \<longleftrightarrow> linked s xs"
  by (induction s xs rule: linked.induct) simp_all

lemma binit_loop_linked:
  "linked s (bhead # xs @ [bhead]) \<Longrightarrow> length (bufs s) = Suc NBUF \<Longrightarrow>
   distinct (is @ xs) \<Longrightarrow> \<forall>x\<in>set (is @ xs). x < NBUF \<Longrightarrow>
   linked (binit_loop is s) (bhead # (rev is @ xs) @ [bhead]) \<and> length (bufs (binit_loop is s)) = Suc NBUF"
proof (induction "is" arbitrary: s xs)
  case (Cons i "is")
  have "linked (ring_push i (initsleeplock (Slk_buf i) s)) (bhead # (i # xs) @ [bhead])"
    using ring_push_linked [of "initsleeplock (Slk_buf i) s" xs i] Cons.prems by (auto simp: bhead_def)
  from Cons.IH [OF this] Cons.prems show ?case by simp
qed simp

lemma binit_ring:
  assumes "length (bufs s) = Suc NBUF"
  shows "ring (binit s) (rev [0..<NBUF])"
proof -
  let ?s = "upd_buf bhead (\<lambda>b. b\<lparr>bnext := bhead\<rparr>) (upd_buf bhead (\<lambda>b. b\<lparr>bprev := bhead\<rparr>) s)"
  have "linked ?s (bhead # [] @ [bhead])"
    using assms by (simp add: bf_upd_in bhead_def)
  from binit_loop_linked [OF this, of "[0..<NBUF]"] assms show ?thesis
    by (simp add: ring_def binit_def Let_def atLeast0LessThan lessThan_def)
qed

end
