(* ===== verification/Bio_View.thy ===== *)
theory Bio_View
  imports Bio
begin

text \<open>
  The contract of the buffer cache: a reference-counted, lockable view of the disk.
  The abstract state forgets the slots and the ring; every operation of \<^verbatim>\<open>bio.c\<close> is
  an update of it. The invariant says that the ring is intact, that no block is
  cached twice, and that a buffer nobody refers to agrees with the disk, so that
  recycling it loses nothing.
\<close>

section \<open>The abstract cache\<close>

record bview =
  vdisk :: "u32 \<Rightarrow> bytes"
  vcont :: "u32 \<Rightarrow> bytes"
  vrefs :: "u32 \<Rightarrow> nat"
  vlock :: "u32 \<Rightarrow> int option"
  vwrites :: "(u32 \<times> bytes) list"

definition cached :: "'a bst_scheme \<Rightarrow> u32 \<Rightarrow> nat \<Rightarrow> bool" where
  "cached s n i \<longleftrightarrow> i < NBUF \<and> bdev (bf s i) = ROOTDEV \<and> blockno (bf s i) = n"

definition slot :: "'a bst_scheme \<Rightarrow> u32 \<Rightarrow> nat option" where
  "slot s n = find (cached s n) [0..<NBUF]"

definition blk_cont :: "'a bst_scheme \<Rightarrow> u32 \<Rightarrow> bytes" where
  "blk_cont s n = (case slot s n of None \<Rightarrow> disk s n
     | Some i \<Rightarrow> if bvalid (bf s i) then bdata (bf s i) else disk s n)"

definition blk_refs :: "'a bst_scheme \<Rightarrow> u32 \<Rightarrow> nat" where
  "blk_refs s n = (case slot s n of None \<Rightarrow> 0 | Some i \<Rightarrow> unat (refcnt (bf s i)))"

definition blk_lock :: "'a bst_scheme \<Rightarrow> u32 \<Rightarrow> int option" where
  "blk_lock s n = (case slot s n of None \<Rightarrow> None
     | Some i \<Rightarrow> if slocked (slks s (Slk_buf i)) then Some (spid (slks s (Slk_buf i))) else None)"

definition bview :: "'a bst_scheme \<Rightarrow> bview" where
  "bview s = \<lparr>vdisk = disk s, vcont = blk_cont s, vrefs = blk_refs s, vlock = blk_lock s,
     vwrites = writes s\<rparr>"

definition buf_ok :: "'a bst_scheme \<Rightarrow> nat \<Rightarrow> bool" where
  "buf_ok s i \<longleftrightarrow>
     (bdev (bf s i) = ROOTDEV \<or> bdev (bf s i) = 0 \<and> \<not> bvalid (bf s i) \<and> refcnt (bf s i) = 0) \<and>
     (slocked (slks s (Slk_buf i)) \<longrightarrow> refcnt (bf s i) \<noteq> 0) \<and>
     (bvalid (bf s i) \<longrightarrow> length (bdata (bf s i)) = BSIZE) \<and>
     (bvalid (bf s i) \<longrightarrow> refcnt (bf s i) = 0 \<longrightarrow> bdata (bf s i) = disk s (blockno (bf s i)))"

definition bio_ok :: "'a bst_scheme \<Rightarrow> bool" where
  "bio_ok s \<longleftrightarrow> (\<exists>xs. ring s xs) \<and> (\<forall>i<NBUF. buf_ok s i) \<and>
     (\<forall>n i j. cached s n i \<longrightarrow> cached s n j \<longrightarrow> i = j) \<and> (\<forall>n. length (disk s n) = BSIZE)"

text \<open>What an operation of the cache leaves alone.\<close>

definition bframe :: "'a bst_scheme \<Rightarrow> 'a bst_scheme \<Rightarrow> bool" where
  "bframe s t \<longleftrightarrow>
     (\<exists>ps sl bs d w. t = s\<lparr>procs := ps, slks := sl, bufs := bs, disk := d, writes := w\<rparr>) \<and>
     woken (curproc s) (procs s) (procs t) \<and>
     (\<forall>k. slks t (Slk_inode k) = slks s (Slk_inode k)) \<and>
     (\<forall>n i. cached s n i \<longrightarrow> 0 < blk_refs s n \<longrightarrow>
        cached t n i \<and> (bvalid (bf s i) \<longrightarrow> bvalid (bf t i)))"

lemma find_SomeD: "find P xs = Some x \<Longrightarrow> x \<in> set xs \<and> P x"
  by (auto simp: find_Some_iff)

lemma slot_None: "slot s n = None \<longleftrightarrow> (\<forall>i. \<not> cached s n i)"
  by (auto simp: slot_def find_None_iff cached_def)

lemma slot_Some: "bio_ok s \<Longrightarrow> slot s n = Some i \<longleftrightarrow> cached s n i"
proof
  assume ok: "bio_ok s" and c: "cached s n i"
  then obtain j where j: "slot s n = Some j" using slot_None [of s n] by (cases "slot s n") auto
  then have "cached s n j" by (auto simp: slot_def find_Some_iff)
  with ok c j show "slot s n = Some i" unfolding bio_ok_def by blast
qed (auto simp: slot_def find_Some_iff)

lemma slot_cong:
  "(\<And>i. i < NBUF \<Longrightarrow> bdev (bf t i) = bdev (bf s i) \<and> blockno (bf t i) = blockno (bf s i)) \<Longrightarrow> slot t = slot s"
  by (rule ext) (auto simp: slot_def cached_def intro!: find_cong)

lemma view_cached:
  assumes "bio_ok s" "cached s n i"
  shows "blk_refs s n = unat (refcnt (bf s i))"
    "bvalid (bf s i) \<Longrightarrow> blk_cont s n = bdata (bf s i)"
    "blk_lock s n = (if slocked (slks s (Slk_buf i)) then Some (spid (slks s (Slk_buf i))) else None)"
  using slot_Some [OF assms(1), of n i] assms(2) by (simp_all add: blk_refs_def blk_cont_def blk_lock_def)


lemma view_idem:
  assumes "bio_ok s" "cached s n i"
  shows "(blk_cont s)(n := if bvalid (bf s i) then bdata (bf s i) else disk s n) = blk_cont s"
    "(blk_refs s)(n := unat (refcnt (bf s i))) = blk_refs s"
    "(blk_lock s)(n := if slocked (slks s (Slk_buf i)) then Some (spid (slks s (Slk_buf i))) else None) = blk_lock s"
  using slot_Some [OF assms(1), of n i] assms(2)
  by (intro fun_upd_idem; simp add: blk_refs_def blk_cont_def blk_lock_def)+

lemma set_slk_sels:
  "disk (set_slk lk b n s) = disk s" "writes (set_slk lk b n s) = writes s"
  "slks (set_slk lk b n s) lk = \<lparr>slocked = b, spid = n\<rparr>"
  by (simp_all add: set_slk_def)

section \<open>One slot changes\<close>

definition touches :: "nat \<Rightarrow> 'a bst_scheme \<Rightarrow> 'a bst_scheme \<Rightarrow> bool" where
  "touches i s t \<longleftrightarrow>
     (\<forall>x. x \<noteq> i \<longrightarrow> bcore (bf t x) = bcore (bf s x)) \<and>
     bdev (bf t i) = bdev (bf s i) \<and> blockno (bf t i) = blockno (bf s i) \<and>
     (\<forall>k. k \<noteq> i \<longrightarrow> slks t (Slk_buf k) = slks s (Slk_buf k)) \<and>
     (\<forall>m. m \<noteq> blockno (bf s i) \<longrightarrow> disk t m = disk s m)"

lemma bcore_eqD:
  "bcore a = bcore b \<Longrightarrow> bvalid a = bvalid b" "bcore a = bcore b \<Longrightarrow> bdev a = bdev b"
  "bcore a = bcore b \<Longrightarrow> blockno a = blockno b" "bcore a = bcore b \<Longrightarrow> refcnt a = refcnt b"
  "bcore a = bcore b \<Longrightarrow> bdata a = bdata b"
  by (simp_all add: bcore_def)

lemma touches_id: "touches i s t \<Longrightarrow> bdev (bf t x) = bdev (bf s x) \<and> blockno (bf t x) = blockno (bf s x)"
  by (cases "x = i") (auto simp: touches_def dest: bcore_eqD)

lemma touches_cached: "touches i s t \<Longrightarrow> cached t n j \<longleftrightarrow> cached s n j"
  using touches_id [of i s t j] by (simp add: cached_def)

lemma touches_slot: "touches i s t \<Longrightarrow> slot t = slot s"
  by (rule slot_cong) (rule touches_id)

lemma touches_view:
  assumes "touches i s t" "bio_ok s" "cached s n i"
  shows "blk_refs t = (blk_refs s)(n := unat (refcnt (bf t i)))"
    "blk_lock t = (blk_lock s)(n := if slocked (slks t (Slk_buf i)) then Some (spid (slks t (Slk_buf i))) else None)"
    "blk_cont t = (blk_cont s)(n := if bvalid (bf t i) then bdata (bf t i) else disk t n)"
    "disk t = (disk s)(n := disk t n)"
proof -
  have sl: "slot t = slot s" using assms(1) by (rule touches_slot)
  have i: "slot s n = Some i" using assms(2,3) by (simp add: slot_Some)
  have other: "j \<noteq> i" "blockno (bf s i) \<noteq> m" if "slot s m = Some j" "m \<noteq> n" for m j
    using that i assms(2,3) by (auto simp: slot_Some cached_def)
  have n: "blockno (bf s i) = n" using assms(3) by (simp add: cached_def)
  have core: "bcore (bf t j) = bcore (bf s j)" "slks t (Slk_buf j) = slks s (Slk_buf j)" if "j \<noteq> i" for j
    using assms(1) that by (simp_all add: touches_def)
  have d: "disk t m = disk s m" if "m \<noteq> n" for m using assms(1) n that by (auto simp: touches_def)
  show "blk_refs t = (blk_refs s)(n := unat (refcnt (bf t i)))"
    by (rule ext) (auto simp: blk_refs_def sl i split: option.split dest!: other(1) core(1) bcore_eqD(4))
  show "blk_lock t = (blk_lock s)(n := if slocked (slks t (Slk_buf i)) then Some (spid (slks t (Slk_buf i))) else None)"
    by (rule ext) (auto simp: blk_lock_def sl i split: option.split dest!: other(1) core(2))
  show "blk_cont t = (blk_cont s)(n := if bvalid (bf t i) then bdata (bf t i) else disk t n)"
  proof
    fix m
    show "blk_cont t m = ((blk_cont s)(n := if bvalid (bf t i) then bdata (bf t i) else disk t n)) m"
    proof (cases "m = n")
      case False
      then show ?thesis
        using d [OF False] other [of m] core(1) [THEN bcore_eqD(1)] core(1) [THEN bcore_eqD(5)]
        by (auto simp: blk_cont_def sl split: option.split)
    qed (simp add: blk_cont_def sl i)
  qed
  show "disk t = (disk s)(n := disk t n)" by (rule ext) (simp add: d)
qed

lemma touches_bio_ok:
  assumes "touches i s t" "bio_ok s" "cached s n i" "ring t ys" "buf_ok t i" "length (disk t n) = BSIZE"
  shows "bio_ok t"
  unfolding bio_ok_def
proof (intro conjI allI impI)
  show "\<exists>xs. ring t xs" using assms(4) by blast
  show "length (disk t m) = BSIZE" for m
  proof (cases "m = n")
    case False
    then have "disk t m = disk s m" by (subst touches_view(4) [OF assms(1-3)]) simp
    then show ?thesis using assms(2) by (simp add: bio_ok_def)
  qed (use assms(6) in simp)
  show "j = k" if "cached t m j" "cached t m k" for m j k
    using that assms(2) unfolding touches_cached [OF assms(1)] bio_ok_def by blast
  show "buf_ok t j" if "j < NBUF" for j
  proof (cases "j = i")
    case False
    have c: "bcore (bf t j) = bcore (bf s j)" "slks t (Slk_buf j) = slks s (Slk_buf j)"
      using assms(1) False by (simp_all add: touches_def)
    have ok: "buf_ok s j" using assms(2) that by (simp add: bio_ok_def)
    have "disk t (blockno (bf s j)) = disk s (blockno (bf s j))" if b: "bdev (bf s j) = ROOTDEV"
    proof -
      have "cached s (blockno (bf s j)) j" using b \<open>j < NBUF\<close> by (simp add: cached_def)
      then have "blockno (bf s j) \<noteq> n" using False assms(2,3) unfolding bio_ok_def by blast
      then show ?thesis using touches_view(4) [OF assms(1-3)] by (metis fun_upd_other)
    qed
    with ok show ?thesis by (auto simp: buf_ok_def bcore_eqD [OF c(1)] c(2))
  qed (use assms(5) in simp)
qed


section \<open>Finding or recycling a buffer\<close>

lemma linked_cong:
  "(\<And>x. bnext (bf t x) = bnext (bf s x) \<and> bprev (bf t x) = bprev (bf s x)) \<Longrightarrow> linked t xs = linked s xs"
  by (induction s xs rule: linked.induct) simp_all

lemma ring_cong:
  assumes "length (bufs t) = length (bufs s)"
    "\<And>x. bnext (bf t x) = bnext (bf s x) \<and> bprev (bf t x) = bprev (bf s x)"
  shows "ring t xs = ring s xs"
  by (simp add: ring_def assms(1) linked_cong [OF assms(2)])

lemma ring_upd_buf:
  assumes "\<And>b. bnext (f b) = bnext b \<and> bprev (f b) = bprev b"
  shows "ring (upd_buf i f s) xs = ring s xs"
  by (rule ring_cong) (simp_all add: bf_upd_in assms)

lemma ring_frame [simp]:
  "ring (s\<lparr>held := h\<rparr>) xs = ring s xs" "ring (s\<lparr>procs := ps\<rparr>) xs = ring s xs"
  "ring (set_slk lk b n s) xs = ring s xs" "ring (s\<lparr>disk := d, writes := w\<rparr>) xs = ring s xs"
  by (rule ring_cong; simp add: set_slk_def bf_def)+

definition room :: "u32 \<Rightarrow> 'a bst_scheme \<Rightarrow> bool" where
  "room n s \<longleftrightarrow> 0 < blk_refs s n \<or> card {m. 0 < blk_refs s m} < NBUF"

text \<open>If every buffer is referred to, there are as many blocks in use as buffers.\<close>

lemma room_unused:
  assumes ok: "bio_ok s" and "card {m. 0 < blk_refs s m} < NBUF"
  shows "\<exists>i<NBUF. refcnt (bf s i) = 0"
proof (rule ccontr)
  assume "\<not> (\<exists>i<NBUF. refcnt (bf s i) = 0)"
  then have all: "refcnt (bf s i) \<noteq> 0" if "i < NBUF" for i using that by auto
  have c: "cached s (blockno (bf s i)) i" if "i < NBUF" for i
    using ok that all [OF that] by (auto simp: bio_ok_def buf_ok_def cached_def)
  have "inj_on (\<lambda>i. blockno (bf s i)) {0..<NBUF}"
    using ok c unfolding bio_ok_def by (auto intro!: inj_onI) (metis c)
  then have "card ((\<lambda>i. blockno (bf s i)) ` {0..<NBUF}) = NBUF" by (simp add: card_image)
  moreover have "(\<lambda>i. blockno (bf s i)) ` {0..<NBUF} \<subseteq> {m. 0 < blk_refs s m}"
    using view_cached(1) [OF ok c] all by (auto simp: unat_gt_0)
  moreover have "finite {m. 0 < blk_refs s m}" by simp
  ultimately show False using assms(2) card_mono by (metis leD)
qed

definition recycle :: "nat \<Rightarrow> u32 \<Rightarrow> 'a bst_scheme \<Rightarrow> 'a bst_scheme" where
  "recycle i n s = upd_buf i (\<lambda>f. f\<lparr>bdev := ROOTDEV, blockno := n, bvalid := False, refcnt := 1\<rparr>) s"

lemma bf_recycle:
  "bio_ok s \<Longrightarrow> i < NBUF \<Longrightarrow> bf (recycle i n s) x =
     (if x = i then (bf s i)\<lparr>bdev := ROOTDEV, blockno := n, bvalid := False, refcnt := 1\<rparr> else bf s x)"
  by (auto simp: recycle_def bf_upd_in bio_ok_def ring_def)

lemma cached_recycle:
  "bio_ok s \<Longrightarrow> i < NBUF \<Longrightarrow> cached (recycle i n s) m j \<longleftrightarrow> (if j = i then m = n else cached s m j)"
  by (auto simp: cached_def bf_recycle)

lemma recycle_frame [simp]:
  "disk (recycle i n s) = disk s" "slks (recycle i n s) = slks s" "writes (recycle i n s) = writes s"
  "ring (recycle i n s) xs = ring s xs"
  by (simp_all add: recycle_def ring_upd_buf)

lemma recycle_ok:
  assumes ok: "bio_ok s" and i: "i < NBUF" "refcnt (bf s i) = 0" and n: "slot s n = None"
  shows "bio_ok (recycle i n s)"
  unfolding bio_ok_def
proof (intro conjI allI impI)
  show "\<exists>xs. ring (recycle i n s) xs" using ok by (simp add: bio_ok_def)
  show "length (disk (recycle i n s) m) = BSIZE" for m using ok by (simp add: bio_ok_def)
  show "j = k" if "cached (recycle i n s) m j" "cached (recycle i n s) m k" for m j k
    using that n ok unfolding cached_recycle [OF ok i(1)] slot_None bio_ok_def by (auto split: if_splits)
  show "buf_ok (recycle i n s) j" if "j < NBUF" for j
    using ok that i by (auto simp: buf_ok_def bf_recycle [OF ok i(1)] bio_ok_def)
qed

lemma slot_recycle:
  assumes ok: "bio_ok s" and i: "i < NBUF" "refcnt (bf s i) = 0" and n: "slot s n = None"
  shows "slot (recycle i n s) m = (if m = n then Some i else if slot s m = Some i then None else slot s m)"
proof -
  note ok' = recycle_ok [OF assms]
  have n': "slot (recycle i n s) n = Some i"
    by (simp add: slot_Some [OF ok'] cached_recycle [OF ok i(1)])
  show ?thesis
  proof (cases "slot s m")
    case None
    then have "slot (recycle i n s) m = None" if "m \<noteq> n"
      using that by (simp add: slot_None cached_recycle [OF ok i(1)])
    with None n' show ?thesis by simp
  next
    case (Some j)
    then have j: "cached s m j" by (simp add: slot_Some [OF ok])
    have "slot (recycle i n s) m = (if j = i then None else Some j)" if "m \<noteq> n"
    proof (cases "j = i")
      case True
      have "\<not> cached s m k" if "k \<noteq> i" for k using True that j ok unfolding bio_ok_def by blast
      with True \<open>m \<noteq> n\<close> show ?thesis by (simp add: slot_None cached_recycle [OF ok i(1)])
    next
      case False
      with j show ?thesis by (simp add: slot_Some [OF ok'] cached_recycle [OF ok i(1)])
    qed
    with Some n' show ?thesis by simp
  qed
qed

lemma recycle_view:
  assumes ok: "bio_ok s" and i: "i < NBUF" "refcnt (bf s i) = 0" and n: "slot s n = None"
  shows "blk_refs (recycle i n s) = (blk_refs s)(n := 1)" "blk_lock (recycle i n s) = blk_lock s"
    "blk_cont (recycle i n s) = blk_cont s"
proof -
  note sl = slot_recycle [OF assms]
  have l: "\<not> slocked (slks s (Slk_buf i))" using ok i by (auto simp: bio_ok_def buf_ok_def)
  have d: "bdata (bf s i) = disk s m" if "slot s m = Some i" "bvalid (bf s i)" for m
    using ok i that by (auto simp: bio_ok_def buf_ok_def slot_Some [OF ok] cached_def)
  show "blk_refs (recycle i n s) = (blk_refs s)(n := 1)"
    by (rule ext) (auto simp: blk_refs_def sl bf_recycle [OF ok i(1)] i(2) split: option.split)
  show "blk_lock (recycle i n s) = blk_lock s"
    by (rule ext) (auto simp: blk_lock_def sl l n split: option.split)
  show "blk_cont (recycle i n s) = blk_cont s"
    by (rule ext) (auto simp: blk_cont_def sl bf_recycle [OF ok i(1)] n d split: option.split)
qed


section \<open>The operations on the abstract cache\<close>

definition v_get :: "u32 \<Rightarrow> int \<Rightarrow> bview \<Rightarrow> bview" where
  "v_get n p v = v\<lparr>vrefs := (vrefs v)(n := vrefs v n + 1), vlock := (vlock v)(n := Some p)\<rparr>"

definition v_put :: "u32 \<Rightarrow> bview \<Rightarrow> bview" where
  "v_put n v = v\<lparr>vlock := (vlock v)(n := None), vrefs := (vrefs v)(n := vrefs v n - 1)\<rparr>"

definition v_set :: "u32 \<Rightarrow> bytes \<Rightarrow> bview \<Rightarrow> bview" where
  "v_set n bs v = v\<lparr>vcont := (vcont v)(n := bs)\<rparr>"

definition v_write :: "u32 \<Rightarrow> bview \<Rightarrow> bview" where
  "v_write n v = v\<lparr>vdisk := (vdisk v)(n := vcont v n), vwrites := vwrites v @ [(n, vcont v n)]\<rparr>"

definition v_pin :: "u32 \<Rightarrow> bview \<Rightarrow> bview" where
  "v_pin n v = v\<lparr>vrefs := (vrefs v)(n := vrefs v n + 1)\<rparr>"

definition v_unpin :: "u32 \<Rightarrow> bview \<Rightarrow> bview" where
  "v_unpin n v = v\<lparr>vrefs := (vrefs v)(n := vrefs v n - 1)\<rparr>"

text \<open>\<open>bop s f t\<close>: an operation that took \<open>s\<close> to \<open>t\<close> did \<open>f\<close> to the abstract cache.
  \<open>got s n i\<close>: the running process has block \<open>n\<close> locked in buffer \<open>i\<close>.\<close>

definition bop :: "'a bst_scheme \<Rightarrow> (bview \<Rightarrow> bview) \<Rightarrow> 'a bst_scheme \<Rightarrow> bool" where
  "bop s f t \<longleftrightarrow> bio_ok t \<and> bview t = f (bview s) \<and> bframe s t"

definition got :: "'a bst_scheme \<Rightarrow> u32 \<Rightarrow> nat \<Rightarrow> bool" where
  "got s n i \<longleftrightarrow> cached s n i \<and> bvalid (bf s i) \<and> blk_lock s n = Some (mypid s)"

lemma bview_eqI:
  "vdisk v = vdisk w \<Longrightarrow> vcont v = vcont w \<Longrightarrow> vrefs v = vrefs w \<Longrightarrow> vlock v = vlock w \<Longrightarrow>
   vwrites v = vwrites w \<Longrightarrow> v = (w :: bview)"
  by simp

lemma bview_sels [simp]:
  "vdisk (bview s) = disk s" "vcont (bview s) = blk_cont s" "vrefs (bview s) = blk_refs s"
  "vlock (bview s) = blk_lock s" "vwrites (bview s) = writes s"
  by (simp_all add: bview_def)

lemma bframe_calm:
  assumes "bframe s t" "calm s"
  shows "calm t" "mypid t = mypid s"
proof -
  have e: "curproc t = curproc s" "held t = held s" and w: "woken (curproc s) (procs s) (procs t)"
    using assms(1) by (auto simp: bframe_def)
  show "calm t" using assms(2) e woken_length [OF w] by (simp add: calm_def)
  show "mypid t = mypid s"
    using assms(2) e woken_pid [OF w] by (auto simp: calm_def mypid_def pr_def)
qed

lemma bframe_got:
  assumes "bframe s t" "calm s" "bio_ok s" "got s n i" "blk_lock t n = blk_lock s n"
  shows "got t n i"
proof -
  have "cached s n i" using assms(4) by (simp add: got_def)
  moreover have "0 < blk_refs s n"
    using view_cached(1,3) [OF assms(3) calculation] assms(3,4) calculation
    by (auto simp: got_def bio_ok_def buf_ok_def cached_def unat_gt_0 split: if_splits)
  ultimately show ?thesis
    using assms(1,4,5) bframe_calm(2) [OF assms(1,2)] by (auto simp: got_def bframe_def)
qed

lemma bop_calm: "bop s f t \<Longrightarrow> calm s \<Longrightarrow> calm t \<and> mypid t = mypid s \<and> bio_ok t"
  using bframe_calm by (auto simp: bop_def)

lemma bop_sels:
  assumes "bop s f t"
  shows "blk_refs t = vrefs (f (bview s))" "blk_cont t = vcont (f (bview s))"
    "blk_lock t = vlock (f (bview s))" "disk t = vdisk (f (bview s))" "writes t = vwrites (f (bview s))"
proof -
  have "bview t = f (bview s)" using assms by (simp add: bop_def)
  then show "blk_refs t = vrefs (f (bview s))" "blk_cont t = vcont (f (bview s))"
    "blk_lock t = vlock (f (bview s))" "disk t = vdisk (f (bview s))" "writes t = vwrites (f (bview s))"
    by (metis bview_sels)+
qed

text \<open>A change of one slot, as an operation.\<close>

lemma touches_bop:
  assumes t: "touches i s t" and ok: "bio_ok s" and c: "cached s n i" and r: "\<And>xs. ring s xs \<Longrightarrow> \<exists>ys. ring t ys"
    and b: "buf_ok t i" "length (disk t n) = BSIZE"
    and f: "\<exists>ps sl bs d w. t = s\<lparr>procs := ps, slks := sl, bufs := bs, disk := d, writes := w\<rparr>"
      "woken (curproc s) (procs s) (procs t)" "\<And>k. slks t (Slk_inode k) = slks s (Slk_inode k)"
      "bvalid (bf s i) \<Longrightarrow> bvalid (bf t i)"
    and v: "f (bview s) = \<lparr>vdisk = (disk s)(n := disk t n),
       vcont = (blk_cont s)(n := if bvalid (bf t i) then bdata (bf t i) else disk t n),
       vrefs = (blk_refs s)(n := unat (refcnt (bf t i))),
       vlock = (blk_lock s)(n := if slocked (slks t (Slk_buf i)) then Some (spid (slks t (Slk_buf i))) else None),
       vwrites = writes t\<rparr>"
  shows "bop s f t"
proof -
  obtain xs where "ring s xs" using ok by (auto simp: bio_ok_def)
  then obtain ys where "ring t ys" using r by blast
  then have "bio_ok t" by (rule touches_bio_ok [OF t ok c _ b])
  moreover have "bview t = f (bview s)"
    unfolding v by (rule bview_eqI; simp only: bview_sels bview.select_convs; rule touches_view [OF t ok c] refl)
  moreover have "bvalid (bf s j) \<Longrightarrow> bvalid (bf t j)" for j
    using t f(4) by (cases "j = i") (auto simp: touches_def dest: bcore_eqD)
  ultimately show ?thesis
    using f unfolding bop_def bframe_def touches_cached [OF t] by blast
qed


lemma bf_upd_cached: "bio_ok s \<Longrightarrow> cached s n i \<Longrightarrow> bf (upd_buf i f s) j = (if j = i then f (bf s i) else bf s j)"
  by (auto simp: bf_upd_in bio_ok_def ring_def cached_def)

lemma cached_length: "bio_ok s \<Longrightarrow> cached s n i \<Longrightarrow> i < length (bufs s)"
  by (auto simp: bio_ok_def ring_def cached_def)

lemma cached_buf_ok: "bio_ok s \<Longrightarrow> cached s n i \<Longrightarrow> buf_ok s i"
  by (simp add: bio_ok_def cached_def)

definition incref :: "nat \<Rightarrow> 'a bst_scheme \<Rightarrow> 'a bst_scheme" where
  "incref i s = upd_buf i (\<lambda>f. f\<lparr>refcnt := refcnt f + 1\<rparr>) s"

definition decref :: "nat \<Rightarrow> 'a bst_scheme \<Rightarrow> 'a bst_scheme" where
  "decref i s = upd_buf i (\<lambda>f. f\<lparr>refcnt := refcnt f - 1\<rparr>) s"

text \<open>A change of the buffer at one slot that keeps its identity and its place in the
  ring.\<close>

lemma upd_buf_bop:
  assumes ok: "bio_ok s" and c: "cached s n i"
    and f: "bdev (f (bf s i)) = bdev (bf s i)" "blockno (f (bf s i)) = blockno (bf s i)"
      "\<And>b. bnext (f b) = bnext b \<and> bprev (f b) = bprev b" "bvalid (bf s i) \<Longrightarrow> bvalid (f (bf s i))"
    and b: "buf_ok (upd_buf i f s) i"
    and v: "g (bview s) = (bview s)\<lparr>
       vcont := (blk_cont s)(n := if bvalid (f (bf s i)) then bdata (f (bf s i)) else disk s n),
       vrefs := (blk_refs s)(n := unat (refcnt (f (bf s i))))\<rparr>"
  shows "bop s g (upd_buf i f s)"
proof (rule touches_bop [OF _ ok c _ b])
  note bf = bf_upd_cached [OF ok c, of f]
  show "touches i s (upd_buf i f s)" using f by (simp add: touches_def bf)
  show "\<exists>ys. ring (upd_buf i f s) ys" if "ring s xs" for xs
    using that ring_upd_buf [of f] f(3) by blast
  show "length (disk (upd_buf i f s) n) = BSIZE" using ok by (simp add: bio_ok_def)
  show "\<exists>ps sl bs d w. upd_buf i f s = s\<lparr>procs := ps, slks := sl, bufs := bs, disk := d, writes := w\<rparr>"
    by (rule exI [of _ "procs s"], rule exI [of _ "slks s"], rule exI, rule exI [of _ "disk s"],
        rule exI [of _ "writes s"]) (simp add: upd_buf_def)
  show "bvalid (bf s i) \<Longrightarrow> bvalid (bf (upd_buf i f s) i)" using f(4) by (simp add: bf)
  show "g (bview s) = \<lparr>vdisk = (disk s)(n := disk (upd_buf i f s) n),
       vcont = (blk_cont s)(n := if bvalid (bf (upd_buf i f s) i) then bdata (bf (upd_buf i f s) i)
         else disk (upd_buf i f s) n),
       vrefs = (blk_refs s)(n := unat (refcnt (bf (upd_buf i f s) i))),
       vlock = (blk_lock s)(n := if slocked (slks (upd_buf i f s) (Slk_buf i))
         then Some (spid (slks (upd_buf i f s) (Slk_buf i))) else None),
       vwrites = writes (upd_buf i f s)\<rparr>"
    unfolding v by (simp only: upd_buf_simps bf refl if_True fun_upd_triv
        view_idem(3) [OF ok c] bview_def bview.update_convs)
qed simp_all

lemma incref_bop:
  assumes ok: "bio_ok s" and c: "cached s n i" and ov: "blk_refs s n + 1 < 2 ^ 32"
  shows "bop s (v_pin n) (incref i s)" "refcnt (bf (incref i s) i) \<noteq> 0"
proof -
  have "unat (refcnt (bf s i)) + 1 < 2 ^ 32" using ov view_cached(1) [OF ok c] by simp
  then have u: "unat (refcnt (bf s i) + 1) = unat (refcnt (bf s i)) + 1"
    using unat_add_lem [of "refcnt (bf s i)" 1] by simp
  then have nz: "refcnt (bf s i) + 1 \<noteq> 0" by (auto simp: word_unat_eq_iff)
  show "refcnt (bf (incref i s) i) \<noteq> 0" using nz by (simp add: incref_def bf_upd_cached [OF ok c])
  show "bop s (v_pin n) (incref i s)"
    unfolding incref_def
  proof (rule upd_buf_bop [OF ok c])
    show "buf_ok (upd_buf i (\<lambda>f. f\<lparr>refcnt := refcnt f + 1\<rparr>) s) i"
      using cached_buf_ok [OF ok c] nz c by (auto simp: buf_ok_def bf_upd_cached [OF ok c] cached_def)
    show "v_pin n (bview s) = (bview s)\<lparr>
       vcont := (blk_cont s)(n := if bvalid ((bf s i)\<lparr>refcnt := refcnt (bf s i) + 1\<rparr>)
         then bdata ((bf s i)\<lparr>refcnt := refcnt (bf s i) + 1\<rparr>) else disk s n),
       vrefs := (blk_refs s)(n := unat (refcnt ((bf s i)\<lparr>refcnt := refcnt (bf s i) + 1\<rparr>)))\<rparr>"
      using c slot_Some [OF ok, of n i] view_cached(1) [OF ok c] u
      by (simp add: v_pin_def bview_def blk_cont_def fun_upd_idem)
  qed simp_all
qed


lemma decref_bop:
  assumes ok: "bio_ok s" and c: "cached s n i" and p: "0 < blk_refs s n" "slocked (slks s (Slk_buf i)) \<Longrightarrow> 1 < blk_refs s n"
    and cl: "blk_refs s n = 1 \<Longrightarrow> blk_cont s n = disk s n"
  shows "bop s (v_unpin n) (decref i s)"
proof -
  note r = view_cached(1) [OF ok c]
  have u: "unat (refcnt (bf s i) - 1) = unat (refcnt (bf s i)) - 1"
    using p(1) r by (simp add: unat_minus_one word_unat_eq_iff)
  have lk: "refcnt (bf s i) - 1 \<noteq> 0" if "slocked (slks s (Slk_buf i))"
    using p(2) [OF that] r u by (auto simp: word_unat_eq_iff)
  have clean: "bdata (bf s i) = disk s n" if "bvalid (bf s i)" "refcnt (bf s i) - 1 = 0"
  proof -
    have "blk_refs s n = 1" using r that(2) by simp
    then show ?thesis using cl view_cached(2) [OF ok c that(1)] by simp
  qed
  show ?thesis
    unfolding decref_def
  proof (rule upd_buf_bop [OF ok c])
    show "buf_ok (upd_buf i (\<lambda>f. f\<lparr>refcnt := refcnt f - 1\<rparr>) s) i"
      using cached_buf_ok [OF ok c] clean c lk by (auto simp: buf_ok_def bf_upd_cached [OF ok c] cached_def)
    show "v_unpin n (bview s) = (bview s)\<lparr>
       vcont := (blk_cont s)(n := if bvalid ((bf s i)\<lparr>refcnt := refcnt (bf s i) - 1\<rparr>)
         then bdata ((bf s i)\<lparr>refcnt := refcnt (bf s i) - 1\<rparr>) else disk s n),
       vrefs := (blk_refs s)(n := unat (refcnt ((bf s i)\<lparr>refcnt := refcnt (bf s i) - 1\<rparr>)))\<rparr>"
      using c slot_Some [OF ok, of n i] r u
      by (simp add: v_unpin_def bview_def blk_cont_def fun_upd_idem)
  qed simp_all
qed

lemma recycle_bop:
  assumes ok: "bio_ok s" and i: "i < NBUF" "refcnt (bf s i) = 0" and n: "slot s n = None"
  shows "bop s (v_pin n) (recycle i n s)"
proof -
  have "blk_refs s n = 0" using n by (simp add: blk_refs_def)
  then have v: "bview (recycle i n s) = v_pin n (bview s)"
    using recycle_view [OF assms] by (simp add: bview_def v_pin_def)
  have j: "j \<noteq> i" if "cached s m j" "0 < blk_refs s m" for m j
    using view_cached(1) [OF ok that(1)] that(2) i(2) by auto
  have "cached (recycle i n s) m j \<and> (bvalid (bf s j) \<longrightarrow> bvalid (bf (recycle i n s) j))"
    if "cached s m j" "0 < blk_refs s m" for m j
    using that j [OF that] by (simp add: cached_recycle [OF ok i(1)] bf_recycle [OF ok i(1)])
  moreover have "\<exists>ps sl bs d w. recycle i n s = s\<lparr>procs := ps, slks := sl, bufs := bs, disk := d, writes := w\<rparr>"
    by (rule exI [of _ "procs s"], rule exI [of _ "slks s"], rule exI, rule exI [of _ "disk s"],
        rule exI [of _ "writes s"]) (simp add: recycle_def upd_buf_def)
  moreover have "woken (curproc s) (procs s) (procs (recycle i n s))" by (simp add: recycle_def)
  ultimately show ?thesis
    using recycle_ok [OF assms] v unfolding bop_def bframe_def by simp
qed

lemma bget_gets:
  assumes ok: "bio_ok s" and c: "calm s" and l: "blk_lock s n = None" and r: "room n s"
    and ov: "blk_refs s n + 1 < 2 ^ 32"
  obtains i t where "bget ROOTDEV n s = Ok (i, set_slk (Slk_buf i) True (mypid s) t)"
    "cached t n i" "\<not> slocked (slks t (Slk_buf i))" "bop s (v_pin n) t" "refcnt (bf t i) \<noteq> 0"
proof -
  obtain xs where xs: "ring s xs" using ok by (auto simp: bio_ok_def)
  then have sx: "set xs = {0..<NBUF}" by (simp add: ring_def)
  have h: "held s = []" using c by (simp add: calm_def)
  have scans: "bget_cached (Suc NBUF) ROOTDEV n (bnext (bf s bhead)) (s\<lparr>held := [L_bcache]\<rparr>) =
      Ok (find (\<lambda>b. bdev (bf s b) = ROOTDEV \<and> blockno (bf s b) = n) xs)"
    "bget_unused (Suc NBUF) (bprev (bf s bhead)) (s\<lparr>held := [L_bcache]\<rparr>) =
      Ok (find (\<lambda>b. refcnt (bf s b) = 0) (rev xs))"
    using ring_scans [of "s\<lparr>held := [L_bcache]\<rparr>" xs] xs by (simp_all del: bget_cached.simps bget_unused.simps)
  have acq: "acquiresleep (Slk_buf i) t = Ok (set_slk (Slk_buf i) True (mypid s) t)"
    if "bop s (v_pin n) t" "\<not> slocked (slks t (Slk_buf i))" for i t
    using acquiresleep_free [OF _ that(2)] bop_calm [OF that(1) c] by simp
  show ?thesis
  proof (cases "find (\<lambda>b. bdev (bf s b) = ROOTDEV \<and> blockno (bf s b) = n) xs")
    case (Some i)
    then have i: "cached s n i" using sx by (auto simp: cached_def dest: find_SomeD)
    have nl: "\<not> slocked (slks (incref i s) (Slk_buf i))"
      using l view_cached(3) [OF ok i] by (auto simp: incref_def split: if_splits)
    have rel: "release L_bcache (upd_buf i (\<lambda>f. f\<lparr>refcnt := refcnt f + 1\<rparr>) (s\<lparr>held := [L_bcache]\<rparr>)) = Ok (incref i s)"
      using h by (simp add: incref_def upd_buf_def)
    note b = incref_bop [OF ok i ov]
    have "bget ROOTDEV n s = Ok (i, set_slk (Slk_buf i) True (mypid s) (incref i s))"
      using scans(1) Some h acq [OF b(1) nl] rel
      by (simp add: bget_def del: bget_cached.simps bget_unused.simps release_Ok)
    then show ?thesis
      by (rule that) (use i nl b bf_upd_cached [OF ok i] in \<open>simp_all add: cached_def incref_def\<close>)
  next
    case None
    then have n: "slot s n = None" using sx by (auto simp: slot_None find_None_iff cached_def)
    then have "blk_refs s n = 0" by (simp add: blk_refs_def)
    with r have "\<exists>i<NBUF. refcnt (bf s i) = 0" using room_unused [OF ok] by (simp add: room_def)
    then obtain i where f: "find (\<lambda>b. refcnt (bf s b) = 0) (rev xs) = Some i"
      using sx by (cases "find (\<lambda>b. refcnt (bf s b) = 0) (rev xs)") (auto simp: find_None_iff)
    then have i: "i < NBUF" "refcnt (bf s i) = 0" using sx by (auto dest: find_SomeD)
    have nl: "\<not> slocked (slks (recycle i n s) (Slk_buf i))"
      using ok i by (auto simp: bio_ok_def buf_ok_def)
    have rel: "release L_bcache (upd_buf i (\<lambda>f. f\<lparr>bdev := ROOTDEV, blockno := n, bvalid := False,
        refcnt := 1\<rparr>) (s\<lparr>held := [L_bcache]\<rparr>)) = Ok (recycle i n s)"
      using h by (simp add: recycle_def upd_buf_def)
    note b = recycle_bop [OF ok i n]
    have "bget ROOTDEV n s = Ok (i, set_slk (Slk_buf i) True (mypid s) (recycle i n s))"
      using scans None f h acq [OF b nl] rel
      by (simp add: bget_def del: bget_cached.simps bget_unused.simps release_Ok)
    then show ?thesis
      by (rule that) (use i nl b in \<open>simp_all add: cached_recycle [OF ok] bf_recycle [OF ok]\<close>)
  qed
qed


lemma bframe_trans:
  assumes st: "bframe s t" and tu: "bframe t u" and r: "\<And>n. 0 < blk_refs s n \<Longrightarrow> 0 < blk_refs t n"
  shows "bframe s u"
proof -
  obtain ps sl bs d w where t: "t = s\<lparr>procs := ps, slks := sl, bufs := bs, disk := d, writes := w\<rparr>"
    using st by (auto simp: bframe_def)
  obtain ps' sl' bs' d' w' where u: "u = t\<lparr>procs := ps', slks := sl', bufs := bs', disk := d', writes := w'\<rparr>"
    using tu by (auto simp: bframe_def)
  have cur: "curproc t = curproc s" using t by simp
  have "u = s\<lparr>procs := ps', slks := sl', bufs := bs', disk := d', writes := w'\<rparr>" using t u by simp
  then have "\<exists>ps sl bs d w. u = s\<lparr>procs := ps, slks := sl, bufs := bs, disk := d, writes := w\<rparr>" by blast
  moreover have "woken (curproc s) (procs s) (procs u)"
    using st tu cur woken_trans unfolding bframe_def by metis
  moreover have "cached u n i \<and> (bvalid (bf s i) \<longrightarrow> bvalid (bf u i))" if "cached s n i" "0 < blk_refs s n" for n i
    using st tu that r unfolding bframe_def by blast
  moreover have "slks u (Slk_inode k) = slks s (Slk_inode k)" for k using st tu by (simp add: bframe_def)
  ultimately show ?thesis unfolding bframe_def by blast
qed

lemma bop_trans:
  assumes "bop s f t" "bop t g u" "\<And>n. 0 < blk_refs s n \<Longrightarrow> 0 < blk_refs t n"
  shows "bop s (g \<circ> f) u"
  using assms bframe_trans [of s t u] by (simp add: bop_def)

lemma lock_bop:
  assumes ok: "bio_ok s" and c: "cached s n i" and b: "refcnt (bf s i) \<noteq> 0"
  shows "bop s (\<lambda>v. v\<lparr>vlock := (vlock v)(n := Some p)\<rparr>) (set_slk (Slk_buf i) True p s)"
proof (rule touches_bop [OF _ ok c])
  show "touches i s (set_slk (Slk_buf i) True p s)" by (simp add: touches_def set_slk_def bf_def)
  show "buf_ok (set_slk (Slk_buf i) True p s) i"
    using cached_buf_ok [OF ok c] b by (auto simp: buf_ok_def set_slk_def bf_def)
  show "length (disk (set_slk (Slk_buf i) True p s) n) = BSIZE" using ok by (simp add: bio_ok_def set_slk_def)
  show "\<exists>ps sl bs d w. set_slk (Slk_buf i) True p s = s\<lparr>procs := ps, slks := sl, bufs := bs, disk := d, writes := w\<rparr>"
    by (rule exI [of _ "procs s"], rule exI, rule exI [of _ "bufs s"], rule exI [of _ "disk s"],
        rule exI [of _ "writes s"]) (simp add: set_slk_def)
  show "\<exists>ys. ring (set_slk (Slk_buf i) True p s) ys" if "ring s xs" for xs using that by auto
  show "(bview s)\<lparr>vlock := (vlock (bview s))(n := Some p)\<rparr> =
      \<lparr>vdisk = (disk s)(n := disk (set_slk (Slk_buf i) True p s) n),
       vcont = (blk_cont s)(n := if bvalid (bf (set_slk (Slk_buf i) True p s) i)
         then bdata (bf (set_slk (Slk_buf i) True p s) i) else disk (set_slk (Slk_buf i) True p s) n),
       vrefs = (blk_refs s)(n := unat (refcnt (bf (set_slk (Slk_buf i) True p s) i))),
       vlock = (blk_lock s)(n := if slocked (slks (set_slk (Slk_buf i) True p s) (Slk_buf i))
         then Some (spid (slks (set_slk (Slk_buf i) True p s) (Slk_buf i))) else None),
       vwrites = writes (set_slk (Slk_buf i) True p s)\<rparr>"
    by (simp only: set_slk_sels bf_frame view_idem [OF ok c] if_True sleeplock.select_convs fun_upd_triv
        bview_def bview.select_convs bview.update_convs)
qed (simp_all add: set_slk_def)

lemma fill_bop:
  assumes ok: "bio_ok s" and c: "cached s n i" and b: "\<not> bvalid (bf s i)"
  shows "bop s id (upd_buf i (\<lambda>f. f\<lparr>bvalid := True\<rparr>) (disk_rw i False s))"
proof -
  have e: "upd_buf i (\<lambda>f. f\<lparr>bvalid := True\<rparr>) (disk_rw i False s) =
      upd_buf i (\<lambda>f. f\<lparr>bdata := disk s (blockno (bf s i)), bvalid := True\<rparr>) s"
    using cached_length [OF ok c] by (simp add: disk_rw_def upd_buf_def Let_def bf_def)
  show ?thesis
    unfolding e
  proof (rule upd_buf_bop [OF ok c])
    let ?f = "\<lambda>f. f\<lparr>bdata := disk s (blockno (bf s i)), bvalid := True\<rparr>"
    show "buf_ok (upd_buf i ?f s) i"
      using cached_buf_ok [OF ok c] ok c
      by (auto simp: buf_ok_def bf_upd_cached [OF ok c] cached_def bio_ok_def)
    show "id (bview s) = (bview s)\<lparr>
       vcont := (blk_cont s)(n := if bvalid (?f (bf s i)) then bdata (?f (bf s i)) else disk s n),
       vrefs := (blk_refs s)(n := unat (refcnt (?f (bf s i))))\<rparr>"
      using view_cached(1) [OF ok c] slot_Some [OF ok, of n i] c b
      by (simp add: bview_def blk_cont_def cached_def fun_upd_idem)
  qed simp_all
qed


section \<open>The contract\<close>

lemma gotD:
  assumes "bio_ok s" "got s n i"
  shows "cached s n i" "bvalid (bf s i)" "bdata (bf s i) = blk_cont s n" "0 < blk_refs s n"
    "slocked (slks s (Slk_buf i))" "spid (slks s (Slk_buf i)) = mypid s" "refcnt (bf s i) \<noteq> 0"
proof -
  show c: "cached s n i" "bvalid (bf s i)" using assms(2) by (simp_all add: got_def)
  show "bdata (bf s i) = blk_cont s n" using view_cached(2) [OF assms(1) c] by simp
  show l: "slocked (slks s (Slk_buf i))" "spid (slks s (Slk_buf i)) = mypid s"
    using view_cached(3) [OF assms(1) c(1)] assms(2) by (auto simp: got_def split: if_splits)
  show r: "refcnt (bf s i) \<noteq> 0" using cached_buf_ok [OF assms(1) c(1)] l by (simp add: buf_ok_def)
  show "0 < blk_refs s n" using view_cached(1) [OF assms(1) c(1)] r by (simp add: unat_gt_0)
qed

lemma bread_gets:
  assumes ok: "bio_ok s" and c: "calm s" and l: "blk_lock s n = None" and r: "room n s"
    and ov: "blk_refs s n + 1 < 2 ^ 32"
  shows "returns (bread ROOTDEV n s) (\<lambda>(i, t). got t n i \<and> bop s (v_get n (mypid s)) t)"
proof -
  obtain i t where g: "bget ROOTDEV n s = Ok (i, set_slk (Slk_buf i) True (mypid s) t)" "cached t n i"
    "bop s (v_pin n) t" "refcnt (bf t i) \<noteq> 0" using bget_gets [OF assms] by metis
  let ?u = "set_slk (Slk_buf i) True (mypid s) t"
  have okt: "bio_ok t" and pv: "blk_refs t = (blk_refs s)(n := blk_refs s n + 1)"
    using g(3) bop_sels(1) [OF g(3)] by (simp_all add: bop_def v_pin_def)
  note lk = lock_bop [OF okt g(2,4), of "mypid s"]
  have "v_get n (mypid s) = (\<lambda>v. v\<lparr>vlock := (vlock v)(n := Some (mypid s))\<rparr>) \<circ> v_pin n"
    by (simp add: fun_eq_iff v_get_def v_pin_def)
  then have su: "bop s (v_get n (mypid s)) ?u"
    using bop_trans [OF g(3) lk] pv by (simp split: if_splits)
  have cu: "cached ?u n i" using g(2) by (simp add: cached_def)
  have got: "got w n i" if "bop s (v_get n (mypid s)) w" "cached w n i" "bvalid (bf w i)" for w
    using that bop_calm [OF that(1) c] bop_sels(3) [OF that(1)] by (simp add: got_def v_get_def)
  show ?thesis
  proof (cases "bvalid (bf ?u i)")
    case True
    then show ?thesis using g(1) su got [OF su cu True] by (simp add: bread_def)
  next
    case False
    let ?w = "upd_buf i (\<lambda>f. f\<lparr>bvalid := True\<rparr>) (disk_rw i False ?u)"
    have oku: "bio_ok ?u" using su by (simp add: bop_def)
    have "bop s (id \<circ> v_get n (mypid s)) ?w"
    proof (rule bop_trans [OF su fill_bop [OF oku cu False]])
      show "0 < blk_refs ?u m" if "0 < blk_refs s m" for m
        using that bop_sels(1) [OF su] by (simp add: v_get_def)
    qed
    moreover have "i < length (bufs ?u)" using cached_length [OF oku cu] .
    then have "cached ?w n i" "bvalid (bf ?w i)" using cu by (simp_all add: cached_def disk_rw_def bf_upd_in Let_def)
    ultimately show ?thesis using g(1) False got [of ?w] by (simp add: bread_def)
  qed
qed

lemma bwrite_writes:
  assumes ok: "bio_ok s" and c: "calm s" and g: "got s n i"
  shows "returns (bwrite i s) (bop s (v_write n))"
proof -
  note d = gotD [OF ok g]
  let ?t = "disk_rw i True s"
  have n: "blockno (bf s i) = n" using d(1) by (simp add: cached_def)
  have t: "?t = s\<lparr>disk := (disk s)(n := bdata (bf s i)), writes := writes s @ [(n, bdata (bf s i))]\<rparr>"
    by (simp add: disk_rw_def n Let_def)
  have "bop s (v_write n) ?t"
  proof (rule touches_bop [OF _ ok d(1)])
    show "touches i s ?t" by (simp add: t touches_def n)
    show "\<exists>ys. ring ?t ys" if "ring s xs" for xs using that by (auto simp: t)
    show "buf_ok ?t i" using cached_buf_ok [OF ok d(1)] d by (simp add: t buf_ok_def)
    show "length (disk ?t n) = BSIZE" using cached_buf_ok [OF ok d(1)] d(2) by (simp add: t buf_ok_def)
    show "\<exists>ps sl bs d w. ?t = s\<lparr>procs := ps, slks := sl, bufs := bs, disk := d, writes := w\<rparr>"
      unfolding t by (rule exI [of _ "procs s"], rule exI [of _ "slks s"], rule exI [of _ "bufs s"], rule exI, rule exI) simp
    show "v_write n (bview s) = \<lparr>vdisk = (disk s)(n := disk ?t n),
       vcont = (blk_cont s)(n := if bvalid (bf ?t i) then bdata (bf ?t i) else disk ?t n),
       vrefs = (blk_refs s)(n := unat (refcnt (bf ?t i))),
       vlock = (blk_lock s)(n := if slocked (slks ?t (Slk_buf i)) then Some (spid (slks ?t (Slk_buf i))) else None),
       vwrites = writes ?t\<rparr>"
      using view_idem [OF ok d(1)] d by (simp add: t v_write_def bview_def)
  qed (simp_all add: t)
  then show ?thesis
    using holdingsleep_calm [OF c, of "Slk_buf i"] d by (simp add: bwrite_def)
qed

lemma set_data_sets:
  assumes ok: "bio_ok s" and g: "got s n i" and l: "length bs = BSIZE"
  shows "bop s (v_set n bs) (set_data i bs s)"
  unfolding set_data_def
proof (rule upd_buf_bop [OF ok])
  note d = gotD [OF ok g]
  show "cached s n i" using d(1) .
  show "buf_ok (upd_buf i (\<lambda>b. b\<lparr>bdata := bs\<rparr>) s) i"
    using cached_buf_ok [OF ok d(1)] d l by (simp add: buf_ok_def bf_upd_cached [OF ok d(1)])
  show "v_set n bs (bview s) = (bview s)\<lparr>
     vcont := (blk_cont s)(n := if bvalid ((bf s i)\<lparr>bdata := bs\<rparr>) then bdata ((bf s i)\<lparr>bdata := bs\<rparr>) else disk s n),
     vrefs := (blk_refs s)(n := unat (refcnt ((bf s i)\<lparr>bdata := bs\<rparr>)))\<rparr>"
    using view_idem(2) [OF ok d(1)] d by (simp add: v_set_def bview_def)
qed simp_all


lemma upd_buf_held: "upd_buf i f (s\<lparr>held := h\<rparr>) = (upd_buf i f s)\<lparr>held := h\<rparr>"
  by (simp add: upd_buf_def)

lemma move_held: "ring_push i (ring_unlink i (s\<lparr>held := h\<rparr>)) = (ring_push i (ring_unlink i s))\<lparr>held := h\<rparr>"
  by (simp add: ring_push_def ring_unlink_def Let_def upd_buf_held)

lemma held_triv: "held s = h \<Longrightarrow> s\<lparr>held := h\<rparr> = s"
  by auto

lemma held_move [simp]: "held (ring_push i (ring_unlink i s)) = held s"
  by (simp add: ring_push_def ring_unlink_def Let_def)

lemma bop_links:
  assumes "bop s f t" "links_only t u" "ring u ys"
  shows "bop s f u"
proof -
  have core: "bcore (bf u x) = bcore (bf t x)" for x using assms(2) by (simp add: links_only_def)
  note cr = bcore_eqD [OF core]
  have u: "u = t\<lparr>bufs := bufs u\<rparr>" using assms(2) by (simp add: links_only_def)
  have e: "disk u = disk t" "slks u = slks t" "writes u = writes t" "procs u = procs t" by (subst u, simp)+
  have c: "cached u n i \<longleftrightarrow> cached t n i" for n i by (simp add: cached_def cr)
  have sl: "slot u = slot t" by (rule slot_cong) (simp add: cr)
  have "bview u = bview t"
    by (simp add: bview_def e) (simp add: blk_cont_def blk_refs_def blk_lock_def sl cr e fun_eq_iff split: option.split)
  moreover have "bio_ok u"
    using assms(1,3) by (auto simp: bop_def bio_ok_def buf_ok_def c cr e)
  moreover have "bframe s u"
  proof -
    obtain ps sl bs d w where "t = s\<lparr>procs := ps, slks := sl, bufs := bs, disk := d, writes := w\<rparr>"
      using assms(1) by (auto simp: bop_def bframe_def)
    then have "t\<lparr>bufs := b\<rparr> = s\<lparr>procs := ps, slks := sl, bufs := b, disk := d, writes := w\<rparr>" for b
      by (intro bst.equality) simp_all
    then have "u = s\<lparr>procs := ps, slks := sl, bufs := bufs u, disk := d, writes := w\<rparr>" using u by metis
    then show ?thesis using assms(1) unfolding bop_def bframe_def e c cr by blast
  qed
  ultimately show ?thesis using assms(1) by (simp add: bop_def)
qed

lemma unlock_bop:
  assumes ok: "bio_ok s" and c: "cached s n i" and w: "woken (curproc s) (procs s) ps"
  shows "bop s (\<lambda>v. v\<lparr>vlock := (vlock v)(n := None)\<rparr>) ((set_slk (Slk_buf i) False 0 s)\<lparr>procs := ps\<rparr>)"
    (is "bop s ?f ?t")
proof (rule touches_bop [OF _ ok c])
  have t: "?t = s\<lparr>procs := ps, slks := (slks s)(Slk_buf i := \<lparr>slocked = False, spid = 0\<rparr>)\<rparr>"
    by (simp add: set_slk_def)
  show "touches i s ?t" by (simp add: touches_def set_slk_def)
  show "buf_ok ?t i" using cached_buf_ok [OF ok c] by (simp add: buf_ok_def set_slk_def bf_def)
  show "length (disk ?t n) = BSIZE" using ok by (simp add: bio_ok_def set_slk_def)
  show "\<exists>ps sl bs d w. ?t = s\<lparr>procs := ps, slks := sl, bufs := bs, disk := d, writes := w\<rparr>"
    unfolding t by (rule exI, rule exI, rule exI [of _ "bufs s"], rule exI [of _ "disk s"],
        rule exI [of _ "writes s"]) simp
  show "\<exists>ys. ring ?t ys" if "ring s xs" for xs using that by auto
  have sl: "slks ?t (Slk_buf i) = \<lparr>slocked = False, spid = 0\<rparr>" "disk ?t = disk s" "writes ?t = writes s"
    by (simp_all add: set_slk_def)
  show "?f (bview s) = \<lparr>vdisk = (disk s)(n := disk ?t n),
       vcont = (blk_cont s)(n := if bvalid (bf ?t i) then bdata (bf ?t i) else disk ?t n),
       vrefs = (blk_refs s)(n := unat (refcnt (bf ?t i))),
       vlock = (blk_lock s)(n := if slocked (slks ?t (Slk_buf i)) then Some (spid (slks ?t (Slk_buf i))) else None),
       vwrites = writes ?t\<rparr>"
    by (simp only: sl bf_frame view_idem [OF ok c] if_False sleeplock.select_convs fun_upd_triv
        bview_def bview.select_convs bview.update_convs)
qed (use w in \<open>simp_all add: set_slk_def\<close>)

lemma bpin_pins:
  assumes "bio_ok s" "cached s n i" "blk_refs s n + 1 < 2 ^ 32" "L_bcache \<notin> set (held s)"
  shows "returns (bpin i s) (bop s (v_pin n))"
  using incref_bop(1) [OF assms(1-3)] assms(4)
  by (simp add: bpin_def incref_def upd_buf_def)

lemma bunpin_unpins:
  assumes "bio_ok s" "cached s n i" "1 < blk_refs s n" "L_bcache \<notin> set (held s)"
  shows "returns (bunpin i s) (bop s (v_unpin n))"
  using decref_bop [OF assms(1,2)] assms(3,4)
  by (simp add: bunpin_def decref_def upd_buf_def)

lemma brelse_steps:
  assumes ok: "bio_ok s" and c: "calm s" and g: "got s n i"
    and cl: "blk_refs s n = 1 \<Longrightarrow> blk_cont s n = disk s n"
  obtains t where "bop s (v_put n) t" "brelse i s = Ok (if blk_refs s n = 1 then ring_push i (ring_unlink i t) else t)"
    "\<And>xs. ring t xs \<longleftrightarrow> ring s xs"
proof -
  note d = gotD [OF ok g]
  obtain ps where rel: "releasesleep (Slk_buf i) s = Ok ((set_slk (Slk_buf i) False 0 s)\<lparr>procs := ps\<rparr>)"
    and w: "woken (curproc s) (procs s) ps" using releasesleep_calm [OF c] by metis
  let ?t = "(set_slk (Slk_buf i) False 0 s)\<lparr>procs := ps\<rparr>"
  note un = unlock_bop [OF ok d(1) w]
  have okt: "bio_ok ?t" and ct: "calm ?t" using un bop_calm [OF un c] by (simp_all add: bop_def)
  have cd: "cached ?t n i" using d(1) by (simp add: cached_def)
  have v: "blk_refs ?t = blk_refs s" "blk_cont ?t = blk_cont s" "disk ?t = disk s"
    using bop_sels [OF un] by simp_all
  have "bop ?t (v_unpin n) (decref i ?t)"
    by (rule decref_bop [OF okt cd]) (use d(4) cl v in \<open>simp_all add: set_slk_def\<close>)
  from bop_trans [OF un this] have de: "bop s (v_put n) (decref i ?t)"
    using v(1) by (simp add: v_put_def [abs_def] v_unpin_def comp_def)
  have h: "held ?t = []" using ct by (simp add: calm_def)
  have "unat (refcnt (bf s i)) = blk_refs s n" using view_cached(1) [OF ok d(1)] by simp
  then have z: "refcnt (bf (decref i ?t) i) = 0 \<longleftrightarrow> blk_refs s n = 1"
    using d(4) by (auto simp: decref_def bf_upd_cached [OF okt cd] word_unat_eq_iff unat_minus_one)
  have "brelse i s = Ok (if refcnt (bf (decref i ?t) i) = 0
      then ring_push i (ring_unlink i (decref i ?t)) else decref i ?t)"
    using holdingsleep_calm [OF c, of "Slk_buf i"] d rel h
    by (simp add: brelse_def decref_def upd_buf_held move_held Let_def held_triv)
  then show ?thesis
    unfolding z by (rule that [OF de]) (simp add: decref_def ring_upd_buf)
qed

lemma brelse_puts:
  assumes ok: "bio_ok s" and c: "calm s" and g: "got s n i"
    and cl: "blk_refs s n = 1 \<Longrightarrow> blk_cont s n = disk s n"
  shows "returns (brelse i s) (bop s (v_put n))"
proof -
  obtain t where t: "bop s (v_put n) t" "brelse i s = Ok (if blk_refs s n = 1 then ring_push i (ring_unlink i t) else t)"
    using brelse_steps [OF assms] by metis
  obtain xs where "ring t xs" using t(1) by (auto simp: bop_def bio_ok_def)
  then have "ring (ring_push i (ring_unlink i t)) (move_front i xs)"
    by (rule ring_move_front) (use gotD(1) [OF ok g] in \<open>simp add: cached_def\<close>)
  then have "bop s (v_put n) (ring_push i (ring_unlink i t))" by (rule bop_links [OF t(1) links_only_move])
  with t show ?thesis by simp
qed

section \<open>Boot\<close>

text \<open>The cache as it is before \<^verbatim>\<open>binit\<close>: zero, like every static object of the kernel.\<close>

definition fresh_cache :: "'a bst_scheme \<Rightarrow> bool" where
  "fresh_cache s \<longleftrightarrow> length (bufs s) = Suc NBUF \<and> (\<forall>n. length (disk s n) = BSIZE) \<and>
     (\<forall>i<NBUF. \<not> bvalid (bf s i) \<and> bdev (bf s i) = 0 \<and> refcnt (bf s i) = 0)"

definition boot_frame :: "'a bst_scheme \<Rightarrow> 'a bst_scheme \<Rightarrow> bool" where
  "boot_frame s t \<longleftrightarrow> (\<exists>bs sl. t = s\<lparr>slks := sl, bufs := bs\<rparr>) \<and> (\<forall>x. bcore (bf t x) = bcore (bf s x))"

lemma links_only_push: "links_only s (ring_push i s)"
  unfolding ring_push_def Let_def
  by (intro links_only_trans [OF _ links_only_upd(1)] links_only_trans [OF _ links_only_upd(2)] links_only_upd)

lemma boot_frame_trans:
  assumes "boot_frame s t" "boot_frame t u"
  shows "boot_frame s u"
proof -
  obtain bs sl where "t = s\<lparr>slks := sl, bufs := bs\<rparr>" using assms(1) unfolding boot_frame_def by blast
  moreover obtain bs' sl' where "u = t\<lparr>slks := sl', bufs := bs'\<rparr>" using assms(2) unfolding boot_frame_def by blast
  ultimately have "u = s\<lparr>slks := sl', bufs := bs'\<rparr>" by simp
  then show ?thesis using assms unfolding boot_frame_def by (metis (no_types))
qed

lemma boot_frame_links:
  assumes "links_only s t"
  shows "boot_frame s t"
proof -
  have "t = s\<lparr>slks := slks s, bufs := bufs t\<rparr>" using assms by (simp add: links_only_def)
  then show ?thesis using assms unfolding boot_frame_def links_only_def by blast
qed

lemma boot_frame_init: "boot_frame s (initsleeplock lk s)"
proof -
  have "initsleeplock lk s = s\<lparr>slks := (slks s)(lk := \<lparr>slocked = False, spid = 0\<rparr>), bufs := bufs s\<rparr>"
    by (simp add: initsleeplock_def set_slk_def)
  then show ?thesis unfolding boot_frame_def by (metis initsleeplock_frame(1))
qed

lemma slks_push [simp]: "slks (ring_push i s) = slks s"
  by (simp add: ring_push_def Let_def)

lemma binit_loop_frame:
  "boot_frame s (binit_loop is s) \<and>
   (\<forall>i. slocked (slks (binit_loop is s) (Slk_buf i)) \<longrightarrow> i \<notin> set is \<and> slocked (slks s (Slk_buf i)))"
proof (induction "is" arbitrary: s)
  case Nil
  have "links_only s s" by (simp add: links_only_def)
  then show ?case by (simp add: boot_frame_links)
next
  case (Cons i "is")
  let ?t = "ring_push i (initsleeplock (Slk_buf i) s)"
  have "boot_frame s ?t"
    by (rule boot_frame_trans [OF boot_frame_init boot_frame_links [OF links_only_push]])
  with Cons.IH [of ?t] show ?case
    by (auto intro: boot_frame_trans simp: initsleeplock_def set_slk_def split: if_splits)
qed

lemma binit_cache:
  assumes f: "fresh_cache s"
  shows "bio_ok (binit s)" "blk_refs (binit s) = (\<lambda>_. 0)" "blk_cont (binit s) = disk s"
    "blk_lock (binit s) = (\<lambda>_. None)" "\<exists>bs sl. binit s = s\<lparr>slks := sl, bufs := bs\<rparr>"
    "bcore (bf (binit s) x) = bcore (bf s x)"
proof -
  let ?h = "upd_buf bhead (\<lambda>b. b\<lparr>bnext := bhead\<rparr>) (upd_buf bhead (\<lambda>b. b\<lparr>bprev := bhead\<rparr>) s)"
  have h: "boot_frame s ?h"
    by (rule boot_frame_links [OF links_only_trans [OF links_only_upd(2) links_only_upd(1)]])
  have fr: "boot_frame s (binit s)"
    unfolding binit_def Let_def using boot_frame_trans [OF h] binit_loop_frame by blast
  have nl: "\<not> slocked (slks (binit s) (Slk_buf i))" if "i < NBUF" for i
    unfolding binit_def Let_def using binit_loop_frame [of ?h "[0..<NBUF]"] that by auto
  have c: "bcore (bf (binit s) x) = bcore (bf s x)" and ex: "\<exists>bs sl. binit s = s\<lparr>slks := sl, bufs := bs\<rparr>" for x
    using fr by (auto simp: boot_frame_def)
  then have d: "disk (binit s) = disk s" by auto
  have no: "\<not> cached (binit s) n i" for n i
    using f bcore_eqD(2) [OF c] by (auto simp: cached_def fresh_cache_def ROOTDEV_def)
  then have sl: "slot (binit s) n = None" for n by (simp add: slot_None)
  show "bio_ok (binit s)"
    using f binit_ring [of s] no nl d
    by (auto simp: bio_ok_def buf_ok_def fresh_cache_def bcore_eqD [OF c])
  show "blk_refs (binit s) = (\<lambda>_. 0)" "blk_cont (binit s) = disk s" "blk_lock (binit s) = (\<lambda>_. None)"
    by (simp_all add: fun_eq_iff blk_refs_def blk_cont_def blk_lock_def sl d)
  show "\<exists>bs sl. binit s = s\<lparr>slks := sl, bufs := bs\<rparr>" by (rule ex)
  show "bcore (bf (binit s) x) = bcore (bf s x)" by (rule c)
qed


section \<open>Properties\<close>

lemma no_room:
  assumes ok: "bio_ok s" and nr: "\<not> room n s" and i: "i < NBUF"
  shows "refcnt (bf s i) \<noteq> 0" "\<not> cached s n i"
proof -
  show r: "refcnt (bf s i) \<noteq> 0"
  proof
    assume z: "refcnt (bf s i) = 0"
    have "{m. 0 < blk_refs s m} \<subseteq> (\<lambda>j. blockno (bf s j)) ` ({0..<NBUF} - {i})"
    proof
      fix m assume "m \<in> {m. 0 < blk_refs s m}"
      then obtain j where "cached s m j" "refcnt (bf s j) \<noteq> 0"
        by (auto simp: blk_refs_def slot_Some [OF ok] unat_gt_0 split: option.splits)
      then show "m \<in> (\<lambda>j. blockno (bf s j)) ` ({0..<NBUF} - {i})" using z by (auto simp: cached_def)
    qed
    then have "card {m. 0 < blk_refs s m} \<le> card ((\<lambda>j. blockno (bf s j)) ` ({0..<NBUF} - {i}))"
      by (intro card_mono) simp_all
    also have "\<dots> \<le> card ({0..<NBUF} - {i})" by (rule card_image_le) simp
    also have "\<dots> < NBUF" using i by simp
    finally show False using nr by (simp add: room_def)
  qed
  show "\<not> cached s n i" using view_cached(1) [OF ok, of n i] r nr by (auto simp: room_def word_unat_eq_iff)
qed

lemma bread_panics:
  assumes ok: "bio_ok s" and c: "calm s" and nr: "\<not> room n s"
  shows "bread ROOTDEV n s = Panic ''bget: no buffers''"
proof -
  obtain xs where xs: "ring s xs" using ok by (auto simp: bio_ok_def)
  then have sx: "set xs = {0..<NBUF}" by (simp add: ring_def)
  have "find (\<lambda>b. bdev (bf s b) = ROOTDEV \<and> blockno (bf s b) = n) xs = None"
    "find (\<lambda>b. refcnt (bf s b) = 0) (rev xs) = None"
    using no_room [OF ok nr] sx by (auto simp: find_None_iff cached_def)
  then have "bget ROOTDEV n s = Panic ''bget: no buffers''"
    using ring_scans [of "s\<lparr>held := [L_bcache]\<rparr>" xs] xs c
    by (simp add: bget_def calm_def del: bget_cached.simps bget_unused.simps)
  then show ?thesis by (simp add: bread_def)
qed

lemma bread_blocks:
  assumes ok: "bio_ok s" and c: "calm s" and run: "pstate (pr s (the (curproc s))) = RUNNING"
    and l: "blk_lock s n = Some p"
  shows "\<exists>i. cached s n i \<and> bread ROOTDEV n s = Block (Ch_slk (Slk_buf i))"
proof -
  obtain i where i: "cached s n i" and lk: "slocked (slks s (Slk_buf i))"
    using l by (auto simp: blk_lock_def slot_Some [OF ok] split: option.splits if_splits)
  obtain xs where xs: "ring s xs" using ok by (auto simp: bio_ok_def)
  then have "set xs = {0..<NBUF}" by (simp add: ring_def)
  then have "find (\<lambda>b. bdev (bf s b) = ROOTDEV \<and> blockno (bf s b) = n) xs \<noteq> None"
    using i by (auto simp: find_None_iff cached_def)
  then obtain j where j: "find (\<lambda>b. bdev (bf s b) = ROOTDEV \<and> blockno (bf s b) = n) xs = Some j" by blast
  then have "cached s n j" using xs by (auto simp: cached_def ring_def dest: find_SomeD)
  then have ij: "j = i" using i ok unfolding bio_ok_def by blast
  have ci: "calm (incref i s)" using c by (simp add: incref_def calm_def)
  have "acquiresleep (Slk_buf i) (incref i s) = Block (Ch_slk (Slk_buf i))"
    by (rule acquiresleep_taken [OF ci]) (use lk run in \<open>simp_all add: incref_def pr_def\<close>)
  moreover have "(upd_buf i (\<lambda>f. f\<lparr>refcnt := refcnt f + 1\<rparr>) (s\<lparr>held := [L_bcache]\<rparr>))\<lparr>held := []\<rparr> = incref i s"
    using c by (simp add: incref_def upd_buf_def calm_def)
  ultimately have "bget ROOTDEV n s = Block (Ch_slk (Slk_buf i))"
    using ring_scans(1) [of "s\<lparr>held := [L_bcache]\<rparr>" xs ROOTDEV n] xs c j ij
    by (simp add: bget_def calm_def del: bget_cached.simps bget_unused.simps)
  then show ?thesis using i by (auto simp: bread_def)
qed

text \<open>C16. \<^verbatim>\<open>bread\<close> on every branch: with all buffers in use it panics; a block some
  process has locked makes the caller sleep on that buffer's lock; otherwise it
  returns a buffer that is locked by the caller and holds the block's current
  contents, and the only changes to the abstract cache are the reference and the
  lock.\<close>

theorem bread_refines:
  assumes "bio_ok s" "calm s" "pstate (pr s (the (curproc s))) = RUNNING" "blk_refs s n + 1 < 2 ^ 32"
  shows "if \<not> room n s then bread ROOTDEV n s = Panic ''bget: no buffers''
    else case blk_lock s n of
      Some p \<Rightarrow> \<exists>i. cached s n i \<and> bread ROOTDEV n s = Block (Ch_slk (Slk_buf i))
    | None \<Rightarrow> returns (bread ROOTDEV n s) (\<lambda>(i, t). got t n i \<and> bdata (bf t i) = blk_cont s n \<and>
        bop s (v_get n (mypid s)) t)"
proof (cases "room n s")
  case True
  show ?thesis
  proof (cases "blk_lock s n")
    case None
    have "bdata (bf t i) = blk_cont s n" if "got t n i" "bop s (v_get n (mypid s)) t" for i t
      using gotD(3) [OF _ that(1)] that(2) bop_sels(2) [OF that(2)] by (simp add: bop_def v_get_def)
    with True None returns_mono [OF bread_gets [OF assms(1,2) None True assms(4)]] show ?thesis by auto
  next
    case (Some p)
    with True bread_blocks [OF assms(1-3)] show ?thesis by simp
  qed
next
  case False
  with bread_panics [OF assms(1,2)] show ?thesis by simp
qed

text \<open>C17. Replacement is least recently used: releasing the last reference to a buffer
  moves it to the front of the list, other releases leave the list, and a miss
  takes the unused buffer nearest the end of the list.\<close>

theorem least_recently_used:
  assumes "bio_ok s" "calm s" "ring s xs"
  shows "(got s n i \<and> (blk_refs s n = 1 \<longrightarrow> blk_cont s n = disk s n) \<longrightarrow>
      returns (brelse i s) (\<lambda>t. ring t (if blk_refs s n = 1 then move_front i xs else xs))) \<and>
    (slot s m = None \<and> room m s \<longrightarrow>
      returns (bget ROOTDEV m s) (\<lambda>(j, t). find (\<lambda>b. refcnt (bf s b) = 0) (rev xs) = Some j))"
proof (intro conjI impI)
  assume g: "got s n i \<and> (blk_refs s n = 1 \<longrightarrow> blk_cont s n = disk s n)"
  then obtain t where t: "brelse i s = Ok (if blk_refs s n = 1 then ring_push i (ring_unlink i t) else t)"
    "\<And>xs. ring t xs \<longleftrightarrow> ring s xs" using brelse_steps [OF assms(1,2)] by metis
  have "i < NBUF" using gotD(1) [OF assms(1)] g by (auto simp: cached_def)
  then have "ring (ring_push i (ring_unlink i t)) (move_front i xs)"
    using assms(3) by (intro ring_move_front) (simp_all add: t(2))
  then show "returns (brelse i s) (\<lambda>t. ring t (if blk_refs s n = 1 then move_front i xs else xs))"
    using t assms(3) by simp
next
  assume m: "slot s m = None \<and> room m s"
  have sx: "set xs = {0..<NBUF}" using assms(3) by (simp add: ring_def)
  have r: "blk_refs s m = 0" "blk_lock s m = None" using m by (simp_all add: blk_refs_def blk_lock_def)
  have "find (\<lambda>b. bdev (bf s b) = ROOTDEV \<and> blockno (bf s b) = m) xs = None"
    using m sx by (auto simp: slot_None find_None_iff cached_def)
  moreover have "\<exists>i<NBUF. refcnt (bf s i) = 0" using room_unused [OF assms(1)] m r(1) by (simp add: room_def)
  then obtain j where j: "find (\<lambda>b. refcnt (bf s b) = 0) (rev xs) = Some j"
    using sx by (cases "find (\<lambda>b. refcnt (bf s b) = 0) (rev xs)") (auto simp: find_None_iff)
  moreover have "\<not> slocked (slks s (Slk_buf j))"
    using assms(1) find_SomeD [OF j] sx by (auto simp: bio_ok_def buf_ok_def)
  ultimately show "returns (bget ROOTDEV m s) (\<lambda>(j, t). find (\<lambda>b. refcnt (bf s b) = 0) (rev xs) = Some j)"
    using ring_scans [of "s\<lparr>held := [L_bcache]\<rparr>" xs] assms(2,3)
    by (auto simp: bget_def calm_def upd_buf_held acquiresleep_def with_proc_def myproc_def set_slk_def
        simp del: bget_cached.simps bget_unused.simps)
qed


section \<open>A running system\<close>

text \<open>A system after \<^verbatim>\<open>binit\<close> with one running process, over any disk; the last argument
  is the state of the components above the cache.\<close>

definition run_procs :: "proc list" where
  "run_procs = (replicate 64 idle_proc)[0 := idle_proc\<lparr>pstate := RUNNING, pid := 1\<rparr>]"

definition zero_buf :: buf where
  "zero_buf = \<lparr>bvalid = False, bdisk = False, bdev = 0, blockno = 0, refcnt = 0, bprev = 0, bnext = 0, bdata = []\<rparr>"

definition boot_bst :: "(u32 \<Rightarrow> bytes) \<Rightarrow> 'a \<Rightarrow> 'a bst_scheme" where
  "boot_bst d x = \<lparr>held = [], mem = (\<lambda>_. 0), freelist = 0, kend = 0x80021000, procs = run_procs,
     initproc = Some 0, nextpid = 2, curproc = Some 0, ticks = 0, sched_mode = SCHED_ROUND_ROBIN,
     tframes = (\<lambda>_. tf_junk), trampoline = 0x80007000, etext = 0x80008000, forkret_pc = 0x80001000,
     kernel_pagetable = 0, slks = (\<lambda>_. \<lparr>slocked = False, spid = 0\<rparr>), bufs = replicate (Suc NBUF) zero_buf,
     disk = d, writes = [], \<dots> = x\<rparr>"

definition demo_bst :: "(u32 \<Rightarrow> bytes) \<Rightarrow> 'a \<Rightarrow> 'a bst_scheme" where
  "demo_bst d x = binit (boot_bst d x)"

definition zero_disk :: "u32 \<Rightarrow> bytes" where
  "zero_disk n = replicate BSIZE 0"

lemma boot_bst_fresh: "\<forall>n. length (d n) = BSIZE \<Longrightarrow> fresh_cache (boot_bst d x)"
  by (auto simp: fresh_cache_def boot_bst_def bf_def zero_buf_def simp del: replicate_Suc)

lemma demo_bst_cache:
  assumes "\<forall>n. length (d n) = BSIZE"
  shows "bio_ok (demo_bst d x)" "blk_refs (demo_bst d x) = (\<lambda>_. 0)" "blk_cont (demo_bst d x) = d"
    "blk_lock (demo_bst d x) = (\<lambda>_. None)" "calm (demo_bst d x)" "mypid (demo_bst d x) = 1"
    "pstate (pr (demo_bst d x) (the (curproc (demo_bst d x)))) = RUNNING" "disk (demo_bst d x) = d"
    "bst.more (demo_bst d x) = x" "writes (demo_bst d x) = []"
proof -
  note b = binit_cache [OF boot_bst_fresh [where x = x, OF assms], folded demo_bst_def]
  show "bio_ok (demo_bst d x)" "blk_refs (demo_bst d x) = (\<lambda>_. 0)" "blk_lock (demo_bst d x) = (\<lambda>_. None)"
    using b by simp_all
  show "blk_cont (demo_bst d x) = d" using b(3) by (simp add: boot_bst_def)
  show "calm (demo_bst d x)" "mypid (demo_bst d x) = 1" "disk (demo_bst d x) = d"
    "pstate (pr (demo_bst d x) (the (curproc (demo_bst d x)))) = RUNNING"
    "bst.more (demo_bst d x) = x" "writes (demo_bst d x) = []"
    using b(5) by (auto simp: boot_bst_def calm_def mypid_def pr_def run_procs_def NPROC_def)
qed

lemma zero_disk_length: "\<forall>n. length (zero_disk n) = BSIZE"
  by (simp add: zero_disk_def)

lemmas demo_zero = demo_bst_cache [OF zero_disk_length]

theorem bread_refines_witness:
  "returns (bread ROOTDEV 5 (demo_bst zero_disk ())) (\<lambda>(i, t). got t 5 i \<and> bdata (bf t i) = zero_disk 5)"
proof -
  have "room 5 (demo_bst zero_disk ())" by (simp add: room_def demo_zero NBUF_def)
  with bread_refines [OF demo_zero(1,5,7) [where x = "()"], of 5] show ?thesis
    by (simp add: demo_zero) (erule returns_mono, auto)
qed

theorem least_recently_used_witness:
  "returns (bget ROOTDEV 5 (demo_bst zero_disk ())) (\<lambda>(j, t). j = 0)"
proof -
  let ?s = "demo_bst zero_disk ()"
  have r: "ring ?s (rev [0..<NBUF])"
    unfolding demo_bst_def by (rule binit_ring) (simp add: boot_bst_def)
  have core: "bcore (bf ?s x) = bcore (bf (boot_bst zero_disk ()) x)" for x
    unfolding demo_bst_def by (rule binit_cache(6) [OF boot_bst_fresh [OF zero_disk_length]])
  have z: "refcnt (bf ?s 0) = 0" and nc: "\<not> cached ?s 5 i" for i
    using bcore_eqD(2,4) [OF core] by (auto simp: boot_bst_def bf_def zero_buf_def cached_def ROOTDEV_def
        simp del: replicate_Suc)
  have f: "find (\<lambda>b. refcnt (bf ?s b) = 0) [0..<NBUF] = Some 0"
    using z by (simp add: NBUF_def upt_conv_Cons)
  have "slot ?s 5 = None" "room 5 ?s" using nc by (simp_all add: slot_None room_def demo_zero NBUF_def)
  with least_recently_used [OF demo_zero(1,5) [where x = "()"] r, of 0 0 5] f show ?thesis
    by (auto elim!: returns_mono)
qed

end
