(* ===== verification/Block_Data.thy ===== *)
theory Block_Data
  imports Strings Phys_Mem
begin

text \<open>
  Fixed-width fields at byte offsets of a block: how the code reads and writes the
  C structures it overlays on \<^verbatim>\<open>b->data\<close> (the log header, on-disk inodes, indirect
  blocks, the free map, directory entries).
\<close>

definition bslice :: "nat \<Rightarrow> nat \<Rightarrow> bytes \<Rightarrow> bytes" where
  "bslice off k bs = take k (drop off bs)"

definition splice :: "nat \<Rightarrow> bytes \<Rightarrow> bytes \<Rightarrow> bytes" where
  "splice off xs bs = take off bs @ xs @ drop (off + length xs) bs"

definition u32_at :: "nat \<Rightarrow> bytes \<Rightarrow> u32" where
  "u32_at off bs = word_of_bytes (bslice off 4 bs)"

definition u16_at :: "nat \<Rightarrow> bytes \<Rightarrow> u16" where
  "u16_at off bs = word_of_bytes (bslice off 2 bs)"

definition set_u32 :: "nat \<Rightarrow> u32 \<Rightarrow> bytes \<Rightarrow> bytes" where
  "set_u32 off w bs = splice off (bytes_of 4 w) bs"

definition set_u16 :: "nat \<Rightarrow> u16 \<Rightarrow> bytes \<Rightarrow> bytes" where
  "set_u16 off w bs = splice off (bytes_of 2 w) bs"

lemma length_bslice [simp]: "length (bslice off k bs) = min k (length bs - off)"
  by (simp add: bslice_def min.commute)

lemma length_splice [simp]: "off + length xs \<le> length bs \<Longrightarrow> length (splice off xs bs) = length bs"
  by (simp add: splice_def)

lemma splice_nth:
  "off + length xs \<le> length bs \<Longrightarrow> i < length bs \<Longrightarrow>
   splice off xs bs ! i = (if off \<le> i \<and> i < off + length xs then xs ! (i - off) else bs ! i)"
  by (auto simp: splice_def nth_append min_def)

lemma bslice_splice_same [simp]:
  "off + length xs \<le> length bs \<Longrightarrow> bslice off (length xs) (splice off xs bs) = xs"
  by (simp add: bslice_def splice_def)

lemma bslice_nth: "i < k \<Longrightarrow> off + i < length bs \<Longrightarrow> bslice off k bs ! i = bs ! (off + i)"
  by (simp add: bslice_def)

lemma bslice_splice_other:
  assumes "off + length xs \<le> length bs" "off' + k \<le> off \<or> off + length xs \<le> off'"
  shows "bslice off' k (splice off xs bs) = bslice off' k bs"
proof (rule nth_equalityI)
  fix i assume "i < length (bslice off' k (splice off xs bs))"
  then show "bslice off' k (splice off xs bs) ! i = bslice off' k bs ! i"
    using assms by (auto simp: bslice_nth splice_nth)
qed (use assms in simp)

lemma u32_at_set_same [simp]: "off + 4 \<le> length bs \<Longrightarrow> u32_at off (set_u32 off w bs) = w"
  using bslice_splice_same [of off "bytes_of 4 w" bs]
  by (simp add: u32_at_def set_u32_def word_of_bytes_of_full)

lemma u16_at_set_same [simp]: "off + 2 \<le> length bs \<Longrightarrow> u16_at off (set_u16 off w bs) = w"
  using bslice_splice_same [of off "bytes_of 2 w" bs]
  by (simp add: u16_at_def set_u16_def word_of_bytes_of_full)

lemma u32_at_splice_other:
  "off + length xs \<le> length bs \<Longrightarrow> off' + 4 \<le> off \<or> off + length xs \<le> off' \<Longrightarrow>
   u32_at off' (splice off xs bs) = u32_at off' bs"
  by (simp add: u32_at_def bslice_splice_other)

lemma u16_at_splice_other:
  "off + length xs \<le> length bs \<Longrightarrow> off' + 2 \<le> off \<or> off + length xs \<le> off' \<Longrightarrow>
   u16_at off' (splice off xs bs) = u16_at off' bs"
  by (simp add: u16_at_def bslice_splice_other)

lemma u32_at_set_other:
  "off + 4 \<le> length bs \<Longrightarrow> off' + 4 \<le> off \<or> off + 4 \<le> off' \<Longrightarrow>
   u32_at off' (set_u32 off w bs) = u32_at off' bs"
  by (simp add: set_u32_def u32_at_splice_other)

lemma length_set_u32 [simp]: "off + 4 \<le> length bs \<Longrightarrow> length (set_u32 off w bs) = length bs"
  by (simp add: set_u32_def)

lemma length_set_u16 [simp]: "off + 2 \<le> length bs \<Longrightarrow> length (set_u16 off w bs) = length bs"
  by (simp add: set_u16_def)

end
