(* ===== verification/Log.thy ===== *)
theory Log
  imports Bio_View Block_Data
begin

text \<open>
  The write-ahead log (\<^verbatim>\<open>kernel/log.c\<close>): transactions of file-system calls, the commit
  protocol and recovery. A buffer is passed by its index. Indexing \<^verbatim>\<open>log.lh.block\<close>
  beyond its end is undefined behaviour in C; the only place where the index is not
  bounded by the code is the header read from the disk, where the model panics.
\<close>

definition MAXOPBLOCKS :: int where [xv6_consts]: "MAXOPBLOCKS = 10"
definition LOGSIZE :: nat where [xv6_consts]: "LOGSIZE = 30"

record superblock =
  sb_magic :: u32
  sb_size :: u32
  sb_nblocks :: u32
  sb_ninodes :: u32
  sb_nlog :: u32
  sb_logstart :: u32
  sb_inodestart :: u32
  sb_bmapstart :: u32

record log =
  lstart :: int
  lsize :: int
  outstanding :: int
  committing :: bool
  ldev :: u32
  lh_n :: int
  lh_block :: "u32 list"

record lst = bst +
  lg :: log

definition upd_log :: "(log \<Rightarrow> log) \<Rightarrow> 'a lst_scheme \<Rightarrow> 'a lst_scheme" where
  "upd_log f s = s\<lparr>lg := f (lg s)\<rparr>"

text \<open>\<^verbatim>\<open>log.start\<close> and \<^verbatim>\<open>log.start+tail+1\<close> as the block numbers \<^verbatim>\<open>bread\<close> receives.\<close>

definition head_blk :: "log \<Rightarrow> u32" where
  "head_blk l = word_of_int (lstart l)"

definition log_blk :: "log \<Rightarrow> nat \<Rightarrow> u32" where
  "log_blk l t = word_of_int (lstart l + int t + 1)"

section \<open>Installing and recovering\<close>

definition install_step :: "bool \<Rightarrow> nat \<Rightarrow> 'a lst_scheme \<Rightarrow> 'a lst_scheme res" where
  "install_step recovering t s =
     rbind (bread (ldev (lg s)) (log_blk (lg s) t) s) (\<lambda>(lbuf, s).
     rbind (bread (ldev (lg s)) (lh_block (lg s) ! t) s) (\<lambda>(dbuf, s).
     rbind (bwrite dbuf (set_data dbuf (bdata (bf s lbuf)) s)) (\<lambda>s.
     rbind (if \<not> recovering then bunpin dbuf s else Ok s) (\<lambda>s.
     rbind (brelse lbuf s) (brelse dbuf)))))"

fun install_loop :: "bool \<Rightarrow> nat list \<Rightarrow> 'a lst_scheme \<Rightarrow> 'a lst_scheme res" where
  "install_loop recovering [] s = Ok s"
| "install_loop recovering (t # ts) s = rbind (install_step recovering t s) (install_loop recovering ts)"

definition install_trans :: "bool \<Rightarrow> 'a lst_scheme \<Rightarrow> 'a lst_scheme res" where
  "install_trans recovering s = install_loop recovering [0..<nat (lh_n (lg s))] s"

fun read_head_loop :: "bytes \<Rightarrow> nat list \<Rightarrow> u32 list \<Rightarrow> u32 list" where
  "read_head_loop bs [] blk = blk"
| "read_head_loop bs (i # is) blk = read_head_loop bs is (blk[i := u32_at (4 + 4 * i) bs])"

definition read_head :: "'a lst_scheme \<Rightarrow> 'a lst_scheme res" where
  "read_head s =
     rbind (bread (ldev (lg s)) (head_blk (lg s)) s) (\<lambda>(b, s).
     let bs = bdata (bf s b); n = sint (u32_at 0 bs)
     in if n > int LOGSIZE then Panic ''undefined: log.lh.block index''
        else brelse b (upd_log (\<lambda>l. l\<lparr>lh_n := n,
               lh_block := read_head_loop bs [0..<nat n] (lh_block l)\<rparr>) s))"

fun write_head_loop :: "u32 list \<Rightarrow> nat list \<Rightarrow> bytes \<Rightarrow> bytes" where
  "write_head_loop blk [] bs = bs"
| "write_head_loop blk (i # is) bs = write_head_loop blk is (set_u32 (4 + 4 * i) (blk ! i) bs)"

definition head_data :: "log \<Rightarrow> bytes \<Rightarrow> bytes" where
  "head_data l bs = write_head_loop (lh_block l) [0..<nat (lh_n l)] (set_u32 0 (word_of_int (lh_n l)) bs)"

definition write_head :: "'a lst_scheme \<Rightarrow> 'a lst_scheme res" where
  "write_head s =
     rbind (bread (ldev (lg s)) (head_blk (lg s)) s) (\<lambda>(b, s).
     rbind (bwrite b (set_data b (head_data (lg s) (bdata (bf s b))) s)) (brelse b))"

definition recover_from_log :: "'a lst_scheme \<Rightarrow> 'a lst_scheme res" where
  "recover_from_log s =
     rbind (read_head s) (\<lambda>s.
     rbind (install_trans True s) (\<lambda>s.
     write_head (upd_log (\<lambda>l. l\<lparr>lh_n := 0\<rparr>) s)))"

definition initlog :: "u32 \<Rightarrow> superblock \<Rightarrow> 'a lst_scheme \<Rightarrow> 'a lst_scheme res" where
  "initlog dev sb s =
     (if 4 + 4 * LOGSIZE \<ge> BSIZE then Panic ''initlog: too big logheader''
      else recover_from_log (upd_log (\<lambda>l. l\<lparr>lstart := sint (sb_logstart sb),
             lsize := sint (sb_nlog sb), ldev := dev\<rparr>) s))"

section \<open>Transactions\<close>

definition begin_op :: "'a lst_scheme \<Rightarrow> 'a lst_scheme res" where
  "begin_op s =
     rbind (acquire L_log s) (\<lambda>s.
       if committing (lg s) then sleep Ch_log L_log s
       else if lh_n (lg s) + (outstanding (lg s) + 1) * MAXOPBLOCKS > int LOGSIZE
       then sleep Ch_log L_log s
       else release L_log (upd_log (\<lambda>l. l\<lparr>outstanding := outstanding l + 1\<rparr>) s))"

definition write_log_step :: "nat \<Rightarrow> 'a lst_scheme \<Rightarrow> 'a lst_scheme res" where
  "write_log_step t s =
     rbind (bread (ldev (lg s)) (log_blk (lg s) t) s) (\<lambda>(to, s).
     rbind (bread (ldev (lg s)) (lh_block (lg s) ! t) s) (\<lambda>(frm, s).
     rbind (bwrite to (set_data to (bdata (bf s frm)) s)) (\<lambda>s.
     rbind (brelse frm s) (brelse to))))"

fun write_log_loop :: "nat list \<Rightarrow> 'a lst_scheme \<Rightarrow> 'a lst_scheme res" where
  "write_log_loop [] s = Ok s"
| "write_log_loop (t # ts) s = rbind (write_log_step t s) (write_log_loop ts)"

definition write_log :: "'a lst_scheme \<Rightarrow> 'a lst_scheme res" where
  "write_log s = write_log_loop [0..<nat (lh_n (lg s))] s"

definition commit :: "'a lst_scheme \<Rightarrow> 'a lst_scheme res" where
  "commit s =
     (if lh_n (lg s) > 0
      then rbind (write_log s) (\<lambda>s.
           rbind (write_head s) (\<lambda>s.
           rbind (install_trans False s) (\<lambda>s.
           write_head (upd_log (\<lambda>l. l\<lparr>lh_n := 0\<rparr>) s))))
      else Ok s)"

definition end_op :: "'a lst_scheme \<Rightarrow> 'a lst_scheme res" where
  "end_op s =
     rbind (acquire L_log s) (\<lambda>s.
     let s = upd_log (\<lambda>l. l\<lparr>outstanding := outstanding l - 1\<rparr>) s in
     if committing (lg s) then Panic ''log.committing''
     else let do_commit = (outstanding (lg s) = 0) in
       rbind (if do_commit then Ok (upd_log (\<lambda>l. l\<lparr>committing := True\<rparr>) s) else wakeup Ch_log s) (\<lambda>s.
       rbind (release L_log s) (\<lambda>s.
       if do_commit
       then rbind (commit s) (\<lambda>s.
            rbind (acquire L_log s) (\<lambda>s.
            rbind (wakeup Ch_log (upd_log (\<lambda>l. l\<lparr>committing := False\<rparr>) s)) (release L_log)))
       else Ok s)))"

definition log_write :: "nat \<Rightarrow> 'a lst_scheme \<Rightarrow> 'a lst_scheme res" where
  "log_write b s =
     rbind (acquire L_log s) (\<lambda>s.
     if lh_n (lg s) \<ge> int LOGSIZE \<or> lh_n (lg s) \<ge> lsize (lg s) - 1 then Panic ''too big a transaction''
     else if outstanding (lg s) < 1 then Panic ''log_write outside of trans''
     else let n = nat (lh_n (lg s));
              i = (case find_idx (\<lambda>w. w = blockno (bf s b)) (take n (lh_block (lg s))) of
                     None \<Rightarrow> n | Some k \<Rightarrow> k);
              s = upd_log (\<lambda>l. l\<lparr>lh_block := (lh_block l)[i := blockno (bf s b)]\<rparr>) s
          in rbind (if i = n then rbind (bpin b s) (\<lambda>s. Ok (upd_log (\<lambda>l. l\<lparr>lh_n := lh_n l + 1\<rparr>) s))
                    else Ok s) (release L_log))"

end
