(* ===== verification/Log_Steps.thy ===== *)
theory Log_Steps
  imports Log
begin

text \<open>
  The steps of commit and recovery as updates of the abstract cache: which blocks
  each one writes to the disk, in which order, and that none of them can panic or
  block while no other thread uses the blocks of the transaction.
\<close>

section \<open>Sequences of cache operations\<close>

definition bquiet :: "'a bst_scheme \<Rightarrow> 'a bst_scheme \<Rightarrow> bool" where
  "bquiet s t \<longleftrightarrow>
     (\<exists>ps sl bs d w. t = s\<lparr>procs := ps, slks := sl, bufs := bs, disk := d, writes := w\<rparr>) \<and>
     woken (curproc s) (procs s) (procs t) \<and>
     (\<forall>k. slks t (Slk_inode k) = slks s (Slk_inode k))"

definition brun :: "'a bst_scheme \<Rightarrow> (bview \<Rightarrow> bview) \<Rightarrow> 'a bst_scheme \<Rightarrow> bool" where
  "brun s f t \<longleftrightarrow> bio_ok t \<and> bview t = f (bview s) \<and> bquiet s t"

lemma bop_brun: "bop s f t \<Longrightarrow> brun s f t"
  unfolding bop_def brun_def bframe_def bquiet_def by blast

lemma bop_id:
  assumes "bio_ok s"
  shows "bop s id s"
proof -
  have "s = s\<lparr>procs := procs s, slks := slks s, bufs := bufs s, disk := disk s, writes := writes s\<rparr>" by simp
  then show ?thesis using assms unfolding bop_def bframe_def by (metis id_apply woken_refl)
qed

lemma bquiet_trans:
  assumes st: "bquiet s t" and tu: "bquiet t u"
  shows "bquiet s u"
proof -
  obtain ps sl bs d w where t: "t = s\<lparr>procs := ps, slks := sl, bufs := bs, disk := d, writes := w\<rparr>"
    using st unfolding bquiet_def by blast
  obtain ps' sl' bs' d' w' where u: "u = t\<lparr>procs := ps', slks := sl', bufs := bs', disk := d', writes := w'\<rparr>"
    using tu unfolding bquiet_def by blast
  have cur: "curproc t = curproc s" using t by simp
  have "u = s\<lparr>procs := ps', slks := sl', bufs := bs', disk := d', writes := w'\<rparr>" using t u by simp
  then have "\<exists>ps sl bs d w. u = s\<lparr>procs := ps, slks := sl, bufs := bs, disk := d, writes := w\<rparr>" by blast
  moreover have "woken (curproc s) (procs s) (procs u)"
    using st tu cur woken_trans unfolding bquiet_def by metis
  moreover have "slks u (Slk_inode k) = slks s (Slk_inode k)" for k using st tu by (simp add: bquiet_def)
  ultimately show ?thesis unfolding bquiet_def by blast
qed

lemma brun_trans: "brun s f t \<Longrightarrow> brun t g u \<Longrightarrow> brun s (g \<circ> f) u"
  by (auto simp: brun_def intro: bquiet_trans)

lemma brun_calm:
  assumes "brun s f t" "calm s"
  shows "calm t" "mypid t = mypid s" "bio_ok t"
proof -
  have e: "curproc t = curproc s" "held t = held s" and w: "woken (curproc s) (procs s) (procs t)"
    using assms(1) by (auto simp: brun_def bquiet_def)
  show "calm t" using assms(2) e woken_length [OF w] by (simp add: calm_def)
  show "mypid t = mypid s"
    using assms(2) e woken_pid [OF w] by (auto simp: calm_def mypid_def pr_def)
  show "bio_ok t" using assms(1) by (simp add: brun_def)
qed

lemma brun_sels:
  assumes "brun s f t"
  shows "blk_refs t = vrefs (f (bview s))" "blk_cont t = vcont (f (bview s))"
    "blk_lock t = vlock (f (bview s))" "disk t = vdisk (f (bview s))" "writes t = vwrites (f (bview s))"
proof -
  have "bview t = f (bview s)" using assms by (simp add: brun_def)
  then show "blk_refs t = vrefs (f (bview s))" "blk_cont t = vcont (f (bview s))"
    "blk_lock t = vlock (f (bview s))" "disk t = vdisk (f (bview s))" "writes t = vwrites (f (bview s))"
    by (metis bview_sels)+
qed

lemma brun_lg:
  fixes s :: "'a lst_scheme"
  shows "brun s f t \<Longrightarrow> lg t = lg s"
  by (auto simp: brun_def bquiet_def)

lemma brun_lst_more:
  fixes s :: "'a lst_scheme"
  shows "brun s f t \<Longrightarrow> lst.more t = lst.more s"
  by (auto simp: brun_def bquiet_def)

lemma got_step:
  "bop s f t \<Longrightarrow> calm s \<Longrightarrow> bio_ok s \<Longrightarrow> got s n i \<Longrightarrow> vlock (f (bview s)) n = blk_lock s n \<Longrightarrow> got t n i"
  using bframe_got [of s t n i] bop_sels(3) [of s f t] by (simp add: bop_def)

text \<open>A buffer without references agrees with the disk.\<close>

lemma unref_clean:
  assumes ok: "bio_ok s" and r: "blk_refs s n = 0"
  shows "blk_cont s n = disk s n"
proof (cases "slot s n")
  case (Some i)
  then have i: "cached s n i" by (simp add: slot_Some [OF ok])
  then have "refcnt (bf s i) = 0" using view_cached(1) [OF ok i] r by (simp add: unsigned_eq_0_iff)
  with cached_buf_ok [OF ok i] i Some show ?thesis by (simp add: blk_cont_def buf_ok_def cached_def)
qed (simp add: blk_cont_def)

definition fits :: "u32 set \<Rightarrow> bview \<Rightarrow> bool" where
  "fits A v \<longleftrightarrow> card ({m. 0 < vrefs v m} \<union> A) \<le> NBUF"

lemma fits_room:
  assumes "fits A (bview s)" "n \<in> A"
  shows "room n s"
proof (cases "0 < blk_refs s n")
  case False
  have "card {m. 0 < blk_refs s m} < card ({m. 0 < blk_refs s m} \<union> A)"
  proof (rule psubset_card_mono)
    have "n \<notin> {m. 0 < blk_refs s m}" using False by simp
    then show "{m. 0 < blk_refs s m} \<subset> {m. 0 < blk_refs s m} \<union> A" using assms(2) by blast
  qed simp
  then show ?thesis using assms(1) by (simp add: room_def fits_def)
qed (simp add: room_def)

lemma fits_get: "fits A v \<Longrightarrow> n \<in> A \<Longrightarrow> fits A (v_get n p v)"
proof -
  assume "fits A v" "n \<in> A"
  moreover have "{m. 0 < vrefs (v_get n p v) m} \<union> A = {m. 0 < vrefs v m} \<union> A"
    using \<open>n \<in> A\<close> by (auto simp: v_get_def)
  ultimately show ?thesis by (simp add: fits_def)
qed

lemma bread2:
  assumes ok: "bio_ok s" "calm s" and ab: "a \<noteq> b" "blk_lock s a = None" "blk_lock s b = None"
    and f: "fits {a, b} (bview s)" and ov: "blk_refs s a + 1 < 2 ^ 32" "blk_refs s b + 1 < 2 ^ 32"
  obtains i j s1 s2 where "bread ROOTDEV a s = Ok (i, s1)" "bread ROOTDEV b s1 = Ok (j, s2)"
    "got s2 a i" "got s2 b j" "brun s (v_get a (mypid s)) s1"
    "brun s (v_get b (mypid s) \<circ> v_get a (mypid s)) s2"
proof -
  have "returns (bread ROOTDEV a s) (\<lambda>(i, t). got t a i \<and> bop s (v_get a (mypid s)) t)"
    by (rule bread_gets [OF ok ab(2) fits_room [OF f] ov(1)]) simp
  then obtain i s1 where 1: "bread ROOTDEV a s = Ok (i, s1)" "got s1 a i" "bop s (v_get a (mypid s)) s1"
    by (auto elim: returnsE)
  note c1 = bop_calm [OF 1(3) ok(2)] and v1 = bop_sels [OF 1(3)]
  have "fits {a, b} (bview s1)"
    using fits_get [OF f, of a "mypid s"] 1(3) by (simp add: bop_def)
  then have "room b s1" by (rule fits_room) simp
  then have "returns (bread ROOTDEV b s1) (\<lambda>(i, t). got t b i \<and> bop s1 (v_get b (mypid s1)) t)"
    using c1 ab ov(2) v1 by (intro bread_gets) (simp_all add: v_get_def)
  then obtain j s2 where 2: "bread ROOTDEV b s1 = Ok (j, s2)" "got s2 b j" "bop s1 (v_get b (mypid s)) s2"
    using c1 by (auto elim: returnsE)
  have "got s2 a i" by (rule got_step [OF 2(3)]) (use c1 1 ab v1 in \<open>simp_all add: v_get_def\<close>)
  then show ?thesis
    using that [OF 1(1) 2(1) _ 2(2) bop_brun [OF 1(3)] brun_trans [OF bop_brun [OF 1(3)] bop_brun [OF 2(3)]]]
    by blast
qed


section \<open>Copying one block to another\<close>

lemma cont_length:
  assumes ok: "bio_ok s"
  shows "length (blk_cont s n) = BSIZE"
proof (cases "slot s n")
  case (Some i)
  then have "buf_ok s i" using cached_buf_ok [OF ok] by (simp add: slot_Some [OF ok])
  then show ?thesis using ok Some by (auto simp: blk_cont_def buf_ok_def bio_ok_def)
qed (use ok in \<open>simp add: blk_cont_def bio_ok_def\<close>)

text \<open>The common end of a step of \<^verbatim>\<open>write_log\<close> and \<^verbatim>\<open>install_trans\<close>: the source is copied to
  the target, the target is written, and both are released.\<close>

lemma copy_tail:
  assumes ok: "bio_ok s" "calm s" and g: "got s a i" "got s b j" "a \<noteq> b"
    and u: "u \<Longrightarrow> 1 < blk_refs s a" and cl: "blk_refs s b = 1 \<Longrightarrow> blk_cont s b = disk s b"
  shows "returns (rbind (bwrite i (set_data i (bdata (bf s j)) s)) (\<lambda>s.
      rbind (if u then bunpin i s else Ok s) (\<lambda>s. rbind (brelse j s) (brelse i))))
    (brun s (v_put a \<circ> v_put b \<circ> (if u then v_unpin a else id) \<circ> v_write a \<circ> v_set a (blk_cont s b)))"
proof -
  let ?s1 = "set_data i (bdata (bf s j)) s"
  have src: "bdata (bf s j) = blk_cont s b" using gotD(3) [OF ok(1) g(2)] .
  have o1: "bop s (v_set a (blk_cont s b)) ?s1"
    unfolding src by (rule set_data_sets [OF ok(1) g(1)]) (rule cont_length [OF ok(1)])
  note c1 = bop_calm [OF o1 ok(2)] and v1 = bop_sels [OF o1]
  have g1: "got ?s1 a i" "got ?s1 b j" using got_step [OF o1 ok(2,1)] g by (simp_all add: v_set_def)
  obtain s2 where 2: "bwrite i ?s1 = Ok s2" "bop ?s1 (v_write a) s2"
    using bwrite_writes [OF _ _ g1(1)] c1 by (auto elim: returnsE)
  note c2 = bop_calm [OF 2(2)] and v2 = bop_sels [OF 2(2)]
  have g2: "got s2 a i" "got s2 b j" using got_step [OF 2(2)] c1 g1 by (simp_all add: v_write_def)
  define f where "f = (if u then v_unpin a else id)"
  obtain s3 where 3: "(if u then bunpin i s2 else Ok s2) = Ok s3" "bop s2 f s3"
  proof (cases u)
    case True
    have "returns (bunpin i s2) (bop s2 (v_unpin a))"
      using c1 c2 g2 u [OF True] v1 v2 gotD(1)
      by (intro bunpin_unpins) (auto simp: v_write_def v_set_def calm_def)
    then show ?thesis using that True by (auto simp: f_def elim: returnsE)
  next
    case False
    then show ?thesis using that [of s2] bop_id [of s2] c1 c2 by (simp add: f_def)
  qed
  note c3 = bop_calm [OF 3(2)] and v3 = bop_sels [OF 3(2)]
  have fl: "vlock (f v) = vlock v" "vcont (f v) = vcont v" "vdisk (f v) = vdisk v" "vrefs (f v) b = vrefs v b" for v
    using g(3) by (simp_all add: f_def v_unpin_def)
  have g3: "got s3 a i" "got s3 b j" using got_step [OF 3(2)] c1 c2 g2 by (simp_all add: fl)
  have e3: "blk_refs s3 b = blk_refs s b" "blk_cont s3 b = blk_cont s b" "disk s3 b = disk s b"
    "blk_cont s3 a = disk s3 a"
    using v1 v2 v3 g(3) by (simp_all add: fl v_write_def v_set_def)
  obtain s4 where 4: "brelse j s3 = Ok s4" "bop s3 (v_put b) s4"
    using brelse_puts [OF _ _ g3(2)] c1 c2 c3 cl e3 by (auto elim: returnsE)
  note c4 = bop_calm [OF 4(2)] and v4 = bop_sels [OF 4(2)]
  have g4: "got s4 a i" by (rule got_step [OF 4(2)]) (use c1 c2 c3 g3 g(3) in \<open>simp_all add: v_put_def\<close>)
  obtain s5 where 5: "brelse i s4 = Ok s5" "bop s4 (v_put a) s5"
    using brelse_puts [OF _ _ g4] c1 c2 c3 c4 v4 e3 by (auto simp: v_put_def elim: returnsE)
  have "brun s (v_put a \<circ> (v_put b \<circ> (f \<circ> (v_write a \<circ> v_set a (blk_cont s b))))) s5"
    using bop_brun [OF o1] bop_brun [OF 2(2)] bop_brun [OF 3(2)] bop_brun [OF 4(2)] bop_brun [OF 5(2)]
    by (blast intro: brun_trans)
  then show ?thesis
    using 2(1) 3(1) 4(1) 5(1) by (simp add: comp_assoc f_def [symmetric])
qed


text \<open>The net effect: block \<open>b\<close> gets the contents of block \<open>a\<close>, also on the disk.\<close>

definition v_copy :: "u32 \<Rightarrow> u32 \<Rightarrow> bview \<Rightarrow> bview" where
  "v_copy a b v = v\<lparr>vdisk := (vdisk v)(b := vcont v a), vcont := (vcont v)(b := vcont v a),
     vwrites := vwrites v @ [(b, vcont v a)]\<rparr>"

definition copyable :: "u32 \<Rightarrow> u32 \<Rightarrow> bview \<Rightarrow> bool" where
  "copyable a b v \<longleftrightarrow> a \<noteq> b \<and> vlock v a = None \<and> vlock v b = None \<and> fits {a, b} v \<and>
     vrefs v a + 1 < 2 ^ 32 \<and> vrefs v b + 1 < 2 ^ 32"

lemma copy_view:
  assumes "copyable a b v" "u \<Longrightarrow> 0 < vrefs v b" "w = v_get a p (v_get b p v) \<or> w = v_get b p (v_get a p v)"
  shows "v_put b (v_put a ((if u then v_unpin b else id) (v_write b (v_set b (vcont v a) w)))) =
    (if u then v_unpin b else id) (v_copy a b v)"
  using assms
  by (intro bview_eqI; cases u) (auto simp: copyable_def v_put_def v_unpin_def v_write_def v_set_def v_get_def
      v_copy_def fun_eq_iff)

lemma write_log_step_run:
  fixes s :: "'a lst_scheme"
  assumes ok: "bio_ok s" "calm s" "ldev (lg s) = ROOTDEV"
    and c: "copyable (lh_block (lg s) ! t) (log_blk (lg s) t) (bview s)"
  shows "returns (write_log_step t s) (brun s (v_copy (lh_block (lg s) ! t) (log_blk (lg s) t)))"
proof -
  let ?a = "lh_block (lg s) ! t" and ?b = "log_blk (lg s) t"
  have pre: "?b \<noteq> ?a" "blk_lock s ?b = None" "blk_lock s ?a = None" "fits {?b, ?a} (bview s)"
    "blk_refs s ?b + 1 < 2 ^ 32" "blk_refs s ?a + 1 < 2 ^ 32"
    using c by (auto simp: copyable_def insert_commute)
  obtain i j s1 s2 where r: "bread ROOTDEV ?b s = Ok (i, s1)" "bread ROOTDEV ?a s1 = Ok (j, s2)"
    and g: "got s2 ?b i" "got s2 ?a j" and b1: "brun s (v_get ?b (mypid s)) s1"
    and b2: "brun s (v_get ?a (mypid s) \<circ> v_get ?b (mypid s)) s2"
    by (rule bread2 [OF ok(1,2) pre]) blast
  note v2 = brun_sels [OF b2]
  have cont: "blk_cont s2 ?a = vcont (bview s) ?a" using v2(2) by (simp add: v_get_def)
  have cl: "blk_refs s2 ?a = 1 \<Longrightarrow> blk_cont s2 ?a = disk s2 ?a"
    using v2 pre(1) unref_clean [OF ok(1), of ?a] by (auto simp: v_get_def)
  have "returns (rbind (bwrite i (set_data i (bdata (bf s2 j)) s2)) (\<lambda>s.
      rbind (if False then bunpin i s else Ok s) (\<lambda>s. rbind (brelse j s) (brelse i))))
    (brun s2 (v_put ?b \<circ> v_put ?a \<circ> (if False then v_unpin ?b else id) \<circ> v_write ?b \<circ> v_set ?b (blk_cont s2 ?a)))"
    by (rule copy_tail [OF brun_calm(3,1) [OF b2 ok(2)] g pre(1)]) (use cl in simp_all)
  then obtain s3 where s3: "rbind (bwrite i (set_data i (bdata (bf s2 j)) s2)) (\<lambda>s.
      rbind (if False then bunpin i s else Ok s) (\<lambda>s. rbind (brelse j s) (brelse i))) = Ok s3"
    and b3: "brun s2 (v_put ?b \<circ> v_put ?a \<circ> (if False then v_unpin ?b else id) \<circ> v_write ?b \<circ>
      v_set ?b (blk_cont s2 ?a)) s3"
    by (rule returnsE)
  have "brun s (v_copy ?a ?b) s3"
    using brun_trans [OF b2 b3] copy_view [OF c, of False "v_get ?a (mypid s) (v_get ?b (mypid s) (bview s))" "mypid s"]
    unfolding cont brun_def by simp
  then show ?thesis
    using r s3 ok(3) brun_lg [OF b1] by (simp add: write_log_step_def)
qed

lemma install_step_run:
  fixes s :: "'a lst_scheme"
  assumes ok: "bio_ok s" "calm s" "ldev (lg s) = ROOTDEV"
    and c: "copyable (log_blk (lg s) t) (lh_block (lg s) ! t) (bview s)"
    and p: "\<not> recovering \<Longrightarrow> 0 < blk_refs s (lh_block (lg s) ! t)"
  shows "returns (install_step recovering t s)
    (brun s (\<lambda>v. (if recovering then id else v_unpin (lh_block (lg s) ! t))
                  (v_copy (log_blk (lg s) t) (lh_block (lg s) ! t) v)))"
proof -
  let ?a = "log_blk (lg s) t" and ?b = "lh_block (lg s) ! t" and ?u = "\<not> recovering"
  have pre: "?a \<noteq> ?b" "blk_lock s ?a = None" "blk_lock s ?b = None" "fits {?a, ?b} (bview s)"
    "blk_refs s ?a + 1 < 2 ^ 32" "blk_refs s ?b + 1 < 2 ^ 32"
    using c by (auto simp: copyable_def)
  obtain i j s1 s2 where r: "bread ROOTDEV ?a s = Ok (i, s1)" "bread ROOTDEV ?b s1 = Ok (j, s2)"
    and g: "got s2 ?a i" "got s2 ?b j" and b1: "brun s (v_get ?a (mypid s)) s1"
    and b2: "brun s (v_get ?b (mypid s) \<circ> v_get ?a (mypid s)) s2"
    by (rule bread2 [OF ok(1,2) pre]) blast
  note v2 = brun_sels [OF b2]
  have cont: "blk_cont s2 ?a = vcont (bview s) ?a" using v2(2) by (simp add: v_get_def)
  have cl: "blk_refs s2 ?a = 1 \<Longrightarrow> blk_cont s2 ?a = disk s2 ?a"
    using v2 pre(1) unref_clean [OF ok(1), of ?a] by (auto simp: v_get_def)
  have u: "1 < blk_refs s2 ?b" if ?u using v2(1) p that pre(1) by (simp add: v_get_def)
  have "returns (rbind (bwrite j (set_data j (bdata (bf s2 i)) s2)) (\<lambda>s.
      rbind (if ?u then bunpin j s else Ok s) (\<lambda>s. rbind (brelse i s) (brelse j))))
    (brun s2 (v_put ?b \<circ> v_put ?a \<circ> (if ?u then v_unpin ?b else id) \<circ> v_write ?b \<circ> v_set ?b (blk_cont s2 ?a)))"
    by (rule copy_tail [OF brun_calm(3,1) [OF b2 ok(2)] g(2,1) pre(1) [symmetric]]) (use cl u in simp_all)
  then obtain s3 where s3: "rbind (bwrite j (set_data j (bdata (bf s2 i)) s2)) (\<lambda>s.
      rbind (if ?u then bunpin j s else Ok s) (\<lambda>s. rbind (brelse i s) (brelse j))) = Ok s3"
    and b3: "brun s2 (v_put ?b \<circ> v_put ?a \<circ> (if ?u then v_unpin ?b else id) \<circ> v_write ?b \<circ>
      v_set ?b (blk_cont s2 ?a)) s3"
    by (rule returnsE)
  have "(v_put ?b \<circ> v_put ?a \<circ> (if ?u then v_unpin ?b else id) \<circ> v_write ?b \<circ> v_set ?b (blk_cont s2 ?a))
      (v_get ?b (mypid s) (v_get ?a (mypid s) (bview s))) = (if ?u then v_unpin ?b else id) (v_copy ?a ?b (bview s))"
    using copy_view [OF c, of ?u "v_get ?b (mypid s) (v_get ?a (mypid s) (bview s))" "mypid s"] p
    by (simp add: cont)
  then have "brun s (\<lambda>v. (if recovering then id else v_unpin ?b) (v_copy ?a ?b v)) s3"
    using brun_trans [OF b2 b3] unfolding brun_def by (cases recovering) simp_all
  then show ?thesis
    using r s3 ok(3) brun_lg [OF b1] by (simp add: install_step_def)
qed


section \<open>Passes over the log\<close>

text \<open>A loop over the blocks of a transaction, each step with a known effect.\<close>

locale log_pass =
  fixes loop :: "nat list \<Rightarrow> 'a lst_scheme \<Rightarrow> 'a lst_scheme res"
    and step :: "nat \<Rightarrow> 'a lst_scheme \<Rightarrow> 'a lst_scheme res"
    and eff :: "log \<Rightarrow> nat \<Rightarrow> bview \<Rightarrow> bview"
    and ready :: "log \<Rightarrow> nat list \<Rightarrow> bview \<Rightarrow> bool"
  assumes loop_Nil: "loop [] s = Ok s"
    and loop_Cons: "loop (t # ts) s = rbind (step t s) (loop ts)"
    and step_eff: "bio_ok s \<Longrightarrow> calm s \<Longrightarrow> ready (lg s) (t # ts) (bview s) \<Longrightarrow>
      returns (step t s) (brun s (eff (lg s) t))"
    and ready_eff: "ready l (t # ts) v \<Longrightarrow> ready l ts (eff l t v)"
begin

lemma pass:
  "bio_ok s \<Longrightarrow> calm s \<Longrightarrow> ready (lg s) ts (bview s) \<Longrightarrow> returns (loop ts s) (brun s (fold (eff (lg s)) ts))"
proof (induction ts arbitrary: s)
  case Nil
  then show ?case using bop_brun [OF bop_id [OF Nil.prems(1)]] by (simp add: loop_Nil id_def)
next
  case (Cons t ts)
  obtain s1 where 1: "step t s = Ok s1" "brun s (eff (lg s) t) s1"
    using step_eff [OF Cons.prems] by (auto elim: returnsE)
  have "ready (lg s1) ts (bview s1)"
    using ready_eff [OF Cons.prems(3)] 1(2) brun_lg [OF 1(2)] by (simp add: brun_def)
  with Cons.IH [OF brun_calm(3,1) [OF 1(2) Cons.prems(2)]]
  obtain s2 where 2: "loop ts s1 = Ok s2" "brun s1 (fold (eff (lg s)) ts) s2"
    using brun_lg [OF 1(2)] by (auto elim: returnsE)
  from brun_trans [OF 1(2) 2(2)] show ?case by (simp add: loop_Cons 1 2 comp_def)
qed

end

definition write_eff :: "log \<Rightarrow> nat \<Rightarrow> bview \<Rightarrow> bview" where
  "write_eff l t = v_copy (lh_block l ! t) (log_blk l t)"

definition write_ready :: "log \<Rightarrow> nat list \<Rightarrow> bview \<Rightarrow> bool" where
  "write_ready l ts v \<longleftrightarrow> ldev l = ROOTDEV \<and> (\<forall>t\<in>set ts. copyable (lh_block l ! t) (log_blk l t) v)"

definition install_eff :: "bool \<Rightarrow> log \<Rightarrow> nat \<Rightarrow> bview \<Rightarrow> bview" where
  "install_eff recovering l t v =
     (if recovering then id else v_unpin (lh_block l ! t)) (v_copy (log_blk l t) (lh_block l ! t) v)"

definition install_ready :: "bool \<Rightarrow> log \<Rightarrow> nat list \<Rightarrow> bview \<Rightarrow> bool" where
  "install_ready recovering l ts v \<longleftrightarrow> ldev l = ROOTDEV \<and>
     (\<forall>t\<in>set ts. copyable (log_blk l t) (lh_block l ! t) v) \<and>
     (\<not> recovering \<longrightarrow> distinct ts \<and> inj_on ((!) (lh_block l)) (set ts) \<and>
        (\<forall>t\<in>set ts. 0 < vrefs v (lh_block l ! t)))"

lemma copyable_copy: "copyable a b (v_copy c d v) \<longleftrightarrow> copyable a b v"
  by (simp add: copyable_def v_copy_def fits_def)

lemma copyable_unpin: "copyable a b v \<Longrightarrow> copyable a b (v_unpin c v)"
proof -
  assume c: "copyable a b v"
  have "card ({m. 0 < vrefs (v_unpin c v) m} \<union> {a, b}) \<le> card ({m. 0 < vrefs v m} \<union> {a, b})"
    by (rule card_mono) (auto simp: v_unpin_def split: if_splits)
  with c show ?thesis by (auto simp: copyable_def fits_def v_unpin_def)
qed

interpretation write_pass: log_pass write_log_loop write_log_step write_eff write_ready
  by unfold_locales
    (auto simp: write_ready_def write_eff_def copyable_copy intro: write_log_step_run)

interpretation install_pass: log_pass "install_loop recovering" "install_step recovering"
  "install_eff recovering" "install_ready recovering" for recovering
proof unfold_locales
  fix s :: "'a lst_scheme" and t ts
  assume "bio_ok s" "calm s" "install_ready recovering (lg s) (t # ts) (bview s)"
  then show "returns (install_step recovering t s) (brun s (install_eff recovering (lg s) t))"
    using install_step_run [of s t recovering] unfolding install_ready_def install_eff_def [abs_def] by simp
next
  fix l t ts v
  assume r: "install_ready recovering l (t # ts) v"
  have "vrefs (install_eff recovering l t v) (lh_block l ! k) = vrefs v (lh_block l ! k)"
    if "\<not> recovering" "k \<in> set ts" for k
    using r that by (auto simp: install_ready_def install_eff_def v_unpin_def v_copy_def inj_on_def)
  with r show "install_ready recovering l ts (install_eff recovering l t v)"
    by (auto simp: install_ready_def install_eff_def copyable_copy intro: copyable_unpin)
qed simp_all


section \<open>The header\<close>

definition v_store :: "u32 \<Rightarrow> bytes \<Rightarrow> bview \<Rightarrow> bview" where
  "v_store n d v = v\<lparr>vdisk := (vdisk v)(n := d), vcont := (vcont v)(n := d), vwrites := vwrites v @ [(n, d)]\<rparr>"

lemma upd_log_frame [simp]:
  "held (upd_log f s) = held s" "procs (upd_log f s) = procs s" "curproc (upd_log f s) = curproc s"
  "disk (upd_log f s) = disk s" "writes (upd_log f s) = writes s" "slks (upd_log f s) = slks s"
  "bufs (upd_log f s) = bufs s" "bf (upd_log f s) i = bf s i" "lg (upd_log f s) = f (lg s)"
  by (simp_all add: upd_log_def bf_def)

lemma slot_upd_log [simp]: "slot (upd_log f s) = slot s"
  by (rule slot_cong) simp

lemma bview_upd_log [simp]: "bview (upd_log f s) = bview s"
  by (rule bview_eqI) (simp_all add: blk_cont_def blk_refs_def blk_lock_def fun_eq_iff split: option.split)

lemma linked_upd_log [simp]: "linked (upd_log f s) xs = linked s xs"
  by (rule linked_cong) simp

lemma bio_ok_upd_log [simp]: "bio_ok (upd_log f s) = bio_ok s"
  by (simp add: bio_ok_def ring_def buf_ok_def cached_def)

lemma calm_upd_log [simp]: "calm (upd_log f s) = calm s" "mypid (upd_log f s) = mypid s"
  by (simp_all add: calm_def mypid_def pr_def)

lemma head_loop_length:
  "\<forall>i\<in>set is. 4 * i + 8 \<le> length bs \<Longrightarrow> length (write_head_loop blk is bs) = length bs"
  by (induction "is" arbitrary: bs) auto

lemma head_loop_other:
  "\<forall>i\<in>set is. 4 * i + 8 \<le> length bs \<Longrightarrow> k \<notin> set is \<Longrightarrow>
   u32_at (4 + 4 * k) (write_head_loop blk is bs) = u32_at (4 + 4 * k) bs"
proof (induction "is" arbitrary: bs)
  case (Cons i "is")
  have "i \<noteq> k" using Cons.prems by auto
  then have "4 + 4 * k + 4 \<le> 4 + 4 * i \<or> 4 + 4 * i + 4 \<le> 4 + 4 * k" by arith
  with Cons show ?case by (simp add: u32_at_set_other)
qed simp

lemma head_loop_same:
  "\<forall>i\<in>set is. 4 * i + 8 \<le> length bs \<Longrightarrow> distinct is \<Longrightarrow> k \<in> set is \<Longrightarrow>
   u32_at (4 + 4 * k) (write_head_loop blk is bs) = blk ! k"
  by (induction "is" arbitrary: bs) (auto simp: head_loop_other)

lemma head_loop_0:
  "\<forall>i\<in>set is. 4 * i + 8 \<le> length bs \<Longrightarrow> u32_at 0 (write_head_loop blk is bs) = u32_at 0 bs"
  by (induction "is" arbitrary: bs) (auto simp: u32_at_set_other)

lemma head_data_fields:
  assumes "length bs = BSIZE" "0 \<le> lh_n l" "lh_n l \<le> int LOGSIZE"
  shows "length (head_data l bs) = BSIZE" "sint (u32_at 0 (head_data l bs)) = lh_n l"
    "k < nat (lh_n l) \<Longrightarrow> u32_at (4 + 4 * k) (head_data l bs) = lh_block l ! k"
proof -
  have i: "\<forall>i\<in>set [0..<nat (lh_n l)]. 4 * i + 8 \<le> length (set_u32 0 (word_of_int (lh_n l)) bs)"
    using assms by (auto simp: BSIZE_def LOGSIZE_def)
  show "length (head_data l bs) = BSIZE"
    using head_loop_length [OF i] assms(1) by (simp add: head_data_def BSIZE_def)
  show "u32_at (4 + 4 * k) (head_data l bs) = lh_block l ! k" if "k < nat (lh_n l)"
    unfolding head_data_def by (rule head_loop_same [OF i]) (use that in simp_all)
  have "sint (word_of_int (lh_n l) :: u32) = lh_n l"
    using assms(2,3) by (simp add: sint_sbintrunc' signed_take_bit_int_eq_self LOGSIZE_def)
  then show "sint (u32_at 0 (head_data l bs)) = lh_n l"
    unfolding head_data_def head_loop_0 [OF i] using assms(1) by (simp add: BSIZE_def)
qed

lemma write_head_run:
  fixes s :: "'a lst_scheme"
  assumes ok: "bio_ok s" "calm s" "ldev (lg s) = ROOTDEV" "0 \<le> lh_n (lg s)" "lh_n (lg s) \<le> int LOGSIZE"
    and h: "blk_lock s (head_blk (lg s)) = None" "blk_refs s (head_blk (lg s)) = 0"
      "fits {head_blk (lg s)} (bview s)"
  shows "returns (write_head s)
    (brun s (v_store (head_blk (lg s)) (head_data (lg s) (blk_cont s (head_blk (lg s))))))"
proof -
  let ?h = "head_blk (lg s)"
  have "returns (bread ROOTDEV ?h s) (\<lambda>(i, t). got t ?h i \<and> bop s (v_get ?h (mypid s)) t)"
    by (rule bread_gets [OF ok(1,2) h(1) fits_room [OF h(3)]]) (use h(2) in simp_all)
  then obtain i s1 where 1: "bread ROOTDEV ?h s = Ok (i, s1)" "got s1 ?h i" "bop s (v_get ?h (mypid s)) s1"
    by (auto elim: returnsE)
  note c1 = bop_calm [OF 1(3) ok(2)] and v1 = bop_sels [OF 1(3)]
  have lg1: "lg s1 = lg s" using brun_lg [OF bop_brun [OF 1(3)]] .
  have d: "bdata (bf s1 i) = blk_cont s ?h" using gotD(3) [OF _ 1(2)] c1 v1(2) by (simp add: v_get_def)
  let ?d = "head_data (lg s) (blk_cont s ?h)"
  have o2: "bop s1 (v_set ?h ?d) (set_data i ?d s1)"
    using c1 head_data_fields(1) [OF cont_length [OF ok(1)] ok(4,5)] by (intro set_data_sets [OF _ 1(2)]) simp_all
  note c2 = bop_calm [OF o2] and v2 = bop_sels [OF o2]
  have g2: "got (set_data i ?d s1) ?h i" using got_step [OF o2] c1 1(2) by (simp add: v_set_def)
  obtain s3 where 3: "bwrite i (set_data i ?d s1) = Ok s3" "bop (set_data i ?d s1) (v_write ?h) s3"
    using bwrite_writes [OF _ _ g2] c1 c2 by (auto elim: returnsE)
  note c3 = bop_calm [OF 3(2)] and v3 = bop_sels [OF 3(2)]
  have g3: "got s3 ?h i" using got_step [OF 3(2)] c1 c2 g2 by (simp add: v_write_def)
  obtain s4 where 4: "brelse i s3 = Ok s4" "bop s3 (v_put ?h) s4"
    using brelse_puts [OF _ _ g3] c1 c2 c3 v3 by (auto simp: v_write_def elim: returnsE)
  have "brun s (v_put ?h \<circ> (v_write ?h \<circ> (v_set ?h ?d \<circ> v_get ?h (mypid s)))) s4"
    using bop_brun [OF 1(3)] bop_brun [OF o2] bop_brun [OF 3(2)] bop_brun [OF 4(2)] by (blast intro: brun_trans)
  moreover have "(v_put ?h \<circ> (v_write ?h \<circ> (v_set ?h ?d \<circ> v_get ?h (mypid s)))) (bview s) = v_store ?h ?d (bview s)"
    using h(1) by (intro bview_eqI) (auto simp: v_put_def v_write_def v_set_def v_get_def v_store_def)
  ultimately have "brun s (v_store ?h ?d) s4" by (simp add: brun_def)
  then show ?thesis using 1(1) 3(1) 4(1) ok(3) d lg1 by (simp add: write_head_def)
qed

end
