(* ===== verification/Log_Crash.thy ===== *)
theory Log_Crash
  imports Log_Steps
begin

text \<open>
  Crash safety of the log. The writes a commit makes to the disk are computed in
  closed form; the disk after a crash is the old disk with a prefix of them
  applied. What recovery makes of a disk is a function of it (\<open>logical\<close>), and every
  prefix of a commit, and every prefix of a recovery, leaves that function where
  it must be.
\<close>

section \<open>Geometry of the log\<close>

definition log_region :: "log \<Rightarrow> u32 set" where
  "log_region l = insert (head_blk l) (log_blk l ` {t. int t < lsize l - 1})"

definition log_geom :: "log \<Rightarrow> bool" where
  "log_geom l \<longleftrightarrow> ldev l = ROOTDEV \<and> 0 \<le> lstart l \<and> 1 \<le> lsize l \<and> lstart l + lsize l \<le> 2 ^ 31 \<and>
     length (lh_block l) = LOGSIZE"

definition txn :: "log \<Rightarrow> u32 list" where
  "txn l = take (nat (lh_n l)) (lh_block l)"

definition txn_ok :: "log \<Rightarrow> bool" where
  "txn_ok l \<longleftrightarrow> log_geom l \<and> 0 \<le> lh_n l \<and> lh_n l \<le> int LOGSIZE \<and> lh_n l \<le> lsize l - 1 \<and>
     distinct (txn l) \<and> set (txn l) \<inter> log_region l = {}"

lemma log_blk_inj:
  "log_geom l \<Longrightarrow> int t < lsize l - 1 \<Longrightarrow> int u < lsize l - 1 \<Longrightarrow> log_blk l t = log_blk l u \<longleftrightarrow> t = u"
  unfolding log_blk_def by (subst word_of_int_inj) (auto simp: log_geom_def)

lemma log_blk_head: "log_geom l \<Longrightarrow> int t < lsize l - 1 \<Longrightarrow> log_blk l t \<noteq> head_blk l"
  unfolding log_blk_def head_blk_def by (subst word_of_int_inj) (auto simp: log_geom_def)

lemma log_blk_region: "int t < lsize l - 1 \<Longrightarrow> log_blk l t \<in> log_region l"
  by (simp add: log_region_def)

lemma head_blk_region [simp]: "head_blk l \<in> log_region l"
  by (simp add: log_region_def)

lemma txn_nth:
  assumes "txn_ok l" "t < nat (lh_n l)"
  shows "txn l ! t = lh_block l ! t" "lh_block l ! t \<in> set (txn l)" "lh_block l ! t \<notin> log_region l"
    "int t < lsize l - 1"
proof -
  have len: "nat (lh_n l) \<le> length (lh_block l)" using assms by (auto simp: txn_ok_def log_geom_def)
  show e: "txn l ! t = lh_block l ! t" using assms(2) by (simp add: txn_def)
  have "t < length (txn l)" using assms(2) len by (simp add: txn_def)
  then show m: "lh_block l ! t \<in> set (txn l)" using e nth_mem [of t "txn l"] by simp
  then show "lh_block l ! t \<notin> log_region l" using assms(1) by (auto simp: txn_ok_def)
  show "int t < lsize l - 1" using assms by (auto simp: txn_ok_def)
qed

lemma txn_length: "txn_ok l \<Longrightarrow> length (txn l) = nat (lh_n l)"
  by (auto simp: txn_ok_def log_geom_def txn_def)

lemma set_txn: "txn_ok l \<Longrightarrow> set (txn l) = (!) (lh_block l) ` {..<nat (lh_n l)}"
  using txn_nth(1,2) txn_length by (fastforce simp: in_set_conv_nth image_iff)

lemma txn_inj: "txn_ok l \<Longrightarrow> inj_on ((!) (lh_block l)) (set [0..<nat (lh_n l)])"
proof (rule inj_onI)
  fix t u assume ok: "txn_ok l" and "t \<in> set [0..<nat (lh_n l)]" "u \<in> set [0..<nat (lh_n l)]"
    and e: "lh_block l ! t = lh_block l ! u"
  then have "t < length (txn l)" "u < length (txn l)" "txn l ! t = txn l ! u"
    using txn_nth(1) [OF ok] by (simp_all add: txn_length)
  then show "t = u" using ok by (simp add: txn_ok_def nth_eq_iff_index_eq)
qed

section \<open>Disk writes\<close>

definition replay :: "(u32 \<Rightarrow> bytes) \<Rightarrow> (u32 \<times> bytes) list \<Rightarrow> u32 \<Rightarrow> bytes" where
  "replay d ws = fold (\<lambda>(n, bs) d. d(n := bs)) ws d"

lemma replay_simps [simp]:
  "replay d [] = d" "replay d ((n, bs) # ws) = replay (d(n := bs)) ws" "replay d (ws @ xs) = replay (replay d ws) xs"
  by (simp_all add: replay_def)

lemma replay_other: "n \<notin> fst ` set ws \<Longrightarrow> replay d ws n = d n"
  by (induction ws arbitrary: d) auto

lemma replay_in: "distinct (map fst ws) \<Longrightarrow> (n, bs) \<in> set ws \<Longrightarrow> replay d ws n = bs"
proof (induction ws arbitrary: d)
  case (Cons w ws)
  then show ?case
    by (cases w) (use replay_other [of n ws] in \<open>auto simp: image_iff dest!: in_set_zipE\<close>)
qed simp

text \<open>Passes of copies: the writes, and their effect on disk and cache.\<close>

definition copies :: "bview \<Rightarrow> (nat \<Rightarrow> u32) \<Rightarrow> (nat \<Rightarrow> u32) \<Rightarrow> nat list \<Rightarrow> (u32 \<times> bytes) list" where
  "copies v src dst ts = map (\<lambda>t. (dst t, vcont v (src t))) ts"

definition copies_only :: "(nat \<Rightarrow> u32) \<Rightarrow> (nat \<Rightarrow> u32) \<Rightarrow> (nat \<Rightarrow> bview \<Rightarrow> bview) \<Rightarrow> bool" where
  "copies_only src dst eff \<longleftrightarrow> (\<forall>t v. vdisk (eff t v) = (vdisk v)(dst t := vcont v (src t)) \<and>
     vcont (eff t v) = (vcont v)(dst t := vcont v (src t)) \<and>
     vwrites (eff t v) = vwrites v @ [(dst t, vcont v (src t))] \<and> vlock (eff t v) = vlock v)"

lemma fold_copies_all:
  assumes "copies_only src dst eff" "\<forall>t\<in>set ts. \<forall>u\<in>set ts. src t \<noteq> dst u"
  shows "vdisk (fold eff ts v) = replay (vdisk v) (copies v src dst ts) \<and>
    vcont (fold eff ts v) = replay (vcont v) (copies v src dst ts) \<and>
    vwrites (fold eff ts v) = vwrites v @ copies v src dst ts \<and> vlock (fold eff ts v) = vlock v"
  using assms(2)
proof (induction ts arbitrary: v)
  case Nil
  show ?case by (simp add: copies_def)
next
  case (Cons t ts)
  have f: "vdisk (eff t v) = (vdisk v)(dst t := vcont v (src t))"
    "vcont (eff t v) = (vcont v)(dst t := vcont v (src t))"
    "vwrites (eff t v) = vwrites v @ [(dst t, vcont v (src t))]" "vlock (eff t v) = vlock v"
    using assms(1) by (simp_all add: copies_only_def)
  have e: "copies (eff t v) src dst ts = copies v src dst ts"
    using Cons.prems by (auto simp: copies_def f)
  have c: "copies v src dst (t # ts) = (dst t, vcont v (src t)) # copies v src dst ts" by (simp add: copies_def)
  have "vdisk (fold eff ts (eff t v)) = replay (vdisk (eff t v)) (copies (eff t v) src dst ts) \<and>
    vcont (fold eff ts (eff t v)) = replay (vcont (eff t v)) (copies (eff t v) src dst ts) \<and>
    vwrites (fold eff ts (eff t v)) = vwrites (eff t v) @ copies (eff t v) src dst ts \<and>
    vlock (fold eff ts (eff t v)) = vlock (eff t v)"
    by (rule Cons.IH) (use Cons.prems in simp)
  then show ?case by (simp add: e f c)
qed

lemmas fold_copies = fold_copies_all [THEN conjunct1] fold_copies_all [THEN conjunct2, THEN conjunct1]
  fold_copies_all [THEN conjunct2, THEN conjunct2, THEN conjunct1]
  fold_copies_all [THEN conjunct2, THEN conjunct2, THEN conjunct2]

lemma write_eff_copies: "copies_only ((!) (lh_block l)) (log_blk l) (write_eff l)"
  by (simp add: copies_only_def write_eff_def v_copy_def)

lemma install_eff_copies: "copies_only (log_blk l) ((!) (lh_block l)) (install_eff recovering l)"
  by (simp add: copies_only_def install_eff_def v_copy_def v_unpin_def)

lemma fold_write_refs: "vrefs (fold (write_eff l) ts v) = vrefs v"
  by (induction ts arbitrary: v) (simp_all add: write_eff_def v_copy_def)

lemma fold_install_refs:
  "distinct ts \<Longrightarrow> inj_on ((!) (lh_block l)) (set ts) \<Longrightarrow>
   vrefs (fold (install_eff recovering l) ts v) b =
     (if \<not> recovering \<and> b \<in> (!) (lh_block l) ` set ts then vrefs v b - 1 else vrefs v b)"
  by (induction ts arbitrary: v) (auto simp: install_eff_def v_copy_def v_unpin_def inj_on_def)

end
