(* ===== verification/Log_Recovery.thy ===== *)
theory Log_Recovery
  imports Log_Crash
begin

text \<open>
  What commit and recovery write to the disk, in closed form, and the contents of the
  file system that any disk stands for: \<open>logical\<close> reads a block from the log when a
  committed header lists it. Commit changes that function in one step, the write of the
  header; recovery never changes it. Both stay true at every prefix of the writes, which is
  what a crash leaves.
\<close>

section \<open>Commit\<close>

text \<open>The writes of a commit: the blocks to the log, the header, the blocks to their homes, and
  the empty header.\<close>

definition log_writes :: "'a lst_scheme \<Rightarrow> (u32 \<times> bytes) list" where
  "log_writes s = map (\<lambda>t. (log_blk (lg s) t, blk_cont s (lh_block (lg s) ! t))) [0..<nat (lh_n (lg s))]"

definition home_writes :: "'a lst_scheme \<Rightarrow> (u32 \<times> bytes) list" where
  "home_writes s = map (\<lambda>t. (lh_block (lg s) ! t, blk_cont s (lh_block (lg s) ! t))) [0..<nat (lh_n (lg s))]"

definition commit_head :: "'a lst_scheme \<Rightarrow> bytes" where
  "commit_head s = head_data (lg s) (disk s (head_blk (lg s)))"

definition commit_writes :: "'a lst_scheme \<Rightarrow> (u32 \<times> bytes) list" where
  "commit_writes s = log_writes s @ (head_blk (lg s), commit_head s) # home_writes s @
     [(head_blk (lg s), head_data ((lg s)\<lparr>lh_n := 0\<rparr>) (commit_head s))]"

lemma log_writes_at:
  assumes "txn_ok (lg s)" "t < nat (lh_n (lg s))"
  shows "replay d (log_writes s) (log_blk (lg s) t) = blk_cont s (lh_block (lg s) ! t)"
proof (rule replay_in)
  show "distinct (map fst (log_writes s))"
    using log_blk_inj [OF _ txn_nth(4) [OF assms(1)] txn_nth(4) [OF assms(1)]] assms(1)
    by (auto simp: log_writes_def distinct_map inj_on_def comp_def txn_ok_def)
qed (use assms in \<open>auto simp: log_writes_def\<close>)

lemma log_writes_other:
  assumes "txn_ok (lg s)" "b \<notin> log_region (lg s) \<or> b = head_blk (lg s)"
  shows "replay d (take j (log_writes s)) b = d b"
proof (rule replay_other)
  have "b \<noteq> log_blk (lg s) t" if "t < nat (lh_n (lg s))" for t
    using log_blk_head [OF _ txn_nth(4) [OF assms(1) that]] log_blk_region [OF txn_nth(4) [OF assms(1) that]] assms
    unfolding txn_ok_def by metis
  then show "b \<notin> fst ` set (take j (log_writes s))"
    using set_take_subset [of j "log_writes s"] by (fastforce simp: log_writes_def)
qed

lemma home_writes_other:
  assumes "txn_ok (lg s)" "b \<notin> set (txn (lg s))"
  shows "replay d (take j (home_writes s)) b = d b"
proof (rule replay_other)
  have "fst ` set (home_writes s) = set (txn (lg s))"
    using set_txn [OF assms(1)] by (simp add: home_writes_def image_image atLeast0LessThan)
  then show "b \<notin> fst ` set (take j (home_writes s))"
    using set_take_subset [of j "home_writes s"] assms(2) by blast
qed

lemma home_writes_all:
  assumes "txn_ok (lg s)"
  shows "replay d (home_writes s) b = (if b \<in> set (txn (lg s)) then blk_cont s b else d b)"
proof (cases "b \<in> set (txn (lg s))")
  case True
  then have "(b, blk_cont s b) \<in> set (home_writes s)" using set_txn [OF assms] by (auto simp: home_writes_def)
  moreover have "distinct (map fst (home_writes s))"
    using txn_inj [OF assms] by (simp add: home_writes_def distinct_map comp_def)
  ultimately show ?thesis using True by (simp add: replay_in)
next
  case False
  with home_writes_other [OF assms False, of d "length (home_writes s)"] show ?thesis by simp
qed

lemma log_region_txn: "txn_ok l \<Longrightarrow> b \<in> log_region l \<Longrightarrow> b \<notin> set (txn l)"
  by (auto simp: txn_ok_def)

definition commit_ready :: "'a lst_scheme \<Rightarrow> bool" where
  "commit_ready s \<longleftrightarrow> bio_ok s \<and> calm s \<and> txn_ok (lg s) \<and> 0 < lh_n (lg s) \<and>
     (\<forall>b \<in> log_region (lg s) \<union> set (txn (lg s)). blk_lock s b = None) \<and>
     (\<forall>b \<in> log_region (lg s). blk_refs s b = 0) \<and>
     (\<forall>b \<in> set (txn (lg s)). 0 < blk_refs s b \<and> blk_refs s b + 1 < 2 ^ 32) \<and>
     card {b. 0 < blk_refs s b} < NBUF"

lemma fits_one: "card {m. 0 < vrefs v m} < NBUF \<Longrightarrow> fits {b} v"
  using card_insert_le_m1 [of NBUF "{m. 0 < vrefs v m}" b] by (simp add: fits_def NBUF_def card_insert_if)

lemma fits_two: "card {m. 0 < vrefs v m} < NBUF \<Longrightarrow> 0 < vrefs v a \<Longrightarrow> fits {a, b} v \<and> fits {b, a} v"
proof -
  assume "card {m. 0 < vrefs v m} < NBUF" "0 < vrefs v a"
  moreover have "{m. 0 < vrefs v m} \<union> {a, b} = {m. 0 < vrefs v m} \<union> {b}" using \<open>0 < vrefs v a\<close> by auto
  ultimately show ?thesis using fits_one [of v b] by (simp add: fits_def insert_commute)
qed

lemma commit_write_log:
  fixes s :: "'a lst_scheme"
  assumes r: "commit_ready s"
  shows "returns (write_log s) (brun s (fold (write_eff (lg s)) [0..<nat (lh_n (lg s))]))"
proof -
  let ?l = "lg s" and ?ts = "[0..<nat (lh_n (lg s))]"
  have "copyable (lh_block ?l ! t) (log_blk ?l t) (bview s)" if "t \<in> set ?ts" for t
  proof -
    have t: "t < nat (lh_n ?l)" and ok: "txn_ok ?l" using that r by (auto simp: commit_ready_def)
    note n = txn_nth [OF ok t] and reg = log_blk_region [OF txn_nth(4) [OF ok t]]
    have "lh_block ?l ! t \<noteq> log_blk ?l t" using n(3) reg by metis
    with n(2) reg r fits_two [of "bview s" "lh_block ?l ! t" "log_blk ?l t"] show ?thesis
      unfolding copyable_def commit_ready_def by auto
  qed
  then have "write_ready ?l ?ts (bview s)" using r by (auto simp: write_ready_def commit_ready_def txn_ok_def log_geom_def)
  with r show ?thesis unfolding write_log_def by (intro write_pass.pass) (simp_all add: commit_ready_def)
qed

lemma install_ready_commit:
  fixes s :: "'a lst_scheme"
  assumes r: "commit_ready s" and v: "vlock v = blk_lock s" "vrefs v = blk_refs s"
  shows "install_ready False (lg s) [0..<nat (lh_n (lg s))] v"
proof -
  let ?l = "lg s" and ?ts = "[0..<nat (lh_n (lg s))]"
  have ok: "txn_ok ?l" using r by (simp add: commit_ready_def)
  have "copyable (log_blk ?l t) (lh_block ?l ! t) v \<and> 0 < vrefs v (lh_block ?l ! t)" if "t \<in> set ?ts" for t
  proof -
    have t: "t < nat (lh_n ?l)" using that by simp
    note n = txn_nth [OF ok t] and reg = log_blk_region [OF txn_nth(4) [OF ok t]]
    have "log_blk ?l t \<noteq> lh_block ?l ! t" using n(3) reg by metis
    with n(2) reg r v fits_two [of v "lh_block ?l ! t" "log_blk ?l t"] show ?thesis
      unfolding copyable_def commit_ready_def by auto
  qed
  with ok txn_inj [OF ok] show ?thesis by (simp add: install_ready_def txn_ok_def log_geom_def)
qed

definition commit_view :: "'a lst_scheme \<Rightarrow> bview \<Rightarrow> bview" where
  "commit_view s v =
     (let l = lg s; ts = [0..<nat (lh_n l)]; h = commit_head s
      in v_store (head_blk l) (head_data (l\<lparr>lh_n := 0\<rparr>) h)
           (fold (install_eff False l) ts (v_store (head_blk l) h (fold (write_eff l) ts v))))"

lemma fold_write_frame:
  "vlock (fold (write_eff l) ts v) = vlock v" "vrefs (fold (write_eff l) ts v) = vrefs v"
  by (induction ts arbitrary: v) (simp_all add: write_eff_def v_copy_def)

lemma fold_install_frame:
  "vlock (fold (install_eff r l) ts v) = vlock v" "vrefs (fold (install_eff r l) ts v) b \<le> vrefs v b"
proof (induction ts arbitrary: v)
  case (Cons t ts)
  { case 1 show ?case using Cons.IH(1) [of "install_eff r l t v"] by (simp add: install_eff_def v_copy_def v_unpin_def) }
  { case 2
    have "vrefs (install_eff r l t v) b \<le> vrefs v b" by (simp add: install_eff_def v_copy_def v_unpin_def)
    with Cons.IH(2) [of "install_eff r l t v"] show ?case by (simp add: le_trans [of _ "vrefs (install_eff r l t v) b"]) }
qed simp_all

lemma brun_upd_log:
  fixes s :: "'a lst_scheme"
  assumes "brun s f t"
  shows "brun (upd_log g s) f (upd_log g t)"
proof -
  obtain ps sl bs d w where t: "t = s\<lparr>procs := ps, slks := sl, bufs := bs, disk := d, writes := w\<rparr>"
    using assms unfolding brun_def bquiet_def by blast
  have "upd_log g t = (upd_log g s)\<lparr>procs := ps, slks := sl, bufs := bs, disk := d, writes := w\<rparr>"
    using t by (simp add: upd_log_def)
  then have "\<exists>ps sl bs d w. upd_log g t = (upd_log g s)\<lparr>procs := ps, slks := sl, bufs := bs, disk := d, writes := w\<rparr>"
    by blast
  then have "bquiet (upd_log g s) (upd_log g t)" using assms by (simp add: brun_def bquiet_def)
  with assms show ?thesis by (simp add: brun_def)
qed

lemma write_head_ready:
  fixes s :: "'a lst_scheme"
  assumes r: "commit_ready s" and b: "brun s f t" and v: "vlock (f (bview s)) = blk_lock s"
    "\<And>b. vrefs (f (bview s)) b \<le> blk_refs s b" and n: "0 \<le> n" "n \<le> int LOGSIZE"
  shows "returns (write_head (upd_log (\<lambda>l. l\<lparr>lh_n := n\<rparr>) t))
    (brun (upd_log (\<lambda>l. l\<lparr>lh_n := n\<rparr>) s) (v_store (head_blk (lg s))
       (head_data ((lg s)\<lparr>lh_n := n\<rparr>) (vcont (f (bview s)) (head_blk (lg s)))) \<circ> f))"
proof -
  let ?t = "upd_log (\<lambda>l. l\<lparr>lh_n := n\<rparr>) t" and ?h = "head_blk (lg s)"
  have c: "calm t" "bio_ok t" using brun_calm [OF b] r by (simp_all add: commit_ready_def)
  have l: "lg ?t = (lg s)\<lparr>lh_n := n\<rparr>" "head_blk (lg ?t) = ?h" "ldev (lg ?t) = ROOTDEV"
    using brun_lg [OF b] r by (simp_all add: head_blk_def commit_ready_def txn_ok_def log_geom_def)
  have v': "blk_refs ?t = vrefs (f (bview s))" "blk_lock ?t = blk_lock s" "blk_cont ?t = vcont (f (bview s))"
    using brun_sels [OF brun_upd_log [OF b]] v(1) by simp_all
  have z: "blk_refs ?t ?h = 0" using v(2) [of ?h] r unfolding v' by (simp add: commit_ready_def)
  have "card {m. 0 < vrefs (f (bview s)) m} \<le> card {m. 0 < blk_refs s m}"
    by (rule card_mono) (use v(2) in \<open>auto intro: less_le_trans\<close>)
  then have "fits {?h} (f (bview s))" using fits_one [of "f (bview s)" ?h] r by (simp add: commit_ready_def)
  then have "fits {?h} (bview ?t)" using b by (simp add: brun_def)
  moreover have "blk_lock s ?h = None" using r by (simp add: commit_ready_def)
  ultimately have "returns (write_head ?t) (brun ?t (v_store ?h (head_data (lg ?t) (blk_cont ?t ?h))))"
    using write_head_run [of ?t] c l z v' n brun_lg [OF b] by simp
  then show ?thesis
    using brun_trans [OF brun_upd_log [OF b]] unfolding l(1) v'(3) by (elim returns_mono)
qed

lemma commit_run:
  fixes s :: "'a lst_scheme"
  assumes r: "commit_ready s"
  shows "returns (commit s) (brun (upd_log (\<lambda>l. l\<lparr>lh_n := 0\<rparr>) s) (commit_view s))"
proof -
  let ?l = "lg s" and ?ts = "[0..<nat (lh_n (lg s))]"
  have ok: "txn_ok ?l" "0 < lh_n ?l" "bio_ok s" "calm s" using r by (simp_all add: commit_ready_def)
  have id: "upd_log (\<lambda>l. l\<lparr>lh_n := lh_n ?l\<rparr>) u = u" if "lg u = ?l" for u :: "'a lst_scheme"
    using that by (simp add: upd_log_def)
  obtain s1 where 1: "write_log s = Ok s1" "brun s (fold (write_eff ?l) ?ts) s1"
    using commit_write_log [OF r] by (auto elim: returnsE)
  let ?f1 = "fold (write_eff ?l) ?ts"
  have h1: "vcont (?f1 (bview s)) (head_blk ?l) = disk s (head_blk ?l)" (is ?h1)
  proof -
    have "\<forall>t\<in>set ?ts. \<forall>u\<in>set ?ts. lh_block ?l ! t \<noteq> log_blk ?l u"
      using txn_nth(3,4) [OF ok(1)] log_blk_region by (metis atLeastLessThan_iff atLeast_upt lessThan_iff)
    moreover have "head_blk ?l \<notin> fst ` set (copies (bview s) ((!) (lh_block ?l)) (log_blk ?l) ?ts)"
      using log_blk_head [OF _ txn_nth(4) [OF ok(1)]] ok(1) by (force simp: copies_def txn_ok_def)
    ultimately show ?h1
      using fold_copies(2) [OF write_eff_copies, of ?ts ?l] unref_clean [OF ok(3), of "head_blk ?l"] r
      by (simp add: replay_other commit_ready_def)
  qed
  let ?h = "head_data ?l (disk s (head_blk ?l))"
  have "lh_n ?l \<le> int LOGSIZE" "lg s1 = ?l" using ok(1) brun_lg [OF 1(2)] by (auto simp: txn_ok_def)
  with write_head_ready [OF r 1(2), of "lh_n ?l"] obtain s2
    where 2: "write_head s1 = Ok s2" "brun s (v_store (head_blk ?l) ?h \<circ> ?f1) s2"
    using ok(2) by (auto simp: fold_write_frame id h1 elim!: returnsE)
  let ?f2 = "v_store (head_blk ?l) ?h \<circ> ?f1"
  have v2: "vlock (?f2 (bview s)) = blk_lock s" "vrefs (?f2 (bview s)) = blk_refs s"
    by (simp_all add: v_store_def fold_write_frame)
  have lg2: "lg s2 = ?l" using brun_lg [OF 2(2)] .
  have "returns (install_loop False ?ts s2) (brun s2 (fold (install_eff False (lg s2)) ?ts))"
    using brun_calm [OF 2(2) ok(4)] install_ready_commit [OF r v2] 2(2)
    by (intro install_pass.pass) (simp_all add: brun_def lg2)
  then obtain s3 where 3: "install_trans False s2 = Ok s3" "brun s (fold (install_eff False ?l) ?ts \<circ> ?f2) s3"
    using brun_trans [OF 2(2)] by (auto simp: install_trans_def lg2 elim: returnsE)
  have h3: "vcont ((fold (install_eff False ?l) ?ts \<circ> ?f2) (bview s)) (head_blk ?l) = ?h" (is ?h3)
  proof -
    have "\<forall>t\<in>set ?ts. \<forall>u\<in>set ?ts. log_blk ?l t \<noteq> lh_block ?l ! u"
      using txn_nth(3,4) [OF ok(1)] log_blk_region by (metis atLeastLessThan_iff atLeast_upt lessThan_iff)
    moreover have "head_blk ?l \<notin> fst ` set (copies (?f2 (bview s)) (log_blk ?l) ((!) (lh_block ?l)) ?ts)"
      using txn_nth(3) [OF ok(1)] by (auto simp: copies_def) (metis head_blk_region)
    ultimately show ?h3
      using fold_copies(2) [OF install_eff_copies, of ?ts ?l False "?f2 (bview s)"]
      by (simp add: replay_other v_store_def)
  qed
  have v3: "vlock ((fold (install_eff False ?l) ?ts \<circ> ?f2) (bview s)) = blk_lock s"
    "\<And>b. vrefs ((fold (install_eff False ?l) ?ts \<circ> ?f2) (bview s)) b \<le> blk_refs s b"
    using fold_install_frame [of False ?l ?ts "?f2 (bview s)"] v2 by simp_all
  have "returns (write_head (upd_log (\<lambda>l. l\<lparr>lh_n := 0\<rparr>) s3))
    (brun (upd_log (\<lambda>l. l\<lparr>lh_n := 0\<rparr>) s)
      (v_store (head_blk ?l) (head_data (?l\<lparr>lh_n := 0\<rparr>) ?h) \<circ> (fold (install_eff False ?l) ?ts \<circ> ?f2)))"
    using write_head_ready [OF r 3(2) v3, of 0] unfolding h3 by (simp add: comp_def)
  moreover have "v_store (head_blk ?l) (head_data (?l\<lparr>lh_n := 0\<rparr>) ?h) \<circ> (fold (install_eff False ?l) ?ts \<circ> ?f2) =
    commit_view s" by (simp add: fun_eq_iff commit_view_def commit_head_def Let_def)
  ultimately show ?thesis using 1(1) 2(1) 3(1) ok(2) by (simp add: commit_def)
qed

lemma v_store_sels:
  "vdisk (v_store n d v) = (vdisk v)(n := d)" "vcont (v_store n d v) = (vcont v)(n := d)"
  "vwrites (v_store n d v) = vwrites v @ [(n, d)]" "vlock (v_store n d v) = vlock v" "vrefs (v_store n d v) = vrefs v"
  by (simp_all add: v_store_def)

text \<open>The effect of a commit: the writes, the contents of the blocks outside the log, and the
  references, of which each block of the transaction loses one.\<close>

lemma commit_view_fields:
  fixes s :: "'a lst_scheme"
  assumes r: "commit_ready s"
  shows "vdisk (commit_view s (bview s)) = replay (disk s) (commit_writes s)"
    "vwrites (commit_view s (bview s)) = writes s @ commit_writes s"
    "vlock (commit_view s (bview s)) = blk_lock s"
    "vrefs (commit_view s (bview s)) b = (if b \<in> set (txn (lg s)) then blk_refs s b - 1 else blk_refs s b)"
    "b \<notin> log_region (lg s) \<Longrightarrow> vcont (commit_view s (bview s)) b = blk_cont s b"
proof -
  let ?l = "lg s" and ?ts = "[0..<nat (lh_n (lg s))]"
  have ok: "txn_ok ?l" using r by (simp add: commit_ready_def)
  have ne: "\<forall>t\<in>set ?ts. \<forall>u\<in>set ?ts. lh_block ?l ! t \<noteq> log_blk ?l u"
    "\<forall>t\<in>set ?ts. \<forall>u\<in>set ?ts. log_blk ?l t \<noteq> lh_block ?l ! u"
    using txn_nth(3,4) [OF ok] log_blk_region by (metis atLeastLessThan_iff atLeast_upt lessThan_iff)+
  have c1: "copies (bview s) ((!) (lh_block ?l)) (log_blk ?l) ?ts = log_writes s" by (simp add: copies_def log_writes_def)
  note f1 = fold_copies [OF write_eff_copies ne(1), of "bview s", unfolded c1]
  let ?v2 = "v_store (head_blk ?l) (commit_head s) (fold (write_eff ?l) ?ts (bview s))"
  have hd: "log_blk ?l t \<noteq> head_blk ?l" if "t < nat (lh_n ?l)" for t
    using log_blk_head txn_nth(4) [OF ok that] ok by (auto simp: txn_ok_def)
  have c2: "copies ?v2 (log_blk ?l) ((!) (lh_block ?l)) ?ts = home_writes s"
    using log_writes_at [OF ok] hd by (auto simp: copies_def home_writes_def v_store_sels f1)
  note f2 = fold_copies [OF install_eff_copies ne(2), of False ?v2, unfolded c2]
  show "vdisk (commit_view s (bview s)) = replay (disk s) (commit_writes s)"
    "vwrites (commit_view s (bview s)) = writes s @ commit_writes s"
    "vlock (commit_view s (bview s)) = blk_lock s"
    by (simp_all add: commit_view_def commit_writes_def Let_def v_store_sels f1 f2)
  show "vrefs (commit_view s (bview s)) b = (if b \<in> set (txn ?l) then blk_refs s b - 1 else blk_refs s b)"
    using fold_install_refs [OF _ txn_inj [OF ok], of False ?v2 b] set_txn [OF ok]
    by (simp add: commit_view_def Let_def v_store_sels fold_write_frame atLeast0LessThan)
  assume b: "b \<notin> log_region ?l"
  then have "b \<noteq> head_blk ?l" by auto
  then show "vcont (commit_view s (bview s)) b = blk_cont s b"
    using log_writes_other [OF ok, of b "blk_cont s" "length (log_writes s)"] b
    by (simp add: commit_view_def Let_def v_store_sels f1 f2 home_writes_all [OF ok])
qed

section \<open>The contents a disk stands for\<close>

definition head_n :: "log \<Rightarrow> (u32 \<Rightarrow> bytes) \<Rightarrow> nat" where
  "head_n l d = nat (sint (u32_at 0 (d (head_blk l))))"

definition head_blks :: "log \<Rightarrow> (u32 \<Rightarrow> bytes) \<Rightarrow> u32 list" where
  "head_blks l d = map (\<lambda>i. u32_at (4 + 4 * i) (d (head_blk l))) [0..<head_n l d]"

definition logical :: "log \<Rightarrow> (u32 \<Rightarrow> bytes) \<Rightarrow> u32 \<Rightarrow> bytes" where
  "logical l d b = (case find_idx (\<lambda>x. x = b) (head_blks l d) of Some i \<Rightarrow> d (log_blk l i) | None \<Rightarrow> d b)"

definition head_ok :: "log \<Rightarrow> (u32 \<Rightarrow> bytes) \<Rightarrow> bool" where
  "head_ok l d \<longleftrightarrow> log_geom l \<and> 0 \<le> sint (u32_at 0 (d (head_blk l))) \<and> head_n l d \<le> LOGSIZE \<and>
     int (head_n l d) \<le> lsize l - 1 \<and> distinct (head_blks l d) \<and> set (head_blks l d) \<inter> log_region l = {}"

lemma head_blks_nth [simp]: "length (head_blks l d) = head_n l d"
  "i < head_n l d \<Longrightarrow> head_blks l d ! i = u32_at (4 + 4 * i) (d (head_blk l))"
  by (simp_all add: head_blks_def)

lemma logical_in: "head_ok l d \<Longrightarrow> i < head_n l d \<Longrightarrow> logical l d (head_blks l d ! i) = d (log_blk l i)"
proof -
  assume a: "head_ok l d" "i < head_n l d"
  have "find_idx (\<lambda>x. x = head_blks l d ! i) (head_blks l d) = Some i"
    by (rule find_idx_SomeI) (use a in \<open>auto simp: head_ok_def nth_eq_iff_index_eq simp del: head_blks_nth(2)\<close>)
  then show ?thesis by (simp add: logical_def)
qed

lemma logical_out: "b \<notin> set (head_blks l d) \<Longrightarrow> logical l d b = d b"
  using find_idx_None_iff [of "\<lambda>x. x = b" "head_blks l d"] by (auto simp: logical_def)

lemma head_cong: "d (head_blk l) = d' (head_blk l) \<Longrightarrow> head_n l d = head_n l d' \<and> head_blks l d = head_blks l d' \<and>
    head_ok l d = head_ok l d'"
  by (simp add: head_n_def head_blks_def head_ok_def)

lemma logical_cong:
  assumes "d' (head_blk l) = d (head_blk l)" "\<forall>i < head_n l d. d' (log_blk l i) = d (log_blk l i)"
    "\<forall>b. b \<notin> set (head_blks l d) \<longrightarrow> b \<notin> log_region l \<longrightarrow> d' b = d b" "b \<notin> log_region l" "head_ok l d"
  shows "logical l d' b = logical l d b"
proof (cases "b \<in> set (head_blks l d)")
  case True
  then obtain i where "i < head_n l d" "b = head_blks l d ! i" by (auto simp: in_set_conv_nth)
  with assms head_cong [of d' l d, OF assms(1)] logical_in [of l d i] logical_in [of l d' i] show ?thesis by simp
next
  case False
  with assms head_cong [of d' l d, OF assms(1)] show ?thesis by (simp add: logical_out)
qed

lemma head_empty: "sint (u32_at 0 (d (head_blk l))) = 0 \<Longrightarrow> log_geom l \<Longrightarrow>
    head_n l d = 0 \<and> head_ok l d \<and> logical l d = d"
  by (auto simp: head_ok_def head_n_def head_blks_def logical_def fun_eq_iff log_geom_def)

section \<open>Recovery\<close>

definition recover_homes :: "log \<Rightarrow> (u32 \<Rightarrow> bytes) \<Rightarrow> (u32 \<times> bytes) list" where
  "recover_homes l d = map (\<lambda>i. (head_blks l d ! i, d (log_blk l i))) [0..<head_n l d]"

definition recover_writes :: "log \<Rightarrow> (u32 \<Rightarrow> bytes) \<Rightarrow> (u32 \<times> bytes) list" where
  "recover_writes l d = recover_homes l d @
     [(head_blk l, head_data (l\<lparr>lh_n := 0\<rparr>) (d (head_blk l)))]"

text \<open>The log as \<^verbatim>\<open>read_head\<close> sets it.\<close>

definition head_log :: "log \<Rightarrow> (u32 \<Rightarrow> bytes) \<Rightarrow> log" where
  "head_log l d = l\<lparr>lh_n := sint (u32_at 0 (d (head_blk l))),
     lh_block := read_head_loop (d (head_blk l)) [0..<head_n l d] (lh_block l)\<rparr>"

lemma read_head_loop_nth:
  "length (read_head_loop bs is blk) = length blk"
  "distinct is \<Longrightarrow> \<forall>i\<in>set is. i < length blk \<Longrightarrow>
   read_head_loop bs is blk ! k = (if k \<in> set is then u32_at (4 + 4 * k) bs else blk ! k)"
  by (induction "is" arbitrary: blk) (auto simp: nth_list_update)

lemma head_log_txn:
  assumes "head_ok l d"
  shows "log_region (head_log l d) = log_region l" "head_blk (head_log l d) = head_blk l"
    "log_blk (head_log l d) = log_blk l" "ldev (head_log l d) = ldev l" "log_geom (head_log l d)"
    "nat (lh_n (head_log l d)) = head_n l d" "txn (head_log l d) = head_blks l d" "txn_ok (head_log l d)"
    "i < head_n l d \<Longrightarrow> lh_block (head_log l d) ! i = head_blks l d ! i"
proof -
  have g: "log_geom l" and n: "head_n l d \<le> length (lh_block l)" using assms by (auto simp: head_ok_def log_geom_def)
  show 1: "log_region (head_log l d) = log_region l" "head_blk (head_log l d) = head_blk l"
    "log_blk (head_log l d) = log_blk l" "ldev (head_log l d) = ldev l" "log_geom (head_log l d)"
    "nat (lh_n (head_log l d)) = head_n l d"
    using g by (simp_all add: head_log_def log_region_def head_blk_def log_blk_def [abs_def] log_geom_def head_n_def
        read_head_loop_nth(1))
  have nth: "lh_block (head_log l d) ! i = head_blks l d ! i" if "i < head_n l d" for i
    using that n by (simp add: head_log_def read_head_loop_nth(2))
  then show "i < head_n l d \<Longrightarrow> lh_block (head_log l d) ! i = head_blks l d ! i" .
  show 2: "txn (head_log l d) = head_blks l d"
  proof (rule nth_equalityI)
    have "length (lh_block (head_log l d)) = length (lh_block l)" by (simp add: head_log_def read_head_loop_nth(1))
    then show "length (txn (head_log l d)) = length (head_blks l d)" using n by (simp add: txn_def 1)
  qed (use nth in \<open>simp add: txn_def 1\<close>)
  show "txn_ok (head_log l d)"
    using assms 1 2 by (auto simp: txn_ok_def head_ok_def head_log_def head_n_def)
qed

text \<open>A system just booted: nothing is cached and no buffer is in use.\<close>

definition booted :: "'a lst_scheme \<Rightarrow> bool" where
  "booted s \<longleftrightarrow> bio_ok s \<and> calm s \<and> blk_refs s = (\<lambda>_. 0) \<and> blk_lock s = (\<lambda>_. None)"

lemma booted_cont: "booted s \<Longrightarrow> blk_cont s = disk s"
  using unref_clean [of s] by (auto simp: booted_def fun_eq_iff)

lemma fits_zero: "vrefs v = (\<lambda>_. 0) \<Longrightarrow> fits {a, b} v \<and> fits {a} v"
  by (simp add: fits_def NBUF_def card_insert_if)

lemma read_head_run:
  fixes s :: "'a lst_scheme"
  assumes b: "booted s" and dev: "ldev (lg s) = ROOTDEV" and h: "head_ok (lg s) (disk s)"
  shows "returns (read_head s) (brun (upd_log (\<lambda>l. head_log l (disk s)) s) id)"
proof -
  let ?h = "head_blk (lg s)" and ?g = "\<lambda>l. head_log l (disk s)"
  have ok: "bio_ok s" "calm s" "blk_lock s ?h = None" "blk_refs s ?h + 1 < 2 ^ 32"
    using b by (simp_all add: booted_def)
  have "room ?h s" using fits_room [of "{?h}" s ?h] fits_zero [of "bview s"] b by (simp add: booted_def)
  then have "returns (bread ROOTDEV ?h s) (\<lambda>(i, t). got t ?h i \<and> bop s (v_get ?h (mypid s)) t)"
    by (intro bread_gets ok)
  then obtain i s1 where 1: "bread ROOTDEV ?h s = Ok (i, s1)" "got s1 ?h i" "bop s (v_get ?h (mypid s)) s1"
    by (auto elim: returnsE)
  note c1 = bop_calm [OF 1(3) ok(2)] and v1 = bop_sels [OF 1(3)] and b1 = bop_brun [OF 1(3)]
  have lg1: "lg s1 = lg s" using brun_lg [OF b1] .
  have d: "bdata (bf s1 i) = disk s ?h"
    using gotD(3) [OF _ 1(2)] c1 v1(2) booted_cont [OF b] by (simp add: v_get_def)
  have g: "upd_log (\<lambda>l. l\<lparr>lh_n := sint (u32_at 0 (disk s ?h)),
      lh_block := read_head_loop (disk s ?h) [0..<nat (sint (u32_at 0 (disk s ?h)))] (lh_block l)\<rparr>) s1 = upd_log ?g s1"
    using lg1 by (simp add: upd_log_def head_log_def head_n_def)
  have got: "got (upd_log ?g s1) ?h i"
    using 1(2) bview_upd_log [of ?g s1] by (simp add: got_def cached_def bview_def)
  have "blk_cont (upd_log ?g s1) ?h = disk (upd_log ?g s1) ?h"
    using v1 booted_cont [OF b] bview_upd_log [of ?g s1] by (simp add: v_get_def bview_def)
  then have "returns (brelse i (upd_log ?g s1)) (bop (upd_log ?g s1) (v_put ?h))"
    using c1 got by (intro brelse_puts) simp_all
  then obtain t where t: "brelse i (upd_log ?g s1) = Ok t" "bop (upd_log ?g s1) (v_put ?h) t" by (auto elim: returnsE)
  have "brun (upd_log ?g s) (v_put ?h \<circ> v_get ?h (mypid s)) t"
    using brun_trans [OF brun_upd_log [OF b1] bop_brun [OF t(2)]] .
  moreover have "(v_put ?h \<circ> v_get ?h (mypid s)) (bview s) = bview s"
    using ok(3) by (intro bview_eqI) (auto simp: v_put_def v_get_def)
  ultimately have "brun (upd_log ?g s) id t" by (simp add: brun_def)
  moreover have "\<not> int LOGSIZE < sint (u32_at 0 (disk s ?h))" using h by (auto simp: head_ok_def head_n_def)
  ultimately show ?thesis
    using 1(1) dev d t(1) by (simp add: read_head_def g)
qed

lemma booted_brun:
  assumes "booted s" "brun (upd_log g s) f t" "vrefs (f (bview s)) = (\<lambda>_. 0)" "vlock (f (bview s)) = (\<lambda>_. None)"
  shows "booted t"
proof -
  have "calm t" "bio_ok t" using brun_calm [OF assms(2)] assms(1) by (simp_all add: booted_def)
  with brun_sels(1,3) [OF assms(2)] assms(3,4) show ?thesis by (simp add: booted_def)
qed

lemma recover_install:
  fixes s :: "'a lst_scheme"
  assumes b: "booted s" and dev: "ldev (lg s) = ROOTDEV" and h: "head_ok l d" and l: "lg s = head_log l d"
  shows "returns (install_trans True s) (brun s (fold (install_eff True (lg s)) [0..<head_n l d]))"
proof -
  have "copyable (log_blk (lg s) t) (lh_block (lg s) ! t) (bview s)" if "t < head_n l d" for t
  proof -
    have t: "t < nat (lh_n (lg s))" and ok: "txn_ok (lg s)" using that head_log_txn [OF h] l by simp_all
    have "log_blk (lg s) t \<noteq> lh_block (lg s) ! t"
      using txn_nth(3) [OF ok t] log_blk_region [OF txn_nth(4) [OF ok t]] by metis
    with b show ?thesis by (simp add: copyable_def booted_def fits_zero)
  qed
  then have "install_ready True (lg s) [0..<head_n l d] (bview s)" using dev by (simp add: install_ready_def)
  then have "returns (install_loop True [0..<head_n l d] s) (brun s (fold (install_eff True (lg s)) [0..<head_n l d]))"
    using b by (intro install_pass.pass) (simp_all add: booted_def)
  then show ?thesis using l head_log_txn(6) [OF h] by (simp add: install_trans_def)
qed

lemma recover_install_view:
  fixes s :: "'a lst_scheme"
  assumes b: "booted s" and h: "head_ok l (disk s)" and l: "lg s = head_log l (disk s)"
  defines "v \<equiv> fold (install_eff True (lg s)) [0..<head_n l (disk s)] (bview s)"
    and "w \<equiv> map (\<lambda>i. (head_blks l (disk s) ! i, disk s (log_blk l i))) [0..<head_n l (disk s)]"
  shows "vdisk v = replay (disk s) w" "vwrites v = writes s @ w" "vlock v = (\<lambda>_. None)" "vrefs v = (\<lambda>_. 0)"
    "vcont v (head_blk l) = disk s (head_blk l)" "head_blk l \<notin> fst ` set w"
proof -
  let ?ts = "[0..<head_n l (disk s)]"
  have ok: "txn_ok (lg s)" and n: "nat (lh_n (lg s)) = head_n l (disk s)"
    using head_log_txn(6,8) [OF h] l by simp_all
  have ne: "\<forall>t\<in>set ?ts. \<forall>u\<in>set ?ts. log_blk (lg s) t \<noteq> lh_block (lg s) ! u"
    using txn_nth(3,4) [OF ok] log_blk_region unfolding n by (metis atLeastLessThan_iff atLeast_upt lessThan_iff)
  have c: "copies (bview s) (log_blk (lg s)) ((!) (lh_block (lg s))) ?ts = w"
    using head_log_txn(3,9) [OF h] booted_cont [OF b] l by (simp add: copies_def w_def)
  note f = fold_copies [OF install_eff_copies ne, of True "bview s", unfolded c, folded v_def]
  show "vdisk v = replay (disk s) w" "vwrites v = writes s @ w" "vlock v = (\<lambda>_. None)"
    using f b by (simp_all add: booted_def)
  show "vrefs v = (\<lambda>_. 0)"
    using fold_install_frame(2) [of True "lg s" ?ts "bview s"] b by (auto simp: v_def booted_def fun_eq_iff)
  show hn: "head_blk l \<notin> fst ` set w"
  proof
    assume "head_blk l \<in> fst ` set w"
    then have "head_blk l \<in> set (head_blks l (disk s))" by (auto simp: w_def simp del: head_blks_nth(2))
    moreover have "head_blk l \<in> log_region l" by simp
    ultimately show False using h unfolding head_ok_def by blast
  qed
  then show "vcont v (head_blk l) = disk s (head_blk l)" using f(2) booted_cont [OF b] by (simp add: replay_other)
qed

lemma blk_upd_log [simp]:
  "blk_refs (upd_log f s) = blk_refs s" "blk_lock (upd_log f s) = blk_lock s" "blk_cont (upd_log f s) = blk_cont s"
  using bview_upd_log [of f s] by (metis bview_sels)+

lemma recover_run:
  fixes s :: "'a lst_scheme"
  assumes b: "booted s" and h: "head_ok (lg s) (disk s)"
  shows "returns (recover_from_log s) (\<lambda>t. booted t \<and> writes t = writes s @ recover_writes (lg s) (disk s) \<and>
    disk t = replay (disk s) (recover_writes (lg s) (disk s)) \<and> lg t = (head_log (lg s) (disk s))\<lparr>lh_n := 0\<rparr>)"
proof -
  let ?l = "lg s" and ?d = "disk s" and ?ts = "[0..<head_n (lg s) (disk s)]"
  have dev: "ldev ?l = ROOTDEV" using h by (simp add: head_ok_def log_geom_def)
  obtain s1 where 1: "read_head s = Ok s1" "brun (upd_log (\<lambda>l. head_log l ?d) s) id s1"
    using read_head_run [OF b dev h] by (auto elim: returnsE)
  have lg1: "lg s1 = head_log ?l ?d" using brun_lg [OF 1(2)] by simp
  have b1: "booted s1" by (rule booted_brun [OF b 1(2)]) (use b in \<open>simp_all add: booted_def\<close>)
  have d1: "disk s1 = ?d" "writes s1 = writes s" "bview s1 = bview s"
    using brun_sels(4,5) [OF 1(2)] 1(2) by (simp_all add: brun_def)
  have h1: "head_ok ?l (disk s1)" "lg s1 = head_log ?l (disk s1)" using h lg1 d1 by simp_all
  obtain s2 where 2: "install_trans True s1 = Ok s2" "brun s1 (fold (install_eff True (lg s1)) ?ts) s2"
    using recover_install [OF b1 _ h1] dev head_log_txn(4) [OF h] lg1 d1(1) by (auto elim: returnsE)
  note v = recover_install_view [OF b1 h1, unfolded d1(1,2)]
  let ?u = "upd_log (\<lambda>l. l\<lparr>lh_n := 0\<rparr>) s2"
  have u: "bview ?u = fold (install_eff True (lg s1)) ?ts (bview s1)" "lg ?u = (head_log ?l ?d)\<lparr>lh_n := 0\<rparr>"
    using 2(2) brun_lg [OF 2(2)] lg1 by (simp_all add: brun_def)
  have us: "blk_refs ?u = (\<lambda>_. 0)" "blk_lock ?u = (\<lambda>_. None)" "blk_cont ?u (head_blk ?l) = ?d (head_blk ?l)"
    using v u(1) by (metis bview_sels)+
  have hu: "head_blk (lg ?u) = head_blk ?l" "ldev (lg ?u) = ROOTDEV" "lh_n (lg ?u) = 0"
    using head_log_txn(2,4) [OF h] dev u(2) by (simp_all add: head_blk_def)
  have cu: "bio_ok ?u" "calm ?u" using brun_calm [OF 2(2)] b1 by (simp_all add: booted_def)
  have hd: "head_data (lg ?u) x = head_data (?l\<lparr>lh_n := 0\<rparr>) x" for x unfolding u(2) by (simp add: head_data_def)
  have "returns (write_head ?u) (brun ?u (v_store (head_blk ?l) (head_data (?l\<lparr>lh_n := 0\<rparr>) (?d (head_blk ?l)))))"
  proof -
    have "fits {head_blk ?l} (bview ?u)" unfolding u(1) by (rule conjunct2 [OF fits_zero [OF v(4)]])
    then have "returns (write_head ?u) (brun ?u (v_store (head_blk ?l) (head_data (lg ?u) (?d (head_blk ?l)))))"
      using write_head_run [of ?u] cu hu us by simp
    then show ?thesis by (simp only: hd)
  qed
  then obtain t where t: "write_head ?u = Ok t"
    "brun ?u (v_store (head_blk ?l) (head_data (?l\<lparr>lh_n := 0\<rparr>) (?d (head_blk ?l)))) t" by (auto elim: returnsE)
  have "booted t"
    using brun_calm [OF t(2) cu(2)] brun_sels(1,3) [OF t(2)] us by (simp add: booted_def v_store_sels)
  moreover have "disk t = replay ?d (recover_writes ?l ?d)" "writes t = writes s @ recover_writes ?l ?d"
    using brun_sels(4,5) [OF t(2)] v(1,2) unfolding v_store_sels u(1) by (simp_all add: recover_writes_def recover_homes_def)
  moreover have "lg t = (head_log ?l ?d)\<lparr>lh_n := 0\<rparr>" using brun_lg [OF t(2)] u(2) by simp
  ultimately show ?thesis using 1(1) 2(1) t(1) by (simp add: recover_from_log_def)
qed

section \<open>Crashes\<close>

lemma head_data_0: "length bs = BSIZE \<Longrightarrow> sint (u32_at 0 (head_data (l\<lparr>lh_n := 0\<rparr>) bs)) = 0"
  using head_data_fields(2) [of bs "l\<lparr>lh_n := 0\<rparr>"] by (simp add: LOGSIZE_def)

lemma take_append_snoc: "take k (xs @ [x]) = (if k \<le> length xs then take k xs else xs @ [x])"
  by simp

lemma recover_homes_fst: "map fst (recover_homes l d) = head_blks l d"
  by (rule nth_equalityI) (simp_all add: recover_homes_def)

lemma recover_homes_other:
  assumes "x \<notin> set (head_blks l d)"
  shows "replay c (take j (recover_homes l d)) x = c x"
proof (rule replay_other)
  have "fst ` set (recover_homes l d) = set (head_blks l d)"
    unfolding set_map [symmetric] recover_homes_fst ..
  then show "x \<notin> fst ` set (take j (recover_homes l d))"
    using set_take_subset [of j "recover_homes l d"] assms by blast
qed

lemma recover_homes_all:
  assumes h: "head_ok l d"
  shows "replay d (recover_homes l d) b = logical l d b"
proof (cases "b \<in> set (head_blks l d)")
  case True
  then obtain i where i: "i < head_n l d" "b = head_blks l d ! i" by (auto simp: in_set_conv_nth)
  have "distinct (map fst (recover_homes l d))"
    using h by (simp add: recover_homes_fst head_ok_def)
  then have "replay d (recover_homes l d) b = d (log_blk l i)"
    by (rule replay_in) (use i in \<open>auto simp: recover_homes_def\<close>)
  then show ?thesis using logical_in [OF h i(1)] i(2) by simp
next
  case False
  with recover_homes_other [OF False, of d "length (recover_homes l d)"] show ?thesis by (simp add: logical_out)
qed

text \<open>Recovery leaves the contents a disk stands for where they are, at every point.\<close>

lemma recover_prefix:
  fixes k :: nat
  assumes h: "head_ok l d" and len: "length (d (head_blk l)) = BSIZE"
  defines "d' \<equiv> replay d (take k (recover_writes l d))"
  shows "head_ok l d' \<and> length (d' (head_blk l)) = BSIZE \<and> (\<forall>b. b \<notin> log_region l \<longrightarrow> logical l d' b = logical l d b)"
    "b \<notin> log_region l \<Longrightarrow> replay d (recover_writes l d) b = logical l d b"
proof -
  have g: "log_geom l" and reg: "x \<in> log_region l \<Longrightarrow> x \<notin> set (head_blks l d)" for x
    using h by (auto simp: head_ok_def)
  have lr: "i < head_n l d \<Longrightarrow> log_blk l i \<in> log_region l" for i using h log_blk_region by (auto simp: head_ok_def)
  show fin: "replay d (recover_writes l d) b = logical l d b" if "b \<notin> log_region l" for b
    using that head_blk_region [of l] recover_homes_all [OF h, of b] by (auto simp: recover_writes_def)
  show "head_ok l d' \<and> length (d' (head_blk l)) = BSIZE \<and> (\<forall>b. b \<notin> log_region l \<longrightarrow> logical l d' b = logical l d b)"
  proof (cases "k \<le> length (recover_homes l d)")
    case True
    then have d: "d' = replay d (take k (recover_homes l d))" by (simp add: d'_def recover_writes_def)
    note other = recover_homes_other [of _ l d d k, folded d]
    have hd: "d' (head_blk l) = d (head_blk l)" using other reg by simp
    have "logical l d' b = logical l d b" if b: "b \<notin> log_region l" for b
      by (rule logical_cong [of d' l d, OF hd _ _ b h]) (use other reg lr in blast)+
    with head_cong [of d' l d, OF hd] h len hd show ?thesis by simp
  next
    case False
    then have d: "d' = replay d (recover_writes l d)" by (simp add: d'_def recover_writes_def)
    have "length (d' (head_blk l)) = BSIZE" "sint (u32_at 0 (d' (head_blk l))) = 0"
      using head_data_0 [OF len] head_data_fields(1) [OF len, of "l\<lparr>lh_n := 0\<rparr>"] by (simp_all add: d recover_writes_def)
    with head_empty [of d' l] g fin d show ?thesis by simp
  qed
qed

text \<open>The disk after the first \<open>k\<close> writes of a commit stands for the old contents up to the
  write of the header, and for the new ones from then on.\<close>

definition new_contents :: "'a lst_scheme \<Rightarrow> u32 \<Rightarrow> bytes" where
  "new_contents s b = (if b \<in> set (txn (lg s)) then blk_cont s b else disk s b)"

lemma commit_logged:
  fixes s :: "'a lst_scheme" and j :: nat
  assumes ok: "txn_ok (lg s)" "length (disk s (head_blk (lg s))) = BSIZE"
  defines "d \<equiv> replay ((replay (disk s) (log_writes s))(head_blk (lg s) := commit_head s)) (take j (home_writes s))"
  shows "head_ok (lg s) d" "length (d (head_blk (lg s))) = BSIZE"
    "b \<notin> log_region (lg s) \<Longrightarrow> logical (lg s) d b = new_contents s b"
proof -
  let ?l = "lg s"
  have n0: "0 \<le> lh_n ?l" "lh_n ?l \<le> int LOGSIZE" using ok(1) by (auto simp: txn_ok_def)
  note hf = head_data_fields [OF ok(2) n0, folded commit_head_def]
  note o2 = home_writes_other [OF ok(1)] and reg = log_region_txn [OF ok(1)]
  have dh: "d (head_blk ?l) = commit_head s" unfolding d_def using o2 reg by simp
  then show "length (d (head_blk ?l)) = BSIZE" using hf(1) by simp
  have n: "head_n ?l d = nat (lh_n ?l)" by (simp add: head_n_def dh hf)
  have bl: "head_blks ?l d = txn ?l"
    by (rule nth_equalityI) (use hf(3) txn_nth(1) [OF ok(1)] in \<open>simp_all add: n dh txn_length [OF ok(1)]\<close>)
  show hok: "head_ok ?l d" using ok(1) by (auto simp: head_ok_def n bl dh hf txn_ok_def)
  assume b: "b \<notin> log_region ?l"
  show "logical ?l d b = new_contents s b"
  proof (cases "b \<in> set (txn ?l)")
    case True
    then obtain t where t: "t < nat (lh_n ?l)" "b = txn ?l ! t" by (auto simp: in_set_conv_nth txn_length [OF ok(1)])
    note lb = txn_nth(4) [OF ok(1) t(1)]
    have "d (log_blk ?l t) = replay (disk s) (log_writes s) (log_blk ?l t)"
      unfolding d_def using o2 [OF reg [OF log_blk_region [OF lb]]] log_blk_head [OF _ lb] ok(1) by (auto simp: txn_ok_def)
    also have "\<dots> = blk_cont s b" using log_writes_at [OF ok(1) t(1)] t(2) txn_nth(1) [OF ok(1) t(1)] by simp
    finally show ?thesis using logical_in [OF hok, of t] t True n bl by (simp add: new_contents_def)
  next
    case False
    have "b \<noteq> head_blk ?l" using b by auto
    then have "d b = disk s b"
      unfolding d_def using o2 [OF False] log_writes_other [OF ok(1), of b "disk s" "length (log_writes s)"] b by simp
    then show ?thesis using False bl by (simp add: logical_out new_contents_def)
  qed
qed

lemma commit_prefix:
  fixes s :: "'a lst_scheme" and k :: nat
  assumes r: "commit_ready s" and e: "sint (u32_at 0 (disk s (head_blk (lg s)))) = 0"
  defines "d \<equiv> replay (disk s) (take k (commit_writes s))"
  shows "head_ok (lg s) d \<and> length (d (head_blk (lg s))) = BSIZE \<and> (b \<notin> log_region (lg s) \<longrightarrow>
    logical (lg s) d b = (if k \<le> nat (lh_n (lg s)) then disk s b else new_contents s b))"
proof -
  let ?l = "lg s" and ?n = "nat (lh_n (lg s))"
  have ok: "txn_ok ?l" "log_geom ?l" "0 \<le> lh_n ?l" "lh_n ?l \<le> int LOGSIZE"
    and len: "length (disk s (head_blk ?l)) = BSIZE"
    using r by (auto simp: commit_ready_def txn_ok_def bio_ok_def)
  have ln: "length (log_writes s) = ?n" "length (home_writes s) = ?n" by (simp_all add: log_writes_def home_writes_def)
  consider "k \<le> ?n" | j where "k = ?n + 1 + j" "j \<le> ?n" | "?n + 1 + ?n < k"
    using that(2) [of "k - ?n - 1"] by linarith
  then show ?thesis
  proof cases
    case 1
    then have d: "d = replay (disk s) (take k (log_writes s))" by (simp add: d_def commit_writes_def ln)
    have "d (head_blk ?l) = disk s (head_blk ?l)" "b \<notin> log_region ?l \<Longrightarrow> d b = disk s b"
      unfolding d using log_writes_other [OF ok(1)] by blast+
    then show ?thesis using head_empty [of d ?l] e ok(2) len 1 by simp
  next
    case 2
    then have "d = replay ((replay (disk s) (log_writes s))(head_blk ?l := commit_head s)) (take j (home_writes s))"
      by (simp add: d_def commit_writes_def ln take_Cons')
    then show ?thesis using commit_logged [OF ok(1) len, where j = j] 2 by simp
  next
    case 3
    then have d: "d = replay (disk s) (commit_writes s)" by (simp add: d_def commit_writes_def ln)
    have hl: "length (commit_head s) = BSIZE" unfolding commit_head_def by (rule head_data_fields(1) [OF len ok(3,4)])
    have "length (d (head_blk ?l)) = BSIZE" "sint (u32_at 0 (d (head_blk ?l))) = 0"
      using head_data_fields(1) [OF hl, of "?l\<lparr>lh_n := 0\<rparr>"] head_data_0 [OF hl] by (simp_all add: d commit_writes_def)
    moreover have "d b = new_contents s b" if "b \<notin> log_region ?l"
    proof -
      have "b \<noteq> head_blk ?l" using that by auto
      then show ?thesis using log_writes_other [OF ok(1), of b "disk s" ?n] that
        by (simp add: d commit_writes_def home_writes_all [OF ok(1)] new_contents_def ln)
    qed
    ultimately show ?thesis using head_empty [of d ?l] ok(2) 3 by simp
  qed
qed

section \<open>Properties\<close>

definition sb_log :: "superblock \<Rightarrow> log \<Rightarrow> bool" where
  "sb_log sp l \<longleftrightarrow> lstart l = sint (sb_logstart sp) \<and> lsize l = sint (sb_nlog sp)"

text \<open>A machine started again on disk \<open>d\<close>, before \<^verbatim>\<open>initlog\<close>.\<close>

definition rebooted :: "(u32 \<Rightarrow> bytes) \<Rightarrow> 'a lst_scheme \<Rightarrow> bool" where
  "rebooted d s \<longleftrightarrow> booted s \<and> disk s = d \<and> length (lh_block (lg s)) = LOGSIZE"

lemma geometry_cong:
  assumes "lstart l = lstart m" "lsize l = lsize m"
  shows "head_blk l = head_blk m" "log_blk l = log_blk m" "log_region l = log_region m"
    "head_n l d = head_n m d" "head_blks l d = head_blks m d" "logical l d = logical m d"
    "recover_writes l d = recover_writes m d"
proof -
  show h: "head_blk l = head_blk m" "log_blk l = log_blk m" using assms by (simp_all add: head_blk_def log_blk_def fun_eq_iff)
  then show "log_region l = log_region m" using assms by (simp add: log_region_def)
  show n: "head_n l d = head_n m d" using h by (simp add: head_n_def)
  show b: "head_blks l d = head_blks m d" using h n by (simp add: head_blks_def)
  show "logical l d = logical m d" using h b by (simp add: logical_def fun_eq_iff split: option.split)
  show "recover_writes l d = recover_writes m d" using h n b by (simp add: recover_writes_def recover_homes_def head_data_def)
qed

lemma initlog_run:
  fixes s :: "'a lst_scheme"
  assumes s: "rebooted d s" and l: "sb_log sp l" "head_ok l d"
  shows "returns (initlog ROOTDEV sp s) (\<lambda>t. booted t \<and> writes t = writes s @ recover_writes l d \<and>
    disk t = replay d (recover_writes l d))"
proof -
  let ?g = "\<lambda>l. l\<lparr>lstart := sint (sb_logstart sp), lsize := sint (sb_nlog sp), ldev := ROOTDEV\<rparr>"
  have b: "booted (upd_log ?g s)" using s by (simp add: rebooted_def booted_def)
  have e: "lstart (?g (lg s)) = lstart l" "lsize (?g (lg s)) = lsize l" using l(1) by (simp_all add: sb_log_def)
  have "log_geom (?g (lg s))"
    using l s by (simp add: log_geom_def head_ok_def sb_log_def rebooted_def)
  then have h: "head_ok (?g (lg s)) d" using l(2) e(2) unfolding head_ok_def geometry_cong [OF e] by simp
  show ?thesis
    using recover_run [OF b] h s geometry_cong(7) [OF e, of d]
    by (simp add: initlog_def LOGSIZE_def BSIZE_def rebooted_def) (erule returns_mono, simp)
qed

text \<open>C1. A transaction is atomic in the face of crashes. Let a commit start with the header on
  the disk empty, the blocks of the transaction pinned in the cache, and nobody else using
  them. It returns; and if the machine stops after any number \<open>k\<close> of the writes it makes,
  \<^verbatim>\<open>initlog\<close> on the next start returns and leaves every block outside the log with its old
  contents if the header had not been written, and with the contents the transaction gave it
  otherwise.\<close>

theorem crash_safe:
  fixes s :: "'a lst_scheme"
  assumes r: "commit_ready s" and e: "sint (u32_at 0 (disk s (head_blk (lg s)))) = 0" and sp: "sb_log sp (lg s)"
  shows "returns (commit s) (\<lambda>t. \<exists>ws. writes t = writes s @ ws \<and>
    (\<forall>k s'. rebooted (replay (disk s) (take k ws)) s' \<longrightarrow>
      returns (initlog ROOTDEV sp s') (\<lambda>u. \<forall>b. b \<notin> log_region (lg s) \<longrightarrow>
        disk u b = (if k \<le> nat (lh_n (lg s)) then disk s b else new_contents s b))))"
proof -
  have rec: "returns (initlog ROOTDEV sp s') (\<lambda>u. \<forall>b. b \<notin> log_region (lg s) \<longrightarrow>
      disk u b = (if k \<le> nat (lh_n (lg s)) then disk s b else new_contents s b))"
    if s': "rebooted (replay (disk s) (take k (commit_writes s))) s'" for k s'
  proof -
    let ?d = "replay (disk s) (take k (commit_writes s))"
    note p = commit_prefix [OF r e, where k = k]
    have h: "head_ok (lg s) ?d" "length (?d (head_blk (lg s))) = BSIZE" using p by blast+
    show ?thesis
      using initlog_run [OF s' sp h(1)] recover_prefix(2) [OF h] p by (elim returns_mono) simp
  qed
  from commit_run [OF r] show ?thesis
  proof (rule returns_mono)
    fix t assume "brun (upd_log (\<lambda>l. l\<lparr>lh_n := 0\<rparr>) s) (commit_view s) t"
    then have "writes t = writes s @ commit_writes s"
      using brun_sels(5) commit_view_fields(2) [OF r] by fastforce
    with rec show "\<exists>ws. writes t = writes s @ ws \<and> (\<forall>k s'. rebooted (replay (disk s) (take k ws)) s' \<longrightarrow>
      returns (initlog ROOTDEV sp s') (\<lambda>u. \<forall>b. b \<notin> log_region (lg s) \<longrightarrow>
        disk u b = (if k \<le> nat (lh_n (lg s)) then disk s b else new_contents s b)))" by blast
  qed
qed

text \<open>C2. Recovery itself may be interrupted. When \<^verbatim>\<open>initlog\<close> on a disk with a well-formed header
  has made any number of its writes and the machine stops, the next \<^verbatim>\<open>initlog\<close> produces the
  same contents outside the log as the first one would have.\<close>

theorem recovery_restartable:
  fixes s :: "'a lst_scheme"
  assumes s: "rebooted d s" and l: "sb_log sp l" "head_ok l d"
  shows "returns (initlog ROOTDEV sp s) (\<lambda>t. \<exists>ws. writes t = writes s @ ws \<and>
    (\<forall>k s'. rebooted (replay d (take k ws)) s' \<longrightarrow>
      returns (initlog ROOTDEV sp s') (\<lambda>u. \<forall>b. b \<notin> log_region l \<longrightarrow> disk u b = disk t b)))"
proof -
  have len: "length (d (head_blk l)) = BSIZE" using s by (auto simp: rebooted_def booted_def bio_ok_def)
  have again: "returns (initlog ROOTDEV sp s') (\<lambda>u. \<forall>b. b \<notin> log_region l \<longrightarrow> disk u b = logical l d b)"
    if s': "rebooted (replay d (take k (recover_writes l d))) s'" for k s'
  proof -
    let ?d = "replay d (take k (recover_writes l d))"
    note p = recover_prefix(1) [OF l(2) len, of k]
    have h: "head_ok l ?d" "length (?d (head_blk l)) = BSIZE" using p by blast+
    show ?thesis
      using initlog_run [OF s' l(1) h(1)] recover_prefix(2) [OF h] p by (elim returns_mono) simp
  qed
  show ?thesis
    using initlog_run [OF s l]
  proof (rule returns_mono)
    fix t assume "booted t \<and> writes t = writes s @ recover_writes l d \<and> disk t = replay d (recover_writes l d)"
    then show "\<exists>ws. writes t = writes s @ ws \<and> (\<forall>k s'. rebooted (replay d (take k ws)) s' \<longrightarrow>
      returns (initlog ROOTDEV sp s') (\<lambda>u. \<forall>b. b \<notin> log_region l \<longrightarrow> disk u b = disk t b))"
      using again recover_prefix(2) [OF l(2) len] by auto
  qed
qed

end
