(* ===== verification/Log_Ops.thy ===== *)
theory Log_Ops
  imports Log_Recovery
begin

text \<open>
  The calls that file-system code makes on the log: \<^verbatim>\<open>begin_op\<close>, \<^verbatim>\<open>log_write\<close> and \<^verbatim>\<open>end_op\<close>. A block
  is added to the transaction at most once and stays pinned in the cache; the last
  \<^verbatim>\<open>end_op\<close> commits.
\<close>

section \<open>Holding a lock and waking processes leave the cache alone\<close>

lemma slot_held [simp]: "slot (s\<lparr>held := h\<rparr>) = slot s" "slot (s\<lparr>procs := ps\<rparr>) = slot s"
  by (rule slot_cong, simp)+

lemma blk_held [simp]:
  "blk_refs (s\<lparr>held := h\<rparr>) = blk_refs s" "blk_lock (s\<lparr>held := h\<rparr>) = blk_lock s" "blk_cont (s\<lparr>held := h\<rparr>) = blk_cont s"
  "blk_refs (s\<lparr>procs := ps\<rparr>) = blk_refs s" "blk_lock (s\<lparr>procs := ps\<rparr>) = blk_lock s" "blk_cont (s\<lparr>procs := ps\<rparr>) = blk_cont s"
  by (simp_all add: fun_eq_iff blk_refs_def blk_lock_def blk_cont_def bf_def split: option.split)

lemma linked_held [simp]: "linked (s\<lparr>held := h\<rparr>) xs = linked s xs" "linked (s\<lparr>procs := ps\<rparr>) xs = linked s xs"
  by (rule linked_cong, simp add: bf_def)+

lemma bio_ok_held [simp]: "bio_ok (s\<lparr>held := h\<rparr>) = bio_ok s" "bio_ok (s\<lparr>procs := ps\<rparr>) = bio_ok s"
  by (simp_all add: bio_ok_def ring_def buf_ok_def cached_def bf_def)

lemma bview_held [simp]: "bview (s\<lparr>held := h\<rparr>) = bview s" "bview (s\<lparr>procs := ps\<rparr>) = bview s"
  by (simp_all add: bview_def)

lemma cached_held [simp]: "cached (s\<lparr>held := h\<rparr>) n i = cached s n i" "cached (upd_log f s) n i = cached s n i"
  by (simp_all add: cached_def bf_def upd_log_def)

section \<open>Adding a block\<close>

lemma txn_add:
  assumes ok: "txn_ok l" and n: "n \<notin> log_region l" "n \<notin> set (txn l)"
    and r: "lh_n l < int LOGSIZE" "lh_n l < lsize l - 1"
  defines "m \<equiv> l\<lparr>lh_block := (lh_block l)[nat (lh_n l) := n], lh_n := lh_n l + 1\<rparr>"
  shows "txn m = txn l @ [n]" "txn_ok m"
proof -
  have len: "nat (lh_n l) < length (lh_block l)" "0 \<le> lh_n l" using ok r by (auto simp: txn_ok_def log_geom_def)
  then show t: "txn m = txn l @ [n]"
    by (simp add: m_def txn_def nat_add_distrib take_Suc_conv_app_nth)
  have "log_region m = log_region l"
    by (simp add: m_def log_region_def head_blk_def log_blk_def [abs_def])
  then show "txn_ok m"
    using ok n r t by (auto simp: txn_ok_def log_geom_def m_def)
qed

lemma txn_find:
  assumes ok: "txn_ok l"
  shows "(case find_idx (\<lambda>w. w = n) (take (nat (lh_n l)) (lh_block l)) of None \<Rightarrow> nat (lh_n l) | Some k \<Rightarrow> k) = nat (lh_n l)
    \<longleftrightarrow> n \<notin> set (txn l)"
    "n \<in> set (txn l) \<Longrightarrow> (lh_block l)[case find_idx (\<lambda>w. w = n) (take (nat (lh_n l)) (lh_block l)) of
       None \<Rightarrow> nat (lh_n l) | Some k \<Rightarrow> k := n] = lh_block l"
proof -
  show "(case find_idx (\<lambda>w. w = n) (take (nat (lh_n l)) (lh_block l)) of None \<Rightarrow> nat (lh_n l) | Some k \<Rightarrow> k) = nat (lh_n l)
    \<longleftrightarrow> n \<notin> set (txn l)"
    using find_idx_None_iff [of "\<lambda>w. w = n" "txn l"] find_idx_SomeD [of "\<lambda>w. w = n" "txn l"] txn_length [OF ok]
    by (fastforce simp: txn_def split: option.split)
  assume "n \<in> set (txn l)"
  then obtain k where k: "find_idx (\<lambda>w. w = n) (txn l) = Some k"
    using find_idx_None_iff [of "\<lambda>w. w = n" "txn l"] by fastforce
  then have "k < nat (lh_n l)" "txn l ! k = n" using find_idx_SomeD [OF k] txn_length [OF ok] by auto
  then have "lh_block l ! k = n" by (simp add: txn_def)
  then show "(lh_block l)[case find_idx (\<lambda>w. w = n) (take (nat (lh_n l)) (lh_block l)) of
       None \<Rightarrow> nat (lh_n l) | Some k \<Rightarrow> k := n] = lh_block l"
    using k by (auto simp: txn_def)
qed

text \<open>A block that is already in the transaction, and a new one.\<close>

lemma log_write_again:
  fixes s :: "'a lst_scheme"
  assumes ok: "calm s" "got s n i" "txn_ok (lg s)"
    and r: "lh_n (lg s) < int LOGSIZE" "lh_n (lg s) < lsize (lg s) - 1" "1 \<le> outstanding (lg s)" and n: "n \<in> set (txn (lg s))"
  shows "log_write i s = Ok s"
proof -
  have h: "held s = []" and c: "blockno (bf s i) = n" using ok(1,2) by (auto simp: calm_def got_def cached_def)
  have "upd_log (\<lambda>l. l\<lparr>lh_block := lh_block (lg s)\<rparr>) (s\<lparr>held := [L_log]\<rparr>) = s\<lparr>held := [L_log]\<rparr>"
    by (simp add: upd_log_def)
  moreover have "(\<lambda>l. l\<lparr>lh_block := lh_block (lg s)\<rparr>) (lg s) = lg s" by simp
  ultimately show ?thesis
    using r n txn_find [OF ok(3), of n] h c by (simp add: log_write_def Let_def bf_def upd_log_def)
qed

lemma log_write_new:
  fixes s :: "'a lst_scheme"
  assumes ok: "bio_ok s" "calm s" "got s n i" "txn_ok (lg s)"
    and r: "lh_n (lg s) < int LOGSIZE" "lh_n (lg s) < lsize (lg s) - 1" "1 \<le> outstanding (lg s)"
    and n: "n \<notin> log_region (lg s)" "blk_refs s n + 1 < 2 ^ 32" "n \<notin> set (txn (lg s))"
  obtains t where "log_write i s = Ok t" "bio_ok t" "calm t" "got t n i" "bview t = v_pin n (bview s)"
    "lg t = (lg s)\<lparr>lh_block := (lh_block (lg s))[nat (lh_n (lg s)) := n], lh_n := lh_n (lg s) + 1\<rparr>"
proof -
  have h: "held s = []" and c: "cached s n i" "blockno (bf s i) = n"
    using ok(2,3) by (auto simp: calm_def got_def cached_def)
  let ?g = "\<lambda>l. l\<lparr>lh_block := (lh_block l)[nat (lh_n l) := n]\<rparr>"
  let ?u = "upd_log ?g (s\<lparr>held := [L_log]\<rparr>)"
  have "returns (bpin i ?u) (bop ?u (v_pin n))" using ok(1) n(2) c by (intro bpin_pins) simp_all
  then obtain v where v: "bpin i ?u = Ok v" "bop ?u (v_pin n) v" by (auto elim: returnsE)
  let ?t = "upd_log (\<lambda>l. l\<lparr>lh_n := lh_n l + 1\<rparr>) (v\<lparr>held := []\<rparr>)"
  have vf: "held v = [L_log]" "lg v = ?g (lg s)" "curproc v = curproc s" "length (procs v) = length (procs s)"
    "mypid v = mypid s"
    using v(2) ok(2) woken_length woken_pid
    by (auto simp: bop_def bframe_def calm_def mypid_def pr_def upd_log_def)
  have run: "log_write i s = Ok ?t"
    using r n(3) txn_find [OF ok(4), of n] h c v(1) vf(1) by (simp add: log_write_def Let_def upd_log_def bf_def)
  have view: "bview ?t = v_pin n (bview s)" "bio_ok ?t" using v(2) by (simp_all add: bop_def)
  have calm: "calm ?t" using ok(2) vf by (simp add: calm_def upd_log_def)
  have "cached ?u n i \<longrightarrow> 0 < blk_refs ?u n \<longrightarrow> cached v n i \<and> (bvalid (bf ?u i) \<longrightarrow> bvalid (bf v i))"
    using v(2) unfolding bop_def bframe_def by blast
  then have "cached v n i" "bvalid (bf v i)"
    using c(1) ok(3) gotD [OF ok(1,3)] by (simp_all add: got_def bf_def)
  moreover have "blk_lock ?t n = Some (mypid ?t)"
  proof -
    have "vlock (bview ?t) = vlock (v_pin n (bview s))" using view(1) by (rule arg_cong)
    then have "blk_lock ?t n = blk_lock s n" by (simp add: v_pin_def)
    moreover have "mypid ?t = mypid s" using vf(5) by (simp add: mypid_def pr_def upd_log_def)
    ultimately show ?thesis using ok(3) by (simp add: got_def)
  qed
  ultimately have got: "got ?t n i" by (simp add: got_def bf_def upd_log_def cached_def)
  have "lg ?t = (lg s)\<lparr>lh_block := (lh_block (lg s))[nat (lh_n (lg s)) := n], lh_n := lh_n (lg s) + 1\<rparr>"
    using vf(2) by (simp add: upd_log_def)
  with run view calm got show ?thesis by (intro that)
qed

lemma log_write_adds:
  fixes s :: "'a lst_scheme"
  assumes ok: "bio_ok s" "calm s" "got s n i" "txn_ok (lg s)"
    and r: "lh_n (lg s) < int LOGSIZE" "lh_n (lg s) < lsize (lg s) - 1" "1 \<le> outstanding (lg s)"
    and n: "n \<notin> log_region (lg s)" "blk_refs s n + 1 < 2 ^ 32"
  shows "returns (log_write i s) (\<lambda>t. bio_ok t \<and> calm t \<and> got t n i \<and> txn_ok (lg t) \<and>
      (if n \<in> set (txn (lg s)) then lg t = lg s \<and> bview t = bview s
       else txn (lg t) = txn (lg s) @ [n] \<and> bview t = v_pin n (bview s)))"
proof (cases "n \<in> set (txn (lg s))")
  case True
  with log_write_again [OF ok(2-4) r] ok show ?thesis by simp
next
  case False
  obtain t where t: "log_write i s = Ok t" "bio_ok t" "calm t" "got t n i" "bview t = v_pin n (bview s)"
    "lg t = (lg s)\<lparr>lh_block := (lh_block (lg s))[nat (lh_n (lg s)) := n], lh_n := lh_n (lg s) + 1\<rparr>"
    by (rule log_write_new [OF ok r n False])
  with txn_add [OF ok(4) n(1) False r(1,2)] False show ?thesis by simp
qed

text \<open>C18. \<^verbatim>\<open>log_write\<close> of a buffer the process has locked: it panics exactly when the log is full
  or no transaction is open. Otherwise it adds the block to the transaction, once however often
  it is written, pins it if it is new, and changes no contents; it keeps the log well-formed.\<close>

theorem log_write_logs:
  fixes s :: "'a lst_scheme"
  assumes ok: "bio_ok s" "calm s" "got s n i" "txn_ok (lg s)"
    and n: "n \<notin> log_region (lg s)" "blk_refs s n + 1 < 2 ^ 32"
  shows "if lh_n (lg s) \<ge> int LOGSIZE \<or> lh_n (lg s) \<ge> lsize (lg s) - 1
    then log_write i s = Panic ''too big a transaction''
    else if outstanding (lg s) < 1 then log_write i s = Panic ''log_write outside of trans''
    else returns (log_write i s) (\<lambda>t. bio_ok t \<and> calm t \<and> got t n i \<and> txn_ok (lg t) \<and>
      (if n \<in> set (txn (lg s)) then lg t = lg s \<and> bview t = bview s
       else txn (lg t) = txn (lg s) @ [n] \<and> bview t = v_pin n (bview s)))"
proof (cases "(lh_n (lg s) \<ge> int LOGSIZE \<or> lh_n (lg s) \<ge> lsize (lg s) - 1) \<or> outstanding (lg s) < 1")
  case True
  then show ?thesis using ok(2) by (auto simp: log_write_def calm_def)
next
  case False
  then have room: "lh_n (lg s) < int LOGSIZE" "lh_n (lg s) < lsize (lg s) - 1" "1 \<le> outstanding (lg s)" by simp_all
  show ?thesis
    using log_write_adds [OF ok room n] room by simp
qed

section \<open>Beginning and ending\<close>

text \<open>The fields of the log a commit depends on.\<close>

lemma commit_cong:
  fixes s :: "'a lst_scheme"
  assumes "\<And>l. lstart (g l) = lstart l \<and> lsize (g l) = lsize l \<and> ldev (g l) = ldev l \<and>
    lh_n (g l) = lh_n l \<and> lh_block (g l) = lh_block l"
  shows "commit_ready (upd_log g s) = commit_ready s" "commit_writes (upd_log g s) = commit_writes s"
    "new_contents (upd_log g s) = new_contents s" "log_region (g l) = log_region l"
proof -
  show r: "log_region (g l) = log_region l" for l
    using assms by (simp add: log_region_def head_blk_def log_blk_def [abs_def])
  have t: "txn (g l) = txn l" for l using assms by (simp add: txn_def)
  have "txn_ok (g l) = txn_ok l" for l using assms r t by (simp add: txn_ok_def log_geom_def)
  with r t assms show "commit_ready (upd_log g s) = commit_ready s" by (simp add: commit_ready_def)
  show "commit_writes (upd_log g s) = commit_writes s"
    using assms by (simp add: commit_writes_def log_writes_def home_writes_def commit_head_def head_data_def
        head_blk_def log_blk_def)
  show "new_contents (upd_log g s) = new_contents s" using t by (simp add: new_contents_def fun_eq_iff)
qed

lemma wakeup_log:
  fixes s :: "'a lst_scheme"
  assumes "calm s"
  obtains ps where "wakeup Ch_log (upd_log g (s\<lparr>held := [L_log]\<rparr>)) = Ok (upd_log g (s\<lparr>held := [L_log], procs := ps\<rparr>))"
    "length ps = NPROC"
proof -
  have "table_ok (upd_log g (s\<lparr>held := [L_log]\<rparr>))"
    using assms by (simp add: table_ok_def unlocked_def calm_def upd_log_def)
  then obtain ps where "wakeup Ch_log (upd_log g (s\<lparr>held := [L_log]\<rparr>)) = Ok ((upd_log g (s\<lparr>held := [L_log]\<rparr>))\<lparr>procs := ps\<rparr>)"
    "woken (curproc s) (procs s) ps"
    by (rule wakeup_woken [of "upd_log g (s\<lparr>held := [L_log]\<rparr>)" Ch_log]) (simp add: upd_log_def)
  with assms woken_length show ?thesis by (intro that [of ps]) (auto simp: upd_log_def calm_def)
qed

text \<open>C19. \<^verbatim>\<open>end_op\<close> of an operation that is not the last one only counts down. The last one
  commits: it returns, the disk gets exactly the writes of the commit, every block outside
  the log is on the disk with the contents the cache has for it if it belongs to the
  transaction and with its old contents otherwise, and the log is empty and open again.\<close>

theorem end_op_commits:
  fixes s :: "'a lst_scheme"
  assumes c: "calm s" "\<not> committing (lg s)" and r: "outstanding (lg s) = 1 \<Longrightarrow> commit_ready s"
  shows "returns (end_op s) (\<lambda>t. calm t \<and>
    (if outstanding (lg s) = 1
     then writes t = writes s @ commit_writes s \<and>
       (\<forall>b. b \<notin> log_region (lg s) \<longrightarrow> disk t b = new_contents s b \<and> blk_cont t b = blk_cont s b) \<and>
       lg t = (lg s)\<lparr>outstanding := 0, lh_n := 0\<rparr>
     else bview t = bview s \<and> lg t = (lg s)\<lparr>outstanding := outstanding (lg s) - 1\<rparr>))"
proof (cases "outstanding (lg s) = 1")
  case False
  let ?g = "\<lambda>l. l\<lparr>outstanding := outstanding l - 1\<rparr>"
  obtain ps where "wakeup Ch_log (upd_log ?g (s\<lparr>held := [L_log]\<rparr>)) = Ok (upd_log ?g (s\<lparr>held := [L_log], procs := ps\<rparr>))"
    "length ps = NPROC" by (rule wakeup_log [OF c(1)])
  with bview_upd_log [of ?g "s\<lparr>procs := ps\<rparr>"] show ?thesis using c False by (simp add: end_op_def calm_def upd_log_def)
next
  case True
  let ?g = "\<lambda>l. l\<lparr>outstanding := outstanding l - 1, committing := True\<rparr>"
  let ?s = "upd_log ?g s"
  have rs: "commit_ready ?s" "commit_writes ?s = commit_writes s" "new_contents ?s = new_contents s"
    "log_region (lg ?s) = log_region (lg s)"
    using r [OF True] by (simp_all add: commit_cong)
  obtain t where t: "commit ?s = Ok t" "brun (upd_log (\<lambda>l. l\<lparr>lh_n := 0\<rparr>) ?s) (commit_view ?s) t"
    using commit_run [OF rs(1)] by (auto elim: returnsE)
  have ct: "calm t" using brun_calm(1) [OF t(2)] c(1) by simp
  have lt: "lg t = (lg s)\<lparr>outstanding := 0, committing := True, lh_n := 0\<rparr>" using brun_lg [OF t(2)] True by simp
  let ?h = "\<lambda>l. l\<lparr>committing := False\<rparr>"
  obtain ps where w: "wakeup Ch_log (upd_log ?h (t\<lparr>held := [L_log]\<rparr>)) = Ok (upd_log ?h (t\<lparr>held := [L_log], procs := ps\<rparr>))"
    "length ps = NPROC" by (rule wakeup_log [OF ct])
  let ?u = "upd_log ?h (t\<lparr>procs := ps\<rparr>)"
  have hs: "?s\<lparr>held := []\<rparr> = ?s" "?u\<lparr>held := []\<rparr> = ?u"
    using c(1) ct by (intro held_triv, simp add: calm_def upd_log_def)+
  have "end_op s = rbind (commit (?s\<lparr>held := []\<rparr>)) (\<lambda>s. rbind (acquire L_log s) (\<lambda>s.
      rbind (wakeup Ch_log (upd_log ?h s)) (release L_log)))"
    using c True by (simp add: end_op_def calm_def upd_log_def)
  also have "\<dots> = Ok (?u\<lparr>held := []\<rparr>)"
    unfolding hs(1) t(1) using w ct by (simp add: calm_def upd_log_def)
  finally have e: "end_op s = Ok ?u" unfolding hs(2) .
  have cu: "calm ?u" using ct w(2) by (simp add: calm_def upd_log_def)
  note v = brun_sels [OF t(2)] commit_view_fields [OF rs(1)]
  have "writes ?u = writes s @ commit_writes s" using v(5,7) rs(2) by simp
  moreover have "disk ?u b = new_contents s b \<and> blk_cont ?u b = blk_cont s b" if b: "b \<notin> log_region (lg s)" for b
  proof -
    have ok: "txn_ok (lg ?s)" and bh: "b \<noteq> head_blk (lg s)" using rs(1) b by (auto simp: commit_ready_def)
    have "disk ?u b = replay (disk s) (commit_writes ?s) b" using v(4,6) by simp
    also have "\<dots> = new_contents ?s b"
      using home_writes_all [OF ok] log_writes_other [OF ok, of b _ "length (log_writes ?s)"] b bh rs(4)
      by (simp add: commit_writes_def new_contents_def head_blk_def)
    finally show ?thesis using v(2) v(10) [of b] b rs(3,4) by simp
  qed
  moreover have "lg ?u = (lg s)\<lparr>outstanding := 0, lh_n := 0\<rparr>" using lt c(2) by simp
  ultimately show ?thesis using e cu True by simp
qed

section \<open>A concrete system\<close>

definition demo_log :: log where
  "demo_log = \<lparr>lstart = 2, lsize = 30, outstanding = 1, committing = False, ldev = ROOTDEV, lh_n = 0,
     lh_block = replicate 30 0\<rparr>"

definition demo_sb :: superblock where
  "demo_sb = \<lparr>sb_magic = 0x10203040, sb_size = 2000, sb_nblocks = 1954, sb_ninodes = 200, sb_nlog = 30,
     sb_logstart = 2, sb_inodestart = 32, sb_bmapstart = 45\<rparr>"

definition demo_lst :: "log \<Rightarrow> lst" where
  "demo_lst l = demo_bst zero_disk (lst_ext l ())"

lemma demo_lst_lg [simp]: "lg (demo_lst l) = l"
proof -
  obtain bs sl where "demo_bst zero_disk (lst_ext l ()) = (boot_bst zero_disk (lst_ext l ()))\<lparr>slks := sl, bufs := bs\<rparr>"
    using binit_cache(5) [OF boot_bst_fresh [OF zero_disk_length, where x = "lst_ext l ()"]] unfolding demo_bst_def by blast
  then show ?thesis by (simp add: demo_lst_def boot_bst_def)
qed

lemmas demo_lst_view = demo_zero [where x = "lst_ext l ()" for l, folded demo_lst_def]

lemma demo_geom: "txn_ok demo_log" "100 \<notin> log_region demo_log" "head_blk demo_log = 2" "sb_log demo_sb demo_log"
proof -
  show "txn_ok demo_log" by (simp add: txn_ok_def log_geom_def demo_log_def txn_def LOGSIZE_def)
  have "(100 :: u32) \<noteq> word_of_int (2 + int t + 1)" if "int t < 29" for t
    using word_of_int_inj [of 100 "2 + int t + 1", where 'a = 32] that by simp
  then show "100 \<notin> log_region demo_log"
    by (auto simp: log_region_def demo_log_def head_blk_def log_blk_def)
  show "head_blk demo_log = 2" "sb_log demo_sb demo_log"
    by (simp_all add: sb_log_def demo_sb_def demo_log_def head_blk_def)
qed

text \<open>Block 100 locked by the running process, and then in a transaction with new contents.\<close>

lemma demo_got:
  obtains i and s :: lst where "got s 100 i" "bio_ok s" "calm s" "lg s = demo_log" "blk_refs s = (\<lambda>_. 0)(100 := 1)"
    "blk_lock s = (\<lambda>_. None)(100 := Some 1)" "disk s = zero_disk" "mypid s = 1"
proof -
  let ?s = "demo_lst demo_log"
  have "room 100 ?s" by (simp add: room_def demo_lst_view NBUF_def)
  then have "returns (bread ROOTDEV 100 ?s) (\<lambda>(i, t). got t 100 i \<and> bop ?s (v_get 100 (mypid ?s)) t)"
    by (intro bread_gets) (simp_all add: demo_lst_view)
  then obtain i t where t: "got t 100 i" "bop ?s (v_get 100 (mypid ?s)) t" by (auto elim: returnsE)
  note c = bop_calm [OF t(2)] and v = bop_sels [OF t(2)]
  show ?thesis
    by (rule that [OF t(1)])
      (use c v brun_lg [OF bop_brun [OF t(2)]] in \<open>simp_all add: demo_lst_view v_get_def bview_def\<close>)
qed

definition demo_data :: bytes where
  "demo_data = replicate BSIZE 1"

lemma demo_commit:
  obtains s :: lst where "commit_ready s" "lh_n (lg s) = 1" "txn (lg s) = [100]" "outstanding (lg s) = 1"
    "\<not> committing (lg s)" "disk s = zero_disk" "blk_cont s 100 = demo_data" "sb_log demo_sb (lg s)"
    "log_region (lg s) = log_region demo_log" "head_blk (lg s) = 2"
proof -
  obtain i and s :: lst where s: "got s 100 i" "bio_ok s" "calm s" "lg s = demo_log" "blk_refs s = (\<lambda>_. 0)(100 := 1)"
    "blk_lock s = (\<lambda>_. None)(100 := Some 1)" "disk s = zero_disk" "mypid s = 1" by (rule demo_got)
  let ?a = "set_data i demo_data s"
  have a: "bop s (v_set 100 demo_data) ?a" by (rule set_data_sets [OF s(2,1)]) (simp add: demo_data_def)
  note ca = bop_calm [OF a s(3)] and va = bop_sels [OF a]
  have ga: "got ?a 100 i" using got_step [OF a s(3,2,1)] s(1) by (simp add: v_set_def got_def)
  have "returns (bpin i ?a) (bop ?a (v_pin 100))"
    using ca ga va s(5) by (intro bpin_pins) (simp_all add: got_def v_set_def calm_def)
  then obtain b where b: "bpin i ?a = Ok b" "bop ?a (v_pin 100) b" by (auto elim: returnsE)
  note cb = bop_calm [OF b(2)] and vb = bop_sels [OF b(2)]
  have gb: "got b 100 i" using got_step [OF b(2) _ _ ga] ca by (simp add: v_pin_def)
  have "returns (brelse i b) (bop b (v_put 100))"
    using brelse_puts [OF _ _ gb] cb ca vb va s(5) by (simp add: v_pin_def v_set_def)
  then obtain c where c: "bop b (v_put 100) c" by (auto elim: returnsE)
  note cc = bop_calm [OF c] and vc = bop_sels [OF c]
  let ?g = "\<lambda>l. l\<lparr>lh_block := (lh_block l)[nat (lh_n l) := 100], lh_n := lh_n l + 1\<rparr>"
  have lc: "lg c = demo_log"
    using brun_lg [OF bop_brun [OF a]] brun_lg [OF bop_brun [OF b(2)]] brun_lg [OF bop_brun [OF c]] s(4) by simp
  have ta: "txn (?g demo_log) = txn demo_log @ [100]" "txn_ok (?g demo_log)"
    by (rule txn_add [OF demo_geom(1,2)]; simp add: demo_log_def LOGSIZE_def txn_def)+
  have reg: "log_region (?g demo_log) = log_region demo_log" "head_blk (?g demo_log) = 2" "sb_log demo_sb (?g demo_log)"
    using demo_geom(3,4) by (simp_all add: log_region_def head_blk_def log_blk_def [abs_def] sb_log_def)
  have t1: "txn (?g demo_log) = [100]" using ta(1) by (simp add: txn_def demo_log_def)
  have view: "blk_refs c = (\<lambda>_. 0)(100 := 1)" "blk_lock c = (\<lambda>_. None)" "disk c = zero_disk" "blk_cont c 100 = demo_data"
    using va vb vc s by (auto simp: v_set_def v_pin_def v_put_def fun_eq_iff)
  have "{b. 0 < blk_refs c b} = {100}" using view(1) by auto
  moreover have l1: "lg (upd_log ?g c) = ?g demo_log" using lc by simp
  ultimately have "commit_ready (upd_log ?g c)"
    using cc cb ca ta(2) demo_geom(2) unfolding commit_ready_def l1 reg(1) t1
    by (auto simp: view NBUF_def demo_log_def [THEN arg_cong, of lh_n])
  then show ?thesis
    by (rule that) (use lc t1 view reg in \<open>simp_all add: demo_log_def\<close>)
qed

lemma zero_head: "sint (u32_at 0 (zero_disk n)) = 0"
  by (simp add: zero_disk_def u32_at_def bslice_def BSIZE_def numeral_eq_Suc)

theorem crash_safe_witness:
  "\<exists>s :: lst. commit_ready s \<and> txn (lg s) = [100] \<and> new_contents s 100 \<noteq> disk s 100 \<and>
     returns (commit s) (\<lambda>t. \<exists>ws. writes t = writes s @ ws \<and>
       (\<forall>k s'. rebooted (replay (disk s) (take k ws)) (s' :: lst) \<longrightarrow>
         returns (initlog ROOTDEV demo_sb s') (\<lambda>u. \<forall>b. b \<notin> log_region (lg s) \<longrightarrow>
           disk u b = (if k \<le> nat (lh_n (lg s)) then disk s b else new_contents s b))))"
proof -
  obtain s :: lst where s: "commit_ready s" "lh_n (lg s) = 1" "txn (lg s) = [100]" "outstanding (lg s) = 1"
    "\<not> committing (lg s)" "disk s = zero_disk" "blk_cont s 100 = demo_data" "sb_log demo_sb (lg s)"
    "log_region (lg s) = log_region demo_log" "head_blk (lg s) = 2" by (rule demo_commit)
  have "new_contents s 100 \<noteq> disk s 100"
    using s by (simp add: new_contents_def demo_data_def zero_disk_def BSIZE_def)
  moreover have "sint (u32_at 0 (disk s (head_blk (lg s)))) = 0" using s zero_head by simp
  ultimately show ?thesis using crash_safe [OF s(1) _ s(8)] s(1,3) by blast
qed

lemma demo_rebooted: "rebooted zero_disk (demo_lst demo_log)"
  by (simp add: rebooted_def booted_def demo_lst_view demo_log_def LOGSIZE_def)

theorem recovery_restartable_witness:
  "rebooted zero_disk (demo_lst demo_log) \<and> returns (initlog ROOTDEV demo_sb (demo_lst demo_log)) (\<lambda>t.
     \<exists>ws. writes t = writes (demo_lst demo_log) @ ws \<and>
      (\<forall>k s'. rebooted (replay zero_disk (take k ws)) (s' :: lst) \<longrightarrow>
        returns (initlog ROOTDEV demo_sb s') (\<lambda>u. \<forall>b. b \<notin> log_region demo_log \<longrightarrow> disk u b = disk t b)))"
proof -
  have "head_ok demo_log zero_disk"
    using head_empty [of zero_disk demo_log] zero_head demo_geom(1) by (simp add: txn_ok_def)
  then show ?thesis using recovery_restartable [OF demo_rebooted demo_geom(4)] demo_rebooted by blast
qed

theorem log_write_logs_witness:
  "\<exists>i (s :: lst). got s 100 i \<and> returns (log_write i s) (\<lambda>t. txn (lg t) = [100] \<and> bview t = v_pin 100 (bview s))"
proof -
  obtain i and s :: lst where s: "got s 100 i" "bio_ok s" "calm s" "lg s = demo_log" "blk_refs s = (\<lambda>_. 0)(100 := 1)"
    "blk_lock s = (\<lambda>_. None)(100 := Some 1)" "disk s = zero_disk" "mypid s = 1" by (rule demo_got)
  have "returns (log_write i s) (\<lambda>t. txn (lg t) = [100] \<and> bview t = v_pin 100 (bview s))"
    using log_write_logs [OF s(2,3,1)] demo_geom s(4,5)
    by (simp add: demo_log_def txn_def LOGSIZE_def) (elim returns_mono, simp)
  with s(1) show ?thesis by blast
qed

theorem end_op_commits_witness:
  "\<exists>s :: lst. commit_ready s \<and> returns (end_op s) (\<lambda>t. disk t 100 = demo_data \<and> lh_n (lg t) = 0)"
proof -
  obtain s :: lst where s: "commit_ready s" "lh_n (lg s) = 1" "txn (lg s) = [100]" "outstanding (lg s) = 1"
    "\<not> committing (lg s)" "disk s = zero_disk" "blk_cont s 100 = demo_data" "sb_log demo_sb (lg s)"
    "log_region (lg s) = log_region demo_log" "head_blk (lg s) = 2" by (rule demo_commit)
  have "calm s" using s(1) by (simp add: commit_ready_def)
  with end_op_commits [OF _ s(5)] s(1) have "returns (end_op s) (\<lambda>t. disk t 100 = demo_data \<and> lh_n (lg t) = 0)"
    using s demo_geom(2) by (auto simp: new_contents_def elim!: returns_mono)
  with s(1) show ?thesis by blast
qed

end
