(* ===== verification/Fs.thy ===== *)
theory Fs
  imports Log
begin

text \<open>
  The file system proper (\<^verbatim>\<open>kernel/fs.c\<close>): the block allocator, in-memory and on-disk
  inodes, inode contents, directories and path names. An in-memory inode is named by
  its index in \<^verbatim>\<open>itable\<close>; \<open>None\<close> is the null pointer. C \<^verbatim>\<open>short\<close> fields are 16-bit words,
  read signed where the code compares them. Console output of \<^verbatim>\<open>printf\<close> on a full disk
  is left out.

  A transfer between an inode and memory names the other side by a \<open>place\<close>: a user
  virtual address, a kernel address, or an object in the caller's stack frame, whose
  bytes are passed and returned as a list.
\<close>

section \<open>Data\<close>

definition NINODE :: nat where [xv6_consts]: "NINODE = 50"
definition ROOTINO :: u32 where [xv6_consts]: "ROOTINO = 1"
definition FSMAGIC :: u32 where [xv6_consts]: "FSMAGIC = 0x10203040"
definition NDIRECT :: nat where [xv6_consts]: "NDIRECT = 12"
definition NINDIRECT :: nat where [xv6_consts]: "NINDIRECT = 256"
definition MAXFILE :: nat where [xv6_consts]: "MAXFILE = NDIRECT + NINDIRECT"
definition IPB :: nat where [xv6_consts]: "IPB = 16"
definition BPB :: nat where [xv6_consts]: "BPB = 8192"
definition DIRSIZ :: nat where [xv6_consts]: "DIRSIZ = 14"
definition T_DIR :: u16 where [xv6_consts]: "T_DIR = 1"
definition T_FILE :: u16 where [xv6_consts]: "T_FILE = 2"
definition T_DEVICE :: u16 where [xv6_consts]: "T_DEVICE = 3"

record inode =
  idev :: u32
  inum :: u32
  iref :: int
  ivalid :: bool
  itype :: u16
  imajor :: u16
  iminor :: u16
  inlink :: u16
  isize :: u32
  iaddrs :: "u32 list"

record fsst = lst +
  sb :: superblock
  inodes :: "inode list"

definition ino :: "'a fsst_scheme \<Rightarrow> nat \<Rightarrow> inode" where
  "ino s i = inodes s ! i"

definition upd_ino :: "nat \<Rightarrow> (inode \<Rightarrow> inode) \<Rightarrow> 'a fsst_scheme \<Rightarrow> 'a fsst_scheme" where
  "upd_ino i f s = s\<lparr>inodes := (inodes s)[i := f (inodes s ! i)]\<rparr>"

definition IBLOCK :: "u32 \<Rightarrow> superblock \<Rightarrow> u32" where
  "IBLOCK i sp = i div of_nat IPB + sb_inodestart sp"

definition BBLOCK :: "u32 \<Rightarrow> superblock \<Rightarrow> u32" where
  "BBLOCK b sp = b div of_nat BPB + sb_bmapstart sp"

text \<open>A \<^verbatim>\<open>struct dinode\<close> in its block: 64 bytes at \<^verbatim>\<open>inum % IPB\<close>.\<close>

definition dinode_off :: "u32 \<Rightarrow> nat" where
  "dinode_off n = unat n mod IPB * 64"

definition dinode_bytes :: "inode \<Rightarrow> bytes" where
  "dinode_bytes ip = bytes_of 2 (itype ip) @ bytes_of 2 (imajor ip) @ bytes_of 2 (iminor ip) @
     bytes_of 2 (inlink ip) @ bytes_of 4 (isize ip) @ concat (map (bytes_of 4) (iaddrs ip))"

definition read_dinode :: "nat \<Rightarrow> bytes \<Rightarrow> inode \<Rightarrow> inode" where
  "read_dinode off bs ip = ip\<lparr>itype := u16_at off bs, imajor := u16_at (off + 2) bs,
     iminor := u16_at (off + 4) bs, inlink := u16_at (off + 6) bs, isize := u32_at (off + 8) bs,
     iaddrs := map (\<lambda>k. u32_at (off + 12 + 4 * k) bs) [0..<NDIRECT + 1]\<rparr>"

section \<open>Super block and block allocator\<close>

definition readsb :: "u32 \<Rightarrow> 'a fsst_scheme \<Rightarrow> 'a fsst_scheme res" where
  "readsb dev s =
     rbind (bread dev 1 s) (\<lambda>(bp, s).
     let d = bdata (bf s bp)
     in brelse bp (s\<lparr>sb := \<lparr>sb_magic = u32_at 0 d, sb_size = u32_at 4 d, sb_nblocks = u32_at 8 d,
          sb_ninodes = u32_at 12 d, sb_nlog = u32_at 16 d, sb_logstart = u32_at 20 d,
          sb_inodestart = u32_at 24 d, sb_bmapstart = u32_at 28 d\<rparr>\<rparr>))"

definition fsinit :: "u32 \<Rightarrow> 'a fsst_scheme \<Rightarrow> 'a fsst_scheme res" where
  "fsinit dev s =
     rbind (readsb dev s) (\<lambda>s.
       if sb_magic (sb s) \<noteq> FSMAGIC then Panic ''invalid file system'' else initlog dev (sb s) s)"

definition bzero :: "u32 \<Rightarrow> u32 \<Rightarrow> 'a fsst_scheme \<Rightarrow> 'a fsst_scheme res" where
  "bzero dev bno s =
     rbind (bread dev bno s) (\<lambda>(bp, s).
     rbind (log_write bp (set_data bp (replicate BSIZE 0) s)) (brelse bp))"

definition bit_mask :: "nat \<Rightarrow> u8" where
  "bit_mask bi = push_bit (bi mod 8) 1"

definition bit_free :: "bytes \<Rightarrow> nat \<Rightarrow> bool" where
  "bit_free d bi \<longleftrightarrow> d ! (bi div 8) AND bit_mask bi = 0"

text \<open>The values of \<^verbatim>\<open>b\<close> in the outer loop of \<^verbatim>\<open>balloc\<close>: the multiples of \<^verbatim>\<open>BPB\<close> below the size.\<close>

fun balloc_loop :: "u32 \<Rightarrow> nat list \<Rightarrow> 'a fsst_scheme \<Rightarrow> (u32 \<times> 'a fsst_scheme) res" where
  "balloc_loop dev [] s = Ok (0, s)"
| "balloc_loop dev (b # bs) s =
     rbind (bread dev (BBLOCK (of_nat b) (sb s)) s) (\<lambda>(bp, s).
     let d = bdata (bf s bp)
     in case find (\<lambda>bi. b + bi < unat (sb_size (sb s)) \<and> bit_free d bi) [0..<BPB] of
          Some bi \<Rightarrow>
            rbind (log_write bp (set_data bp (d[bi div 8 := d ! (bi div 8) OR bit_mask bi]) s)) (\<lambda>s.
            rbind (brelse bp s) (\<lambda>s.
            rbind (bzero dev (of_nat (b + bi)) s) (\<lambda>s. Ok (of_nat (b + bi), s))))
        | None \<Rightarrow> rbind (brelse bp s) (balloc_loop dev bs))"

definition balloc :: "u32 \<Rightarrow> 'a fsst_scheme \<Rightarrow> (u32 \<times> 'a fsst_scheme) res" where
  "balloc dev s =
     balloc_loop dev (map (\<lambda>k. k * BPB) [0..<(unat (sb_size (sb s)) + BPB - 1) div BPB]) s"

definition bfree :: "u32 \<Rightarrow> u32 \<Rightarrow> 'a fsst_scheme \<Rightarrow> 'a fsst_scheme res" where
  "bfree dev b s =
     rbind (bread dev (BBLOCK b (sb s)) s) (\<lambda>(bp, s).
     let bi = unat b mod BPB; d = bdata (bf s bp)
     in if bit_free d bi then Panic ''freeing free block''
        else rbind (log_write bp (set_data bp (d[bi div 8 := d ! (bi div 8) AND NOT (bit_mask bi)]) s))
               (brelse bp))"


section \<open>Inodes\<close>

definition iinit :: "'a fsst_scheme \<Rightarrow> 'a fsst_scheme" where
  "iinit s = fold (\<lambda>i. initsleeplock (Slk_inode i)) [0..<NINODE] s"

definition iget :: "u32 \<Rightarrow> u32 \<Rightarrow> 'a fsst_scheme \<Rightarrow> (nat \<times> 'a fsst_scheme) res" where
  "iget dev n s =
     rbind (acquire L_itable s) (\<lambda>s.
     case find_idx (\<lambda>ip. iref ip > 0 \<and> idev ip = dev \<and> inum ip = n) (take NINODE (inodes s)) of
       Some i \<Rightarrow>
         rbind (release L_itable (upd_ino i (\<lambda>ip. ip\<lparr>iref := iref ip + 1\<rparr>) s)) (\<lambda>s. Ok (i, s))
     | None \<Rightarrow>
         (case find_idx (\<lambda>ip. iref ip = 0) (take NINODE (inodes s)) of
            None \<Rightarrow> Panic ''iget: no inodes''
          | Some i \<Rightarrow>
              rbind (release L_itable (upd_ino i (\<lambda>ip. ip\<lparr>idev := dev, inum := n, iref := 1,
                       ivalid := False\<rparr>) s)) (\<lambda>s. Ok (i, s))))"

fun ialloc_loop :: "u32 \<Rightarrow> u16 \<Rightarrow> nat list \<Rightarrow> 'a fsst_scheme \<Rightarrow> (nat option \<times> 'a fsst_scheme) res" where
  "ialloc_loop dev ty [] s = Ok (None, s)"
| "ialloc_loop dev ty (n # ns) s =
     rbind (bread dev (IBLOCK (of_nat n) (sb s)) s) (\<lambda>(bp, s).
     let d = bdata (bf s bp); off = dinode_off (of_nat n)
     in if u16_at off d = 0
        then rbind (log_write bp (set_data bp (set_u16 off ty (splice off (replicate 64 0) d)) s)) (\<lambda>s.
             rbind (brelse bp s) (\<lambda>s.
             rbind (iget dev (of_nat n) s) (\<lambda>(i, s). Ok (Some i, s))))
        else rbind (brelse bp s) (ialloc_loop dev ty ns))"

definition ialloc :: "u32 \<Rightarrow> u16 \<Rightarrow> 'a fsst_scheme \<Rightarrow> (nat option \<times> 'a fsst_scheme) res" where
  "ialloc dev ty s = ialloc_loop dev ty [1..<unat (sb_ninodes (sb s))] s"

definition iupdate :: "nat \<Rightarrow> 'a fsst_scheme \<Rightarrow> 'a fsst_scheme res" where
  "iupdate i s =
     rbind (bread (idev (ino s i)) (IBLOCK (inum (ino s i)) (sb s)) s) (\<lambda>(bp, s).
     rbind (log_write bp (set_data bp (splice (dinode_off (inum (ino s i))) (dinode_bytes (ino s i))
              (bdata (bf s bp))) s)) (brelse bp))"

definition idup :: "nat \<Rightarrow> 'a fsst_scheme \<Rightarrow> (nat \<times> 'a fsst_scheme) res" where
  "idup i s =
     rbind (acquire L_itable s) (\<lambda>s.
     rbind (release L_itable (upd_ino i (\<lambda>ip. ip\<lparr>iref := iref ip + 1\<rparr>) s)) (\<lambda>s. Ok (i, s)))"

definition ilock :: "nat \<Rightarrow> 'a fsst_scheme \<Rightarrow> 'a fsst_scheme res" where
  "ilock i s =
     (if iref (ino s i) < 1 then Panic ''ilock''
      else rbind (acquiresleep (Slk_inode i) s) (\<lambda>s.
        if \<not> ivalid (ino s i)
        then rbind (bread (idev (ino s i)) (IBLOCK (inum (ino s i)) (sb s)) s) (\<lambda>(bp, s).
             let s = upd_ino i (read_dinode (dinode_off (inum (ino s i))) (bdata (bf s bp))) s
             in rbind (brelse bp s) (\<lambda>s.
                let s = upd_ino i (\<lambda>ip. ip\<lparr>ivalid := True\<rparr>) s
                in if itype (ino s i) = 0 then Panic ''ilock: no type'' else Ok s))
        else Ok s))"

definition iunlock :: "nat \<Rightarrow> 'a fsst_scheme \<Rightarrow> 'a fsst_scheme res" where
  "iunlock i s =
     rbind (holdingsleep (Slk_inode i) s) (\<lambda>(h, s).
       if \<not> h \<or> iref (ino s i) < 1 then Panic ''iunlock'' else releasesleep (Slk_inode i) s)"

fun itrunc_direct :: "nat \<Rightarrow> nat list \<Rightarrow> 'a fsst_scheme \<Rightarrow> 'a fsst_scheme res" where
  "itrunc_direct i [] s = Ok s"
| "itrunc_direct i (k # ks) s =
     (if iaddrs (ino s i) ! k \<noteq> 0
      then rbind (bfree (idev (ino s i)) (iaddrs (ino s i) ! k) s) (\<lambda>s.
             itrunc_direct i ks (upd_ino i (\<lambda>ip. ip\<lparr>iaddrs := (iaddrs ip)[k := 0]\<rparr>) s))
      else itrunc_direct i ks s)"

fun itrunc_indirect :: "nat \<Rightarrow> nat \<Rightarrow> nat list \<Rightarrow> 'a fsst_scheme \<Rightarrow> 'a fsst_scheme res" where
  "itrunc_indirect i bp [] s = Ok s"
| "itrunc_indirect i bp (j # js) s =
     (let a = u32_at (4 * j) (bdata (bf s bp))
      in if a \<noteq> 0 then rbind (bfree (idev (ino s i)) a s) (itrunc_indirect i bp js)
         else itrunc_indirect i bp js s)"

definition itrunc :: "nat \<Rightarrow> 'a fsst_scheme \<Rightarrow> 'a fsst_scheme res" where
  "itrunc i s =
     rbind (itrunc_direct i [0..<NDIRECT] s) (\<lambda>s.
     rbind (if iaddrs (ino s i) ! NDIRECT \<noteq> 0
            then rbind (bread (idev (ino s i)) (iaddrs (ino s i) ! NDIRECT) s) (\<lambda>(bp, s).
                 rbind (itrunc_indirect i bp [0..<NINDIRECT] s) (\<lambda>s.
                 rbind (brelse bp s) (\<lambda>s.
                 rbind (bfree (idev (ino s i)) (iaddrs (ino s i) ! NDIRECT) s) (\<lambda>s.
                 Ok (upd_ino i (\<lambda>ip. ip\<lparr>iaddrs := (iaddrs ip)[NDIRECT := 0]\<rparr>) s)))))
            else Ok s) (\<lambda>s.
     iupdate i (upd_ino i (\<lambda>ip. ip\<lparr>isize := 0\<rparr>) s)))"

definition iput :: "nat \<Rightarrow> 'a fsst_scheme \<Rightarrow> 'a fsst_scheme res" where
  "iput i s =
     rbind (acquire L_itable s) (\<lambda>s.
     rbind (if iref (ino s i) = 1 \<and> ivalid (ino s i) \<and> inlink (ino s i) = 0
            then rbind (acquiresleep (Slk_inode i) s) (\<lambda>s.
                 rbind (release L_itable s) (\<lambda>s.
                 rbind (itrunc i s) (\<lambda>s.
                 rbind (iupdate i (upd_ino i (\<lambda>ip. ip\<lparr>itype := 0\<rparr>) s)) (\<lambda>s.
                 rbind (releasesleep (Slk_inode i) (upd_ino i (\<lambda>ip. ip\<lparr>ivalid := False\<rparr>) s)) (\<lambda>s.
                 acquire L_itable s)))))
            else Ok s) (\<lambda>s.
     release L_itable (upd_ino i (\<lambda>ip. ip\<lparr>iref := iref ip - 1\<rparr>) s)))"

definition iunlockput :: "nat \<Rightarrow> 'a fsst_scheme \<Rightarrow> 'a fsst_scheme res" where
  "iunlockput i s = rbind (iunlock i s) (iput i)"

section \<open>Contents\<close>

definition bmap :: "nat \<Rightarrow> nat \<Rightarrow> 'a fsst_scheme \<Rightarrow> (u32 \<times> 'a fsst_scheme) res" where
  "bmap i bn s =
     (if bn < NDIRECT
      then if iaddrs (ino s i) ! bn = 0
           then rbind (balloc (idev (ino s i)) s) (\<lambda>(addr, s).
                if addr = 0 then Ok (0, s)
                else Ok (addr, upd_ino i (\<lambda>ip. ip\<lparr>iaddrs := (iaddrs ip)[bn := addr]\<rparr>) s))
           else Ok (iaddrs (ino s i) ! bn, s)
      else let bn = bn - NDIRECT in
      if bn < NINDIRECT
      then rbind (if iaddrs (ino s i) ! NDIRECT = 0
                  then rbind (balloc (idev (ino s i)) s) (\<lambda>(addr, s).
                       if addr = 0 then Ok (0, s)
                       else Ok (addr, upd_ino i (\<lambda>ip. ip\<lparr>iaddrs := (iaddrs ip)[NDIRECT := addr]\<rparr>) s))
                  else Ok (iaddrs (ino s i) ! NDIRECT, s)) (\<lambda>(ind, s).
           if ind = 0 then Ok (0, s)
           else rbind (bread (idev (ino s i)) ind s) (\<lambda>(bp, s).
                rbind (if u32_at (4 * bn) (bdata (bf s bp)) = 0
                       then rbind (balloc (idev (ino s i)) s) (\<lambda>(addr, s).
                            if addr \<noteq> 0
                            then rbind (log_write bp (set_data bp (set_u32 (4 * bn) addr (bdata (bf s bp))) s))
                                   (\<lambda>s. Ok (addr, s))
                            else Ok (0, s))
                       else Ok (u32_at (4 * bn) (bdata (bf s bp)), s)) (\<lambda>(addr, s).
                rbind (brelse bp s) (\<lambda>s. Ok (addr, s)))))
      else Panic ''bmap: out of range'')"

text \<open>The fields \<^verbatim>\<open>stati\<close> copies, as the 24 bytes of a \<^verbatim>\<open>struct stat\<close>.\<close>

definition stati :: "inode \<Rightarrow> bytes \<Rightarrow> bytes" where
  "stati ip pad = bytes_of 4 (idev ip) @ bytes_of 4 (inum ip) @ bytes_of 2 (itype ip) @
     bytes_of 2 (inlink ip) @ pad @ bytes_of 8 (ucast (isize ip) :: u64)"

datatype place = UserAt u64 | KernAt u64 | Local bytes

definition copy_to :: "place \<Rightarrow> bytes \<Rightarrow> 'a pst_scheme \<Rightarrow> (int \<times> 'a pst_scheme) res" where
  "copy_to p bs s = (case p of UserAt a \<Rightarrow> either_copyout True a bs s
     | KernAt a \<Rightarrow> either_copyout False a bs s | Local _ \<Rightarrow> Ok (0, s))"

definition copy_from :: "place \<Rightarrow> nat \<Rightarrow> 'a pst_scheme \<Rightarrow> (int \<times> bytes) res" where
  "copy_from p n s = (case p of UserAt a \<Rightarrow> either_copyin True a n s
     | KernAt a \<Rightarrow> either_copyin False a n s | Local bs \<Rightarrow> Ok (0, take n bs))"

definition place_add :: "place \<Rightarrow> nat \<Rightarrow> place" where
  "place_add p m = (case p of UserAt a \<Rightarrow> UserAt (a + of_nat m) | KernAt a \<Rightarrow> KernAt (a + of_nat m)
     | Local bs \<Rightarrow> Local (drop m bs))"

text \<open>\<open>rest\<close> is \<^verbatim>\<open>n - tot\<close>; the offsets stay below \<open>2 ^ 32\<close> by the check at the start, so
  they are natural numbers. The result of a read is the return value and the bytes
  copied, in order.\<close>

function readi_loop ::
  "nat \<Rightarrow> place \<Rightarrow> nat \<Rightarrow> nat \<Rightarrow> bytes \<Rightarrow> 'a fsst_scheme \<Rightarrow> (int \<times> bytes \<times> 'a fsst_scheme) res" where
  "readi_loop i dst off rest acc s =
     (if rest = 0 then Ok (int (length acc), acc, s)
      else rbind (bmap i (off div BSIZE) s) (\<lambda>(addr, s).
        if addr = 0 then Ok (int (length acc), acc, s)
        else rbind (bread (idev (ino s i)) addr s) (\<lambda>(bp, s).
          let m = min rest (BSIZE - off mod BSIZE); bs = bslice (off mod BSIZE) m (bdata (bf s bp))
          in rbind (copy_to dst bs s) (\<lambda>(r, s).
               if r = -1 then rbind (brelse bp s) (\<lambda>s. Ok (-1, acc, s))
               else rbind (brelse bp s) (\<lambda>s.
                      readi_loop i (place_add dst m) (off + m) (rest - m) (acc @ bs) s)))))"
  by pat_completeness auto
termination
  by (relation "measure (\<lambda>(i, dst, off, rest, acc, s). rest)") (auto simp: BSIZE_def)

declare readi_loop.simps [simp del]

definition readi :: "nat \<Rightarrow> place \<Rightarrow> u32 \<Rightarrow> u32 \<Rightarrow> 'a fsst_scheme \<Rightarrow> (int \<times> bytes \<times> 'a fsst_scheme) res" where
  "readi i dst off n s =
     (if off > isize (ino s i) \<or> off + n < off then Ok (0, [], s)
      else let n = (if off + n > isize (ino s i) then isize (ino s i) - off else n)
           in readi_loop i dst (unat off) (unat n) [] s)"

text \<open>A failing \<^verbatim>\<open>either_copyin\<close> may already have changed a prefix of the buffer. The
  result of the loop is \<^verbatim>\<open>tot\<close> and \<^verbatim>\<open>off\<close> at its end.\<close>

function writei_loop ::
  "nat \<Rightarrow> place \<Rightarrow> nat \<Rightarrow> nat \<Rightarrow> nat \<Rightarrow> 'a fsst_scheme \<Rightarrow> (nat \<times> nat \<times> 'a fsst_scheme) res" where
  "writei_loop i src off rest tot s =
     (if rest = 0 then Ok (tot, off, s)
      else rbind (bmap i (off div BSIZE) s) (\<lambda>(addr, s).
        if addr = 0 then Ok (tot, off, s)
        else rbind (bread (idev (ino s i)) addr s) (\<lambda>(bp, s).
          let m = min rest (BSIZE - off mod BSIZE)
          in rbind (copy_from src m s) (\<lambda>(r, bs).
             let s = set_data bp (splice (off mod BSIZE) bs (bdata (bf s bp))) s
             in if r = -1 then rbind (brelse bp s) (\<lambda>s. Ok (tot, off, s))
                else rbind (log_write bp s) (\<lambda>s.
                     rbind (brelse bp s) (\<lambda>s.
                       writei_loop i (place_add src m) (off + m) (rest - m) (tot + m) s))))))"
  by pat_completeness auto
termination
  by (relation "measure (\<lambda>(i, src, off, rest, tot, s). rest)") (auto simp: BSIZE_def)

declare writei_loop.simps [simp del]

definition writei :: "nat \<Rightarrow> place \<Rightarrow> u32 \<Rightarrow> u32 \<Rightarrow> 'a fsst_scheme \<Rightarrow> (int \<times> 'a fsst_scheme) res" where
  "writei i src off n s =
     (if off > isize (ino s i) \<or> off + n < off then Ok (-1, s)
      else if unat (off + n) > MAXFILE * BSIZE then Ok (-1, s)
      else rbind (writei_loop i src (unat off) (unat n) 0 s) (\<lambda>(tot, off, s).
           let s = (if off > unat (isize (ino s i)) then upd_ino i (\<lambda>ip. ip\<lparr>isize := of_nat off\<rparr>) s else s)
           in rbind (iupdate i s) (\<lambda>s. Ok (int tot, s))))"


section \<open>Directories\<close>

text \<open>A \<^verbatim>\<open>struct dirent\<close> is 16 bytes: the inode number and the name.\<close>

definition de_inum :: "bytes \<Rightarrow> u16" where
  "de_inum de = u16_at 0 de"

definition de_name :: "bytes \<Rightarrow> bytes" where
  "de_name de = bslice 2 DIRSIZ de"

definition namecmp :: "bytes \<Rightarrow> bytes \<Rightarrow> int" where
  "namecmp a b = strncmp a b DIRSIZ"

text \<open>The offsets a directory scan visits: the multiples of 16 below the size.\<close>

definition dir_offs :: "u32 \<Rightarrow> nat list" where
  "dir_offs n = map (\<lambda>k. k * 16) [0..<(unat n + 15) div 16]"

fun dirlookup_loop ::
  "nat \<Rightarrow> bytes \<Rightarrow> nat list \<Rightarrow> 'a fsst_scheme \<Rightarrow> ((nat \<times> u32) option \<times> 'a fsst_scheme) res" where
  "dirlookup_loop dp name [] s = Ok (None, s)"
| "dirlookup_loop dp name (off # offs) s =
     rbind (readi dp (Local []) (of_nat off) 16 s) (\<lambda>(r, de, s).
       if r \<noteq> 16 then Panic ''dirlookup read''
       else if de_inum de \<noteq> 0 \<and> namecmp name (de_name de) = 0
       then rbind (iget (idev (ino s dp)) (ucast (de_inum de)) s) (\<lambda>(i, s). Ok (Some (i, of_nat off), s))
       else dirlookup_loop dp name offs s)"

definition dirlookup ::
  "nat \<Rightarrow> bytes \<Rightarrow> 'a fsst_scheme \<Rightarrow> ((nat \<times> u32) option \<times> 'a fsst_scheme) res" where
  "dirlookup dp name s =
     (if itype (ino s dp) \<noteq> T_DIR then Panic ''dirlookup not DIR''
      else dirlookup_loop dp name (dir_offs (isize (ino s dp))) s)"

text \<open>The scan of \<^verbatim>\<open>dirlink\<close> for an unused entry: the first one, or the end.\<close>

fun dirlink_loop :: "nat \<Rightarrow> nat list \<Rightarrow> 'a fsst_scheme \<Rightarrow> (nat option \<times> 'a fsst_scheme) res" where
  "dirlink_loop dp [] s = Ok (None, s)"
| "dirlink_loop dp (off # offs) s =
     rbind (readi dp (Local []) (of_nat off) 16 s) (\<lambda>(r, de, s).
       if r \<noteq> 16 then Panic ''dirlink read''
       else if de_inum de = 0 then Ok (Some off, s) else dirlink_loop dp offs s)"

definition dirlink :: "nat \<Rightarrow> bytes \<Rightarrow> u32 \<Rightarrow> 'a fsst_scheme \<Rightarrow> (int \<times> 'a fsst_scheme) res" where
  "dirlink dp name n s =
     rbind (dirlookup dp name s) (\<lambda>(r, s).
     case r of
       Some (ip, _) \<Rightarrow> rbind (iput ip s) (\<lambda>s. Ok (-1, s))
     | None \<Rightarrow>
         rbind (dirlink_loop dp (dir_offs (isize (ino s dp))) s) (\<lambda>(r, s).
         let off = (case r of Some off \<Rightarrow> off
                    | None \<Rightarrow> 16 * length (dir_offs (isize (ino s dp))));
             de = bytes_of 2 (ucast n :: u16) @ strncpy name DIRSIZ
         in rbind (writei dp (Local de) (of_nat off) 16 s) (\<lambda>(r, s).
              if r \<noteq> 16 then Ok (-1, s) else Ok (0, s))))"

section \<open>Paths\<close>

definition slash :: u8 where
  "slash = 47"

text \<open>A path is the bytes of a string, without the final NUL. The result is the rest of
  the path and the element, cut to \<^verbatim>\<open>DIRSIZ\<close> bytes.\<close>

definition skip_slashes :: "bytes \<Rightarrow> bytes" where
  "skip_slashes path = dropWhile (\<lambda>c. c = slash) path"

definition skipelem :: "bytes \<Rightarrow> (bytes \<times> bytes) option" where
  "skipelem path =
     (let path = skip_slashes path
      in if path = [] then None
         else let elem = takeWhile (\<lambda>c. c \<noteq> slash) path; rest = dropWhile (\<lambda>c. c \<noteq> slash) path
              in Some (skip_slashes rest, take DIRSIZ elem))"

lemma skipelem_shorter: "skipelem path = Some (rest, name) \<Longrightarrow> length rest < length path"
proof -
  assume s: "skipelem path = Some (rest, name)"
  let ?p = "skip_slashes path" and ?q = "dropWhile (\<lambda>c. c \<noteq> slash) (skip_slashes path)"
  have r: "rest = skip_slashes ?q" and ne: "?p \<noteq> []"
    using s by (auto simp: skipelem_def Let_def split: if_splits)
  have "hd ?p \<noteq> slash" using ne hd_dropWhile [of "\<lambda>c. c = slash" path] by (simp add: skip_slashes_def)
  then have "?q = dropWhile (\<lambda>c. c \<noteq> slash) (tl ?p)" using ne by (cases ?p) auto
  then have "length ?q < length ?p"
    using ne length_dropWhile_le [of "\<lambda>c. c \<noteq> slash" "tl ?p"] by (cases ?p) auto
  moreover have "length rest \<le> length ?q" "length ?p \<le> length path"
    by (simp_all add: r skip_slashes_def length_dropWhile_le)
  ultimately show ?thesis by simp
qed

text \<open>The loop of \<^verbatim>\<open>namex\<close>; the result is the inode, or null, and the last element taken.\<close>

function namex_loop ::
  "bytes \<Rightarrow> bool \<Rightarrow> bytes \<Rightarrow> nat \<Rightarrow> 'a fsst_scheme \<Rightarrow> (nat option \<times> bytes \<times> 'a fsst_scheme) res" where
  "namex_loop path par name ip s =
     (case skipelem path of
        None \<Rightarrow> if par then rbind (iput ip s) (\<lambda>s. Ok (None, name, s)) else Ok (Some ip, name, s)
      | Some (rest, name) \<Rightarrow>
          rbind (ilock ip s) (\<lambda>s.
          if itype (ino s ip) \<noteq> T_DIR then rbind (iunlockput ip s) (\<lambda>s. Ok (None, name, s))
          else if par \<and> rest = [] then rbind (iunlock ip s) (\<lambda>s. Ok (Some ip, name, s))
          else rbind (dirlookup ip name s) (\<lambda>(r, s).
            case r of
              None \<Rightarrow> rbind (iunlockput ip s) (\<lambda>s. Ok (None, name, s))
            | Some (nxt, _) \<Rightarrow> rbind (iunlockput ip s) (\<lambda>s. namex_loop rest par name nxt s))))"
  by pat_completeness auto
termination
  by (relation "measure (\<lambda>(path, par, name, ip, s). length path)") (auto dest: skipelem_shorter)

declare namex_loop.simps [simp del]

definition namex :: "bytes \<Rightarrow> bool \<Rightarrow> 'a fsst_scheme \<Rightarrow> (nat option \<times> bytes \<times> 'a fsst_scheme) res" where
  "namex path par s =
     rbind (if ch path = slash then iget ROOTDEV ROOTINO s
            else with_proc s (\<lambda>p. case cwd (pr s p) of None \<Rightarrow> Panic ''kerneltrap'' | Some d \<Rightarrow> idup d s))
       (\<lambda>(ip, s). namex_loop path par [] ip s)"

definition namei :: "bytes \<Rightarrow> 'a fsst_scheme \<Rightarrow> (nat option \<times> 'a fsst_scheme) res" where
  "namei path s = rbind (namex path False s) (\<lambda>(r, name, s). Ok (r, s))"

definition nameiparent :: "bytes \<Rightarrow> 'a fsst_scheme \<Rightarrow> (nat option \<times> bytes \<times> 'a fsst_scheme) res" where
  "nameiparent path s = namex path True s"

end
