(* ===== verification/Log_Reserve.thy ===== *)
theory Log_Reserve
  imports Log_Ops Fs
begin

text \<open>
  The reservation of log space: \<^verbatim>\<open>begin_op\<close> lets an operation in only if \<^verbatim>\<open>MAXOPBLOCKS\<close> blocks for
  every operation under way fit the log, so that \<^verbatim>\<open>log_write\<close> need not find it full. Runs of
  \<^verbatim>\<open>begin_op\<close>, \<^verbatim>\<open>log_write\<close> and \<^verbatim>\<open>end_op\<close> in any interleaving are steps of a machine; the reservation is
  an invariant of it. It is enough for a log of more than \<^verbatim>\<open>LOGSIZE\<close> blocks, and one block too small
  for the log that \<^verbatim>\<open>mkfs\<close> makes.
\<close>

section \<open>What leaves the log alone\<close>

named_theorems logf

lemma lg_fields [simp]:
  "lg (set_slk k l n s) = lg s" "lg (upd_buf b f s) = lg s" "lg (set_data b ds s) = lg s" "lg (disk_rw b w s) = lg s"
  "lg (ring_push b s) = lg s" "lg (ring_unlink b s) = lg s" "lg (upd_proc i h s) = lg s"
  by (simp_all add: set_slk_def upd_buf_def set_data_def disk_rw_def ring_push_def ring_unlink_def upd_proc_def Let_def)

lemma sleep_lg [simp]: "ensures (sleep c l s) Q"
  by (auto simp: sleep_def ensures_def res_simps)

lemmas pure_lg [logf] = ensures_any [of _ "bget_cached k d b i s"] ensures_any [of _ "bget_unused k i s"] for k d b i s

lemma acquire_lg [logf]: "(\<And>t. lg t = lg s \<Longrightarrow> Q t) \<Longrightarrow> ensures (acquire l s) Q"
  by (auto simp: acquire_def Let_def split: option.splits prod.splits intro!: logf)

lemma release_lg [logf]: "(\<And>t. lg t = lg s \<Longrightarrow> Q t) \<Longrightarrow> ensures (release l s) Q"
  by (auto simp: release_def Let_def split: option.splits prod.splits intro!: logf)

lemma wakeup_loop_lg [logf]: "(\<And>t. lg t = lg s \<Longrightarrow> Q t) \<Longrightarrow> ensures (wakeup_loop c is s) Q"
  by (induction "is" arbitrary: s) (auto simp: Let_def split: option.splits prod.splits intro!: logf)

lemma wakeup_lg [logf]: "(\<And>t. lg t = lg s \<Longrightarrow> Q t) \<Longrightarrow> ensures (wakeup c s) Q"
  by (auto simp: wakeup_def Let_def split: option.splits prod.splits intro!: logf)

lemma with_proc_lg [logf]: "(\<And>p. ensures (f p) Q) \<Longrightarrow> ensures (with_proc s f) Q"
  by (simp add: with_proc_def split: option.split)

lemma acquiresleep_lg [logf]: "(\<And>t. lg t = lg s \<Longrightarrow> Q t) \<Longrightarrow> ensures (acquiresleep k s) Q"
  by (auto simp: acquiresleep_def Let_def split: option.splits prod.splits intro!: logf)

lemma releasesleep_lg [logf]: "(\<And>t. lg t = lg s \<Longrightarrow> Q t) \<Longrightarrow> ensures (releasesleep k s) Q"
  by (auto simp: releasesleep_def Let_def split: option.splits prod.splits intro!: logf)

lemma holdingsleep_lg [logf]: "(\<And>r t. lg t = lg s \<Longrightarrow> Q (r, t)) \<Longrightarrow> ensures (holdingsleep k s) Q"
  by (auto simp: holdingsleep_def Let_def split: option.splits prod.splits intro!: logf)

lemma bget_lg [logf]: "(\<And>r t. lg t = lg s \<Longrightarrow> Q (r, t)) \<Longrightarrow> ensures (bget d n s) Q"
  by (auto simp: bget_def Let_def split: option.splits prod.splits intro!: logf)

lemma bread_lg [logf]: "(\<And>r t. lg t = lg s \<Longrightarrow> Q (r, t)) \<Longrightarrow> ensures (bread d n s) Q"
  by (auto simp: bread_def Let_def split: option.splits prod.splits intro!: logf)

lemma bwrite_lg [logf]: "(\<And>t. lg t = lg s \<Longrightarrow> Q t) \<Longrightarrow> ensures (bwrite b s) Q"
  by (auto simp: bwrite_def Let_def split: option.splits prod.splits intro!: logf)

lemma brelse_lg [logf]: "(\<And>t. lg t = lg s \<Longrightarrow> Q t) \<Longrightarrow> ensures (brelse b s) Q"
  by (auto simp: brelse_def Let_def split: option.splits prod.splits intro!: logf)

lemma bpin_lg [logf]: "(\<And>t. lg t = lg s \<Longrightarrow> Q t) \<Longrightarrow> ensures (bpin b s) Q"
  by (auto simp: bpin_def Let_def split: option.splits prod.splits intro!: logf)

lemma bunpin_lg [logf]: "(\<And>t. lg t = lg s \<Longrightarrow> Q t) \<Longrightarrow> ensures (bunpin b s) Q"
  by (auto simp: bunpin_def Let_def split: option.splits prod.splits intro!: logf)

lemma install_step_lg [logf]: "(\<And>t. lg t = lg s \<Longrightarrow> Q t) \<Longrightarrow> ensures (install_step rc i s) Q"
  by (auto simp: install_step_def Let_def split: option.splits prod.splits intro!: logf)

lemma install_loop_lg [logf]: "(\<And>t. lg t = lg s \<Longrightarrow> Q t) \<Longrightarrow> ensures (install_loop rc is s) Q"
  by (induction "is" arbitrary: s) (auto simp: Let_def split: option.splits prod.splits intro!: logf)

lemma install_trans_lg [logf]: "(\<And>t. lg t = lg s \<Longrightarrow> Q t) \<Longrightarrow> ensures (install_trans rc s) Q"
  by (auto simp: install_trans_def Let_def split: option.splits prod.splits intro!: logf)

lemma write_head_lg [logf]: "(\<And>t. lg t = lg s \<Longrightarrow> Q t) \<Longrightarrow> ensures (write_head s) Q"
  by (auto simp: write_head_def Let_def split: option.splits prod.splits intro!: logf)

lemma write_log_step_lg [logf]: "(\<And>t. lg t = lg s \<Longrightarrow> Q t) \<Longrightarrow> ensures (write_log_step i s) Q"
  by (auto simp: write_log_step_def Let_def split: option.splits prod.splits intro!: logf)

lemma write_log_loop_lg [logf]: "(\<And>t. lg t = lg s \<Longrightarrow> Q t) \<Longrightarrow> ensures (write_log_loop is s) Q"
  by (induction "is" arbitrary: s) (auto simp: Let_def split: option.splits prod.splits intro!: logf)

lemma write_log_lg [logf]: "(\<And>t. lg t = lg s \<Longrightarrow> Q t) \<Longrightarrow> ensures (write_log s) Q"
  by (auto simp: write_log_def Let_def split: option.splits prod.splits intro!: logf)

lemma commit_lg:
  "(\<And>t. lg t = (if lh_n (lg s) > 0 then (lg s)\<lparr>lh_n := 0\<rparr> else lg s) \<Longrightarrow> Q t) \<Longrightarrow> ensures (commit s) Q"
  by (auto simp: commit_def upd_log_def intro!: logf)


section \<open>Operations under way\<close>

text \<open>The states that operations can reach from \<open>s0\<close>. The list has an entry for every operation
  under way: how many more times it may call \<^verbatim>\<open>log_write\<close>. \<open>other\<close> is what happens between calls on
  the log: reads and releases of buffers, changes of their contents, other processes.\<close>

inductive log_run :: "'a lst_scheme \<Rightarrow> 'a lst_scheme \<Rightarrow> int list \<Rightarrow> bool" for s0 where
  start: "log_run s0 s0 []"
| begins: "log_run s0 s us \<Longrightarrow> begin_op s = Ok t \<Longrightarrow> log_run s0 t (MAXOPBLOCKS # us)"
| logs: "log_run s0 s us \<Longrightarrow> i < length us \<Longrightarrow> 0 < us ! i \<Longrightarrow> log_write b s = Ok t \<Longrightarrow> log_run s0 t (us[i := us ! i - 1])"
| ends: "log_run s0 s us \<Longrightarrow> i < length us \<Longrightarrow> end_op s = Ok t \<Longrightarrow> log_run s0 t (take i us @ drop (Suc i) us)"
| other: "log_run s0 s us \<Longrightarrow> lg t = lg s \<Longrightarrow> log_run s0 t us"

definition reserved :: "log \<Rightarrow> int list \<Rightarrow> bool" where
  "reserved l us \<longleftrightarrow> outstanding l = int (length us) \<and> \<not> committing l \<and> 0 \<le> lh_n l \<and>
     lh_n l + sum_list us \<le> int LOGSIZE \<and> (\<forall>u\<in>set us. 0 \<le> u \<and> u \<le> MAXOPBLOCKS)"

lemma begin_op_lg:
  assumes "begin_op s = Ok t"
  shows "\<not> committing (lg s)" "lh_n (lg s) + (outstanding (lg s) + 1) * MAXOPBLOCKS \<le> int LOGSIZE"
    "lg t = (lg s)\<lparr>outstanding := outstanding (lg s) + 1\<rparr>"
  using assms by (auto simp: begin_op_def sleep_def res_simps acquire_def release_def upd_log_def split: if_splits)

lemma log_write_lg:
  assumes "log_write b s = Ok t"
  shows "outstanding (lg t) = outstanding (lg s)" "committing (lg t) = committing (lg s)" "lsize (lg t) = lsize (lg s)"
    "lh_n (lg t) = lh_n (lg s) \<or> lh_n (lg t) = lh_n (lg s) + 1"
proof -
  have "ensures (log_write b s) (\<lambda>t. outstanding (lg t) = outstanding (lg s) \<and> committing (lg t) = committing (lg s) \<and>
      lsize (lg t) = lsize (lg s) \<and> (lh_n (lg t) = lh_n (lg s) \<or> lh_n (lg t) = lh_n (lg s) + 1))"
    unfolding log_write_def by (auto simp: Let_def upd_log_def intro!: logf)
  from ensures_D [OF this assms] show "outstanding (lg t) = outstanding (lg s)" "committing (lg t) = committing (lg s)"
    "lsize (lg t) = lsize (lg s)" "lh_n (lg t) = lh_n (lg s) \<or> lh_n (lg t) = lh_n (lg s) + 1" by auto
qed

lemma end_op_lg:
  assumes "end_op s = Ok t" "0 \<le> lh_n (lg s)"
  shows "lg t = (if outstanding (lg s) = 1 then (lg s)\<lparr>outstanding := 0, committing := False, lh_n := 0\<rparr>
    else (lg s)\<lparr>outstanding := outstanding (lg s) - 1\<rparr>)"
proof -
  have "ensures (end_op s) (\<lambda>t. lg t = (if outstanding (lg s) = 1 then (lg s)\<lparr>outstanding := 0, committing := False, lh_n := 0\<rparr>
    else (lg s)\<lparr>outstanding := outstanding (lg s) - 1\<rparr>))"
    unfolding end_op_def using assms(2) by (auto simp: Let_def upd_log_def intro!: logf commit_lg)
  from ensures_D [OF this assms(1)] show ?thesis .
qed


lemma sum_le_length: "\<forall>u\<in>set us. u \<le> M \<Longrightarrow> sum_list us \<le> int (length us) * M"
  by (induction us) (auto simp: algebra_simps)

lemma sum_split:
  fixes us :: "int list"
  assumes "i < length us"
  shows "sum_list us = sum_list (take i us) + us ! i + sum_list (drop (Suc i) us)"
    "sum_list (us[i := x]) = sum_list (take i us) + x + sum_list (drop (Suc i) us)"
proof -
  have us: "us = take i us @ us ! i # drop (Suc i) us" using assms by (rule id_take_nth_drop)
  show "sum_list us = sum_list (take i us) + us ! i + sum_list (drop (Suc i) us)" by (subst us) simp
  show "sum_list (us[i := x]) = sum_list (take i us) + x + sum_list (drop (Suc i) us)"
    using assms by (simp add: upd_conv_take_nth_drop)
qed

lemma sum_parts:
  fixes us :: "int list"
  assumes "\<forall>u\<in>set us. 0 \<le> u"
  shows "0 \<le> sum_list (take i us)" "0 \<le> sum_list (drop i us)"
  using assms by (auto intro!: sum_list_nonneg dest: in_set_takeD in_set_dropD)

lemma reserved_begin:
  assumes "reserved (lg s) us" "begin_op s = Ok t"
  shows "reserved (lg t) (MAXOPBLOCKS # us)"
proof -
  have "sum_list us \<le> int (length us) * MAXOPBLOCKS" using assms(1) by (intro sum_le_length) (auto simp: reserved_def)
  then show ?thesis using assms(1) begin_op_lg [OF assms(2)] by (auto simp: reserved_def algebra_simps MAXOPBLOCKS_def)
qed

lemma reserved_log:
  assumes "reserved (lg s) us" "i < length us" "0 < us ! i" "log_write b s = Ok t"
  shows "reserved (lg t) (us[i := us ! i - 1])"
proof -
  have "sum_list (us[i := us ! i - 1]) = sum_list us - 1" using sum_split [OF assms(2)] by simp
  moreover have "0 \<le> u \<and> u \<le> MAXOPBLOCKS" if "u \<in> set (us[i := us ! i - 1])" for u
  proof -
    have "u = us ! i - 1 \<or> u \<in> set us" using that set_update_subset_insert [of us i "us ! i - 1"] by blast
    moreover have "us ! i \<le> MAXOPBLOCKS" using assms(1,2) by (simp add: reserved_def)
    ultimately show ?thesis using assms(1,3) by (auto simp: reserved_def)
  qed
  ultimately show ?thesis using assms(1) log_write_lg [OF assms(4)] by (auto simp: reserved_def)
qed

lemma reserved_end:
  assumes "reserved (lg s) us" "i < length us" "end_op s = Ok t"
  shows "reserved (lg t) (take i us @ drop (Suc i) us)"
proof -
  let ?vs = "take i us @ drop (Suc i) us"
  have r: "outstanding (lg s) = int (length us)" "\<not> committing (lg s)" "0 \<le> lh_n (lg s)" "lh_n (lg s) + sum_list us \<le> int LOGSIZE"
    "\<forall>u\<in>set us. 0 \<le> u \<and> u \<le> MAXOPBLOCKS" using assms(1) by (simp_all add: reserved_def)
  have vs: "sum_list ?vs \<le> sum_list us" using sum_split(1) [OF assms(2)] r(5) nth_mem [OF assms(2)] by simp
  have in_vs: "\<forall>u\<in>set ?vs. 0 \<le> u \<and> u \<le> MAXOPBLOCKS" using r(5) by (auto dest: in_set_takeD in_set_dropD)
  note e = end_op_lg [OF assms(3) r(3)]
  show ?thesis
  proof (cases "length us = 1")
    case True
    then have v: "?vs = []" using assms(2) by simp
    show ?thesis unfolding v using e True r by (simp add: reserved_def)
  next
    case False
    then have "lg t = (lg s)\<lparr>outstanding := outstanding (lg s) - 1\<rparr>" using e r(1) by simp
    moreover have "int (length ?vs) = int (length us) - 1" using assms(2) by simp
    ultimately show ?thesis using r vs in_vs unfolding reserved_def by simp
  qed
qed

lemma log_run_reserved:
  assumes "log_run s0 s us" "reserved (lg s0) []"
  shows "reserved (lg s) us \<and> lsize (lg s) = lsize (lg s0)"
  using assms(1)
proof (induction rule: log_run.induct)
  case start
  then show ?case using assms(2) by simp
next
  case (begins s us t)
  then show ?case using reserved_begin [of s us t] begin_op_lg(3) [of s t] by auto
next
  case (logs s us i b t)
  then show ?case using reserved_log [of s us i b t] log_write_lg(3) [of b s t] by auto
next
  case (ends s us i t)
  then show ?case using reserved_end [of s us i t] end_op_lg [of s t] by (auto simp: reserved_def)
next
  case (other s us t)
  then show ?case by simp
qed

text \<open>C20. The reservation of \<^verbatim>\<open>begin_op\<close> is enough when the log has a block more than \<^verbatim>\<open>LOGSIZE\<close>: from an
  empty log, in any interleaving of operations, an operation that has called \<^verbatim>\<open>log_write\<close> fewer
  than \<^verbatim>\<open>MAXOPBLOCKS\<close> times can call it again; the call returns, for every buffer.\<close>

theorem reservation_enough:
  fixes s0 s :: "'a lst_scheme"
  assumes run: "log_run s0 s us" and s0: "lh_n (lg s0) = 0" "outstanding (lg s0) = 0" "\<not> committing (lg s0)"
    and big: "int LOGSIZE < lsize (lg s0)" and i: "i < length us" "0 < us ! i" and h: "held s = []"
  shows "returns (log_write b s) (\<lambda>t. log_run s0 t (us[i := us ! i - 1]))"
proof -
  have r: "reserved (lg s) us" "lsize (lg s) = lsize (lg s0)"
    using log_run_reserved [OF run] s0 by (auto simp: reserved_def)
  have "us ! i \<le> sum_list us"
    using r(1) sum_split(1) [OF i(1)] sum_parts [of us] by (simp add: reserved_def)
  then have "lh_n (lg s) < int LOGSIZE" "1 \<le> outstanding (lg s)" using r(1) i by (auto simp: reserved_def)
  then have "\<exists>t. log_write b s = Ok t"
    using r(2) big h by (simp add: log_write_def Let_def bpin_def upd_log_def upd_buf_def)
  then show ?thesis using log_run.logs [OF run i] by (auto simp: returns_def)
qed


section \<open>The log that mkfs makes\<close>

fun zero_blocks :: "u32 list \<Rightarrow> 'a fsst_scheme \<Rightarrow> 'a fsst_scheme res" where
  "zero_blocks [] s = Ok s"
| "zero_blocks (n # ns) s = rbind (bzero ROOTDEV n s) (zero_blocks ns)"

text \<open>A transaction of the blocks \<open>ns\<close>, each pinned once, with no buffer in use.\<close>

definition logging :: "u32 list \<Rightarrow> 'a fsst_scheme \<Rightarrow> bool" where
  "logging ns s \<longleftrightarrow> bio_ok s \<and> calm s \<and> txn_ok (lg s) \<and> txn (lg s) = ns \<and> blk_lock s = (\<lambda>_. None) \<and>
     blk_refs s = (\<lambda>b. if b \<in> set ns then 1 else 0) \<and> 1 \<le> outstanding (lg s)"

lemma bzero_got:
  fixes s :: "'a fsst_scheme"
  assumes "logging ns s" "n \<notin> set ns" "length ns < NBUF"
  obtains i u where "bread ROOTDEV n s = Ok (i, u)" "let v = set_data i (replicate BSIZE 0) u in
     got v n i \<and> bio_ok v \<and> calm v \<and> lg v = lg s \<and> blk_refs v = (blk_refs s)(n := 1) \<and> blk_lock v = (\<lambda>_. None)(n := Some (mypid s)) \<and>
     mypid v = mypid s"
proof -
  have s: "bio_ok s" "calm s" "blk_lock s n = None" "blk_refs s n = 0" using assms(1,2) by (auto simp: logging_def)
  have "card {m. 0 < blk_refs s m} = length ns"
  proof -
    have "{m. 0 < blk_refs s m} = set ns" using assms(1) by (auto simp: logging_def)
    moreover have "distinct ns" using assms(1) by (auto simp: logging_def txn_ok_def)
    ultimately show ?thesis by (simp add: distinct_card)
  qed
  then have "room n s" using assms(3) by (simp add: room_def)
  then have "returns (bread ROOTDEV n s) (\<lambda>(i, t). got t n i \<and> bop s (v_get n (mypid s)) t)"
    using s by (intro bread_gets) simp_all
  then obtain i u where u: "bread ROOTDEV n s = Ok (i, u)" "got u n i" "bop s (v_get n (mypid s)) u" by (auto elim: returnsE)
  note cu = bop_calm [OF u(3) s(2)] and vu = bop_sels [OF u(3)] and lu = brun_lg [OF bop_brun [OF u(3)]]
  let ?v = "set_data i (replicate BSIZE 0) u"
  have a: "bop u (v_set n (replicate BSIZE 0)) ?v" using cu u(2) by (intro set_data_sets) simp_all
  note ca = bop_calm [OF a] and va = bop_sels [OF a] and la = brun_lg [OF bop_brun [OF a]]
  have ga: "got ?v n i" using got_step [OF a _ _ u(2)] cu u(2) by (simp add: v_set_def got_def)
  show ?thesis
  proof (rule that [OF u(1)], unfold Let_def, intro conjI)
    show "got ?v n i" "bio_ok ?v" "calm ?v" "lg ?v = lg s" "mypid ?v = mypid s" using ga ca cu la lu by simp_all
    show "blk_refs ?v = (blk_refs s)(n := 1)" "blk_lock ?v = (\<lambda>_. None)(n := Some (mypid s))"
      using va vu s assms(1) by (simp_all add: v_set_def v_get_def logging_def)
  qed
qed


lemma bzero_full:
  fixes s :: "'a fsst_scheme"
  assumes "logging ns s" "n \<notin> set ns" "length ns < NBUF" "lsize (lg s) - 1 \<le> lh_n (lg s)"
  shows "bzero ROOTDEV n s = Panic ''too big a transaction''"
proof -
  obtain i u where u: "bread ROOTDEV n s = Ok (i, u)" "let v = set_data i (replicate BSIZE 0) u in
     got v n i \<and> bio_ok v \<and> calm v \<and> lg v = lg s \<and> blk_refs v = (blk_refs s)(n := 1) \<and> blk_lock v = (\<lambda>_. None)(n := Some (mypid s)) \<and>
     mypid v = mypid s" by (rule bzero_got [OF assms(1-3)])
  then show ?thesis using assms(4) by (simp add: bzero_def Let_def log_write_def calm_def)
qed

lemma bzero_logs:
  fixes s :: "'a fsst_scheme"
  assumes s: "logging ns s" and n: "n \<notin> set ns" "n \<notin> log_region (lg s)"
    and r: "lh_n (lg s) < int LOGSIZE" "lh_n (lg s) < lsize (lg s) - 1"
  shows "\<exists>t. bzero ROOTDEV n s = Ok t \<and> logging (ns @ [n]) t \<and> lsize (lg t) = lsize (lg s) \<and>
    log_region (lg t) = log_region (lg s) \<and> lh_n (lg t) = lh_n (lg s) + 1"
proof -
  have tx: "txn_ok (lg s)" "txn (lg s) = ns" "1 \<le> outstanding (lg s)" using s by (simp_all add: logging_def)
  have "length ns < NBUF" using txn_length [OF tx(1)] tx r by (simp add: LOGSIZE_def NBUF_def)
  then obtain i u where u: "bread ROOTDEV n s = Ok (i, u)" "let v = set_data i (replicate BSIZE 0) u in
     got v n i \<and> bio_ok v \<and> calm v \<and> lg v = lg s \<and> blk_refs v = (blk_refs s)(n := 1) \<and> blk_lock v = (\<lambda>_. None)(n := Some (mypid s)) \<and>
     mypid v = mypid s" by (rule bzero_got [OF s n(1)])
  let ?v = "set_data i (replicate BSIZE 0) u"
  have v: "got ?v n i" "bio_ok ?v" "calm ?v" "lg ?v = lg s" "blk_refs ?v = (blk_refs s)(n := 1)"
    "blk_lock ?v = (\<lambda>_. None)(n := Some (mypid s))" using u(2) by (simp_all add: Let_def)
  let ?l = "(lg s)\<lparr>lh_block := (lh_block (lg s))[nat (lh_n (lg s)) := n], lh_n := lh_n (lg s) + 1\<rparr>"
  obtain w where w: "log_write i ?v = Ok w" "bio_ok w" "calm w" "got w n i" "bview w = v_pin n (bview ?v)" "lg w = ?l"
    using log_write_new [OF v(2,3,1)] v(4,5) tx r n by auto
  have rw: "blk_refs w = (blk_refs s)(n := 2)" "blk_lock w = (\<lambda>_. None)(n := Some (mypid s))"
    using arg_cong [OF w(5), of vrefs] arg_cong [OF w(5), of vlock] v(5,6) by (simp_all add: v_pin_def numeral_2_eq_2)
  have "returns (brelse i w) (bop w (v_put n))" using w rw(1) by (intro brelse_puts) simp_all
  then obtain t where t: "brelse i w = Ok t" "bop w (v_put n) t" by (auto elim: returnsE)
  note vt = bop_sels [OF t(2)]
  have lt: "lg t = ?l" using brun_lg [OF bop_brun [OF t(2)]] w(6) by simp
  have add: "txn ?l = ns @ [n]" "txn_ok ?l" using txn_add [OF tx(1) n(2) _ r] n(1) tx(2) by simp_all
  have "blk_refs t = (\<lambda>b. if b \<in> set (ns @ [n]) then 1 else 0)" "blk_lock t = (\<lambda>_. None)"
    using vt rw s by (auto simp: v_put_def logging_def fun_eq_iff)
  then have "logging (ns @ [n]) t" unfolding logging_def lt using add tx(3) bop_calm [OF t(2) w(3)] by simp
  moreover have "bzero ROOTDEV n s = Ok t" using u(1) w(1) t(1) by (simp add: bzero_def)
  moreover have "log_region ?l = log_region (lg s)" by (simp add: log_region_def head_blk_def log_blk_def [abs_def])
  ultimately show ?thesis using lt by auto
qed

lemma zero_blocks_log:
  fixes s :: "'a fsst_scheme"
  assumes "logging ms s" "distinct ns" "set ns \<inter> (set ms \<union> log_region (lg s)) = {}"
    "lh_n (lg s) + int (length ns) \<le> int LOGSIZE"
  shows "if lh_n (lg s) + int (length ns) \<le> lsize (lg s) - 1 then returns (zero_blocks ns s) (\<lambda>t. txn (lg t) = ms @ ns)
    else zero_blocks ns s = Panic ''too big a transaction''"
  using assms
proof (induction ns arbitrary: ms s)
  case Nil
  then show ?case by (auto simp: logging_def txn_ok_def)
next
  case (Cons n ns)
  have len: "length ms < NBUF" using Cons.prems txn_length [of "lg s"] by (auto simp: logging_def LOGSIZE_def NBUF_def)
  show ?case
  proof (cases "lh_n (lg s) < lsize (lg s) - 1")
    case True
    obtain t where t: "bzero ROOTDEV n s = Ok t" "logging (ms @ [n]) t" "lsize (lg t) = lsize (lg s)"
      "log_region (lg t) = log_region (lg s)" "lh_n (lg t) = lh_n (lg s) + 1"
      using bzero_logs [OF Cons.prems(1) _ _ _ True, of n] Cons.prems(3,4) by auto
    have "set ns \<inter> (set (ms @ [n]) \<union> log_region (lg t)) = {}" using Cons.prems(2,3) t(4) by auto
    from Cons.IH [OF t(2) _ this] Cons.prems(2,4) t show ?thesis by (simp add: algebra_simps split: if_splits)
  next
    case False
    then show ?thesis using bzero_full [OF Cons.prems(1) _ len, of n] Cons.prems(3) by auto
  qed
qed


lemma three_ops:
  fixes s :: "'a fsst_scheme"
  assumes "calm s" "\<not> committing (lg s)" "lh_n (lg s) = 0" "outstanding (lg s) = 0"
  shows "rbind (begin_op s) (\<lambda>s. rbind (begin_op s) begin_op) = Ok (upd_log (\<lambda>l. l\<lparr>outstanding := 3\<rparr>) s)"
proof -
  have "s\<lparr>held := []\<rparr> = s" using assms(1) by (simp add: calm_def)
  then show ?thesis using assms by (simp add: begin_op_def calm_def upd_log_def LOGSIZE_def MAXOPBLOCKS_def)
qed

text \<open>C21. The reservation is one block too large for the log that \<^verbatim>\<open>mkfs\<close> makes, which has
  \<^verbatim>\<open>LOGSIZE\<close> blocks with its header. From an empty log and an idle cache \<^verbatim>\<open>begin_op\<close> admits three
  operations; when they zero thirty distinct blocks with \<^verbatim>\<open>bzero\<close>, ten calls of \<^verbatim>\<open>log_write\<close> for
  each operation, the kernel panics. In a log with one block more the same run logs all
  thirty blocks.\<close>

theorem reservation_too_large:
  fixes s :: "'a fsst_scheme"
  assumes s: "bio_ok s" "calm s" "txn_ok (lg s)" "blk_refs s = (\<lambda>_. 0)" "blk_lock s = (\<lambda>_. None)"
    "\<not> committing (lg s)" "lh_n (lg s) = 0" "outstanding (lg s) = 0"
    and ns: "distinct ns" "int (length ns) = 3 * MAXOPBLOCKS" "set ns \<inter> log_region (lg s) = {}"
  shows "if lsize (lg s) \<le> int LOGSIZE
    then rbind (rbind (begin_op s) (\<lambda>s. rbind (begin_op s) begin_op)) (zero_blocks ns) = Panic ''too big a transaction''
    else returns (rbind (rbind (begin_op s) (\<lambda>s. rbind (begin_op s) begin_op)) (zero_blocks ns)) (\<lambda>t. txn (lg t) = ns)"
proof -
  let ?g = "\<lambda>l. l\<lparr>outstanding := 3\<rparr>"
  let ?s = "upd_log ?g s"
  have "log_region (?g (lg s)) = log_region (lg s)" by (simp add: log_region_def head_blk_def log_blk_def [abs_def])
  then have "log_region (lg ?s) = log_region (lg s)" "txn_ok (lg ?s)"
    using s(3) by (simp_all add: txn_ok_def log_geom_def txn_def)
  moreover have "txn (lg ?s) = []" using s(7) by (simp add: txn_def)
  moreover have "bview ?s = bview s" by (rule bview_upd_log)
  then have "blk_refs ?s = (\<lambda>_. 0)" "blk_lock ?s = (\<lambda>_. None)" using s(4,5) by (metis bview_sels)+
  ultimately have "logging [] ?s" using s(1,2) by (simp add: logging_def calm_def)
  from zero_blocks_log [OF this ns(1)] show ?thesis
    using three_ops [OF s(2,6-8)] ns s(7) \<open>log_region (lg ?s) = log_region (lg s)\<close>
    by (simp add: LOGSIZE_def MAXOPBLOCKS_def split: if_splits)
qed


section \<open>A concrete system\<close>

text \<open>An empty log of the given size on a disk of zeros.\<close>

definition demo_size :: "int \<Rightarrow> log" where
  "demo_size n = demo_log\<lparr>outstanding := 0, lsize := n\<rparr>"

definition demo_fs :: "log \<Rightarrow> fsst" where
  "demo_fs l = demo_bst zero_disk (lst_ext l (fsst_ext demo_sb [] ()))"

lemma demo_fs_lg [simp]: "lg (demo_fs l) = l"
proof -
  let ?x = "lst_ext l (fsst_ext demo_sb [] ())"
  obtain bs sl where "demo_bst zero_disk ?x = (boot_bst zero_disk ?x)\<lparr>slks := sl, bufs := bs\<rparr>"
    using binit_cache(5) [OF boot_bst_fresh [OF zero_disk_length, where x = ?x]] unfolding demo_bst_def by blast
  then show ?thesis by (simp add: demo_fs_def boot_bst_def)
qed

lemmas demo_fs_view = demo_zero [where x = "lst_ext l (fsst_ext demo_sb [] ())" for l, folded demo_fs_def]

lemma demo_size_log:
  assumes "1 \<le> n" "n \<le> 40"
  shows "txn_ok (demo_size n)" "w \<in> log_region (demo_size n) \<Longrightarrow> uint w < 50"
proof -
  show "txn_ok (demo_size n)"
    using assms by (simp add: txn_ok_def log_geom_def demo_size_def demo_log_def txn_def LOGSIZE_def)
  have blk: "uint (word_of_int (2 + int t + 1) :: u32) < 50" if "int t < n - 1" for t
    using that assms by (subst uint_word_of_int) simp
  assume "w \<in> log_region (demo_size n)"
  then consider "w = word_of_int 2" | t where "int t < n - 1" "w = word_of_int (2 + int t + 1)"
    by (auto simp only: log_region_def demo_size_def demo_log_def head_blk_def log_blk_def log.simps)
  then show "uint w < 50" using blk by cases auto
qed

definition demo_blocks :: "u32 list" where
  "demo_blocks = map word_of_int [100..129]"

lemma demo_blocks: "distinct demo_blocks" "length demo_blocks = 30"
  "1 \<le> n \<Longrightarrow> n \<le> 40 \<Longrightarrow> set demo_blocks \<inter> log_region (demo_size n) = {}"
proof -
  have "inj_on (word_of_int :: int \<Rightarrow> u32) {100..129}"
    by (rule inj_onI) (subst (asm) word_of_int_inj, auto)
  then show "distinct demo_blocks" "length demo_blocks = 30" by (simp_all add: demo_blocks_def distinct_map)
  have "100 \<le> uint w" if "w \<in> set demo_blocks" for w
    using that unfolding demo_blocks_def set_map set_upto by (auto simp: uint_word_of_int)
  then show "set demo_blocks \<inter> log_region (demo_size n) = {}" if "1 \<le> n" "n \<le> 40"
    using demo_size_log(2) [OF that] by force
qed

theorem reservation_too_large_witness:
  "rbind (rbind (begin_op (demo_fs (demo_size 30))) (\<lambda>s. rbind (begin_op s) begin_op)) (zero_blocks demo_blocks) =
     Panic ''too big a transaction'' \<and>
   returns (rbind (rbind (begin_op (demo_fs (demo_size 31))) (\<lambda>s. rbind (begin_op s) begin_op)) (zero_blocks demo_blocks))
     (\<lambda>t. txn (lg t) = demo_blocks)"
proof -
  have e: "\<not> committing (demo_size n)" "lh_n (demo_size n) = 0" "outstanding (demo_size n) = 0" "lsize (demo_size n) = n" for n
    by (simp_all add: demo_size_def demo_log_def)
  have pre: "bio_ok (demo_fs l)" "calm (demo_fs l)" "blk_refs (demo_fs l) = (\<lambda>_. 0)" "blk_lock (demo_fs l) = (\<lambda>_. None)" for l
    by (simp_all add: demo_fs_view)
  note r = reservation_too_large [OF pre(1,2) _ pre(3,4), where ns = demo_blocks]
  show ?thesis
    using r [of "demo_size 30"] r [of "demo_size 31"] demo_size_log(1) demo_blocks
    by (simp add: e LOGSIZE_def MAXOPBLOCKS_def)
qed

theorem reservation_enough_witness:
  "\<exists>t. begin_op (demo_fs (demo_size 31)) = Ok t \<and> returns (log_write 0 t) (\<lambda>u. log_run (demo_fs (demo_size 31)) u [9])"
proof -
  let ?s = "demo_fs (demo_size 31)"
  have e: "\<not> committing (demo_size 31)" "lh_n (demo_size 31) = 0" "outstanding (demo_size 31) = 0" "lsize (demo_size 31) = 31"
    by (simp_all add: demo_size_def demo_log_def)
  have "calm ?s" by (simp add: demo_fs_view)
  then have "held ?s = []" by (simp add: calm_def)
  then obtain t where t: "begin_op ?s = Ok t" "held t = []"
    using e by (simp add: begin_op_def upd_log_def LOGSIZE_def MAXOPBLOCKS_def)
  have "log_run ?s t [MAXOPBLOCKS]" using log_run.begins [OF log_run.start t(1)] .
  from reservation_enough [OF this, of 0 0] t e show ?thesis by (simp add: LOGSIZE_def MAXOPBLOCKS_def)
qed

end
