(* ===== verification/Uart.thy ===== *)
theory Uart
  imports Fs
begin

text \<open>
  The serial port driver (\<^verbatim>\<open>kernel/uart.c\<close>) and \<^verbatim>\<open>consputc\<close>. The 16550 device is part of
  the state: its registers, the bytes it has received and not delivered, the bytes it
  has sent, and for how many reads of its status register it stays busy after each
  byte (\<open>u_delay\<close>, a property of the hardware).
\<close>

definition UART_TX_BUF_SIZE :: nat where [xv6_consts]: "UART_TX_BUF_SIZE = 32"

record ust = fsst +
  uart_tx_buf :: "u8 list"
  uart_tx_w :: u64
  uart_tx_r :: u64
  u_regs :: "nat \<Rightarrow> u8"
  u_latch :: "nat \<Rightarrow> u8"
  u_rx :: "u8 list"
  u_tx :: "u8 list"
  u_busy :: nat
  u_delay :: "nat \<Rightarrow> nat"
  panicked :: bool

section \<open>The device\<close>

text \<open>Register numbers: 0 transmit or receive, 1 interrupt enable, 2 FIFO control, 3 line
  control, 5 line status. While bit 7 of line control is set, registers 0 and 1 are the
  baud-rate latch.\<close>

definition WriteReg :: "nat \<Rightarrow> u8 \<Rightarrow> 'a ust_scheme \<Rightarrow> 'a ust_scheme" where
  "WriteReg reg v s =
     (if reg \<le> 1 \<and> bit (u_regs s 3) 7 then s\<lparr>u_latch := (u_latch s)(reg := v)\<rparr>
      else if reg = 0 then s\<lparr>u_tx := u_tx s @ [v], u_busy := u_delay s (length (u_tx s))\<rparr>
      else s\<lparr>u_regs := (u_regs s)(reg := v)\<rparr>)"

text \<open>\<^verbatim>\<open>ReadReg(LSR) & LSR_TX_IDLE\<close>.\<close>

definition read_tx_idle :: "'a ust_scheme \<Rightarrow> bool \<times> 'a ust_scheme" where
  "read_tx_idle s = (u_busy s = 0, s\<lparr>u_busy := u_busy s - 1\<rparr>)"

section \<open>The driver\<close>

definition uartinit :: "'a ust_scheme \<Rightarrow> 'a ust_scheme" where
  "uartinit s =
     (let s = WriteReg 1 0 s;
          s = WriteReg 3 0x80 s;
          s = WriteReg 0 3 s;
          s = WriteReg 1 0 s;
          s = WriteReg 3 3 s;
          s = WriteReg 2 (1 OR 6) s
      in WriteReg 1 (2 OR 1) s)"

text \<open>The transmit buffer.\<close>

definition tx_full :: "'a ust_scheme \<Rightarrow> bool" where
  "tx_full s \<longleftrightarrow> uart_tx_w s = uart_tx_r s + of_nat UART_TX_BUF_SIZE"

definition tx_empty :: "'a ust_scheme \<Rightarrow> bool" where
  "tx_empty s \<longleftrightarrow> uart_tx_w s = uart_tx_r s"

definition tx_put :: "u8 \<Rightarrow> 'a ust_scheme \<Rightarrow> 'a ust_scheme" where
  "tx_put c s = s\<lparr>uart_tx_buf := (uart_tx_buf s)[unat (uart_tx_w s) mod UART_TX_BUF_SIZE := c],
     uart_tx_w := uart_tx_w s + 1\<rparr>"

definition tx_get :: "'a ust_scheme \<Rightarrow> u8 \<times> 'a ust_scheme" where
  "tx_get s = (uart_tx_buf s ! (unat (uart_tx_r s) mod UART_TX_BUF_SIZE), s\<lparr>uart_tx_r := uart_tx_r s + 1\<rparr>)"

text \<open>The loop of \<^verbatim>\<open>uartstart\<close> ends when the buffer is empty or the device busy; the bound is
  the number of buffered bytes.\<close>

fun uartstart_loop :: "nat \<Rightarrow> 'a ust_scheme \<Rightarrow> 'a ust_scheme res" where
  "uartstart_loop k s =
     (if tx_empty s then Ok s
      else let (idle, s) = read_tx_idle s
           in if \<not> idle then Ok s
              else case k of 0 \<Rightarrow> NoFuel
              | Suc k' \<Rightarrow>
                let (c, s) = tx_get s
                in rbind (wakeup Ch_uart_tx_r s) (\<lambda>s. uartstart_loop k' (WriteReg 0 c s)))"

declare uartstart_loop.simps [simp del]

definition uartstart :: "'a ust_scheme \<Rightarrow> 'a ust_scheme res" where
  "uartstart s = uartstart_loop (unat (uart_tx_w s - uart_tx_r s)) s"

definition uartputc :: "u8 \<Rightarrow> 'a ust_scheme \<Rightarrow> 'a ust_scheme res" where
  "uartputc c s =
     rbind (acquire L_uart_tx s) (\<lambda>s.
     if panicked s then NoFuel
     else if tx_full s then sleep Ch_uart_tx_r L_uart_tx s
     else rbind (uartstart (tx_put c s)) (release L_uart_tx))"

text \<open>The device becomes idle after \<open>u_busy\<close> further reads of its status.\<close>

definition uartputc_sync :: "u8 \<Rightarrow> 'a ust_scheme \<Rightarrow> 'a ust_scheme res" where
  "uartputc_sync c s = (if panicked s then NoFuel else Ok (WriteReg 0 c (s\<lparr>u_busy := 0\<rparr>)))"

definition uartgetc :: "'a ust_scheme \<Rightarrow> int \<times> 'a ust_scheme" where
  "uartgetc s = (case u_rx s of [] \<Rightarrow> (-1, s) | c # cs \<Rightarrow> (uint c, s\<lparr>u_rx := cs\<rparr>))"

section \<open>Console output\<close>

definition BACKSPACE :: int where "BACKSPACE = 0x100"

definition consputc :: "int \<Rightarrow> 'a ust_scheme \<Rightarrow> 'a ust_scheme res" where
  "consputc c s =
     (if c = BACKSPACE
      then rbind (uartputc_sync 8 s) (\<lambda>s. rbind (uartputc_sync 32 s) (uartputc_sync 8))
      else uartputc_sync (word_of_int c) s)"

fun consputs :: "bytes \<Rightarrow> 'a ust_scheme \<Rightarrow> 'a ust_scheme res" where
  "consputs [] s = Ok s"
| "consputs (c # cs) s = rbind (consputc (uint c) s) (consputs cs)"

end
