(* ===== verification/Printf.thy ===== *)
theory Printf
  imports Uart
begin

text \<open>
  Formatted kernel output (\<^verbatim>\<open>kernel/printf.c\<close>) and the process dump of \<^verbatim>\<open>kernel/proc.c\<close>.
  The arguments of a call are a list; taking one of the wrong kind, or none, is
  undefined in C and a panic here, and so is writing past the 16 bytes of the digit
  buffer of \<^verbatim>\<open>printint\<close>.
\<close>

definition ascii :: "string \<Rightarrow> bytes" where
  "ascii cs = map of_char cs"

datatype parg = PInt u32 | PLong u64 | PStr "bytes option"

definition digit :: "nat \<Rightarrow> u8" where
  "digit d = ascii ''0123456789abcdef'' ! d"

text \<open>The digits of \<^verbatim>\<open>x\<close> in the order \<^verbatim>\<open>printint\<close> produces them, least significant first.\<close>

function digits_rev :: "nat \<Rightarrow> nat \<Rightarrow> bytes" where
  "digits_rev base x =
     digit (x mod base) # (if base < 2 \<or> x div base = 0 then [] else digits_rev base (x div base))"
  by pat_completeness auto
termination
  by (relation "measure (\<lambda>(base, x). x)") (auto intro: div_less_dividend simp: not_less div_eq_0_iff)

declare digits_rev.simps [simp del]

definition printint :: "int \<Rightarrow> nat \<Rightarrow> bool \<Rightarrow> bytes res" where
  "printint xx base sg =
     (let neg = (sg \<and> xx < 0);
          x = unat (word_of_int (if neg then - xx else xx) :: u64);
          buf = digits_rev base x @ (if neg then ascii ''-'' else [])
      in if length buf > 16 then Panic ''undefined: printint buf'' else Ok (rev buf))"

fun printptr_loop :: "nat \<Rightarrow> u64 \<Rightarrow> bytes" where
  "printptr_loop 0 x = []"
| "printptr_loop (Suc k) x = digit (unat (drop_bit 60 x)) # printptr_loop k (push_bit 4 x)"

definition printptr :: "u64 \<Rightarrow> bytes" where
  "printptr x = ascii ''0x'' @ printptr_loop 16 x"

text \<open>What follows a \<^verbatim>\<open>%\<close>: the conversion and the number of characters it takes.\<close>

datatype conv = CInt nat bool | CLong nat bool | CPtr | CStr | CPercent | CEnd | CUnknown u8

definition conversion :: "bytes \<Rightarrow> conv \<times> nat" where
  "conversion p =
     (let c0 = ch p; c1 = (if c0 \<noteq> 0 then ch (tl p) else 0); c2 = (if c1 \<noteq> 0 then ch (tl (tl p)) else 0);
          is = (\<lambda>c x. c = (of_char x :: u8))
      in if is c0 CHR ''d'' then (CInt 10 True, 1)
         else if is c0 CHR ''l'' \<and> is c1 CHR ''d'' then (CLong 10 True, 2)
         else if is c0 CHR ''l'' \<and> is c1 CHR ''l'' \<and> is c2 CHR ''d'' then (CLong 10 True, 3)
         else if is c0 CHR ''u'' then (CInt 10 False, 1)
         else if is c0 CHR ''l'' \<and> is c1 CHR ''u'' then (CLong 10 False, 2)
         else if is c0 CHR ''l'' \<and> is c1 CHR ''l'' \<and> is c2 CHR ''u'' then (CLong 10 False, 3)
         else if is c0 CHR ''x'' then (CInt 16 False, 1)
         else if is c0 CHR ''l'' \<and> is c1 CHR ''x'' then (CLong 16 False, 2)
         else if is c0 CHR ''l'' \<and> is c1 CHR ''l'' \<and> is c2 CHR ''x'' then (CLong 16 False, 3)
         else if is c0 CHR ''p'' then (CPtr, 1)
         else if is c0 CHR ''s'' then (CStr, 1)
         else if is c0 CHR ''%'' then (CPercent, 1)
         else if c0 = 0 then (CEnd, 0)
         else (CUnknown c0, 1))"

text \<open>One conversion: the text and the arguments left. \<^verbatim>\<open>%u\<close> and \<^verbatim>\<open>%x\<close> take an \<^verbatim>\<open>int\<close>, which
  is sign-extended to the 64-bit parameter of \<^verbatim>\<open>printint\<close>.\<close>

definition conv_text :: "conv \<Rightarrow> parg list \<Rightarrow> (bytes \<times> parg list) res" where
  "conv_text c args =
     (case c of
        CPercent \<Rightarrow> Ok (ascii ''%'', args)
      | CUnknown u \<Rightarrow> Ok (ascii ''%'' @ [u], args)
      | CEnd \<Rightarrow> Ok ([], args)
      | _ \<Rightarrow> (case (c, args) of
            (CInt base sg, PInt w # args) \<Rightarrow> rbind (printint (sint w) base sg) (\<lambda>t. Ok (t, args))
          | (CLong base sg, PLong w # args) \<Rightarrow> rbind (printint (sint w) base sg) (\<lambda>t. Ok (t, args))
          | (CPtr, PLong w # args) \<Rightarrow> Ok (printptr w, args)
          | (CStr, PStr None # args) \<Rightarrow> Ok (ascii ''(null)'', args)
          | (CStr, PStr (Some t) # args) \<Rightarrow> Ok (cstr t, args)
          | _ \<Rightarrow> Panic ''undefined: printf argument''))"

function printf_text :: "bytes \<Rightarrow> parg list \<Rightarrow> bytes res" where
  "printf_text fmt args =
     (if ch fmt = 0 then Ok []
      else if ch fmt \<noteq> of_char CHR ''%'' then rbind (printf_text (tl fmt) args) (\<lambda>t. Ok (ch fmt # t))
      else let (c, k) = conversion (tl fmt)
           in if c = CEnd then Ok []
              else rbind (conv_text c args) (\<lambda>(t, args).
                   rbind (printf_text (drop k (tl fmt)) args) (\<lambda>u. Ok (t @ u))))"
  by pat_completeness auto
termination
proof (relation "measure (\<lambda>(fmt, args). length fmt)")
qed (auto simp: ch_def split: list.splits)

declare printf_text.simps [simp del]

text \<open>\<open>pr_locking\<close> is \<^verbatim>\<open>pr.locking\<close>.\<close>

record prst = ust +
  pr_locking :: bool

definition printf :: "bytes \<Rightarrow> parg list \<Rightarrow> 'a prst_scheme \<Rightarrow> 'a prst_scheme res" where
  "printf fmt args s =
     (let locking = pr_locking s in
      rbind (if locking then acquire L_pr s else Ok s) (\<lambda>s.
      rbind (printf_text fmt args) (\<lambda>t.
      rbind (consputs t s) (\<lambda>s.
      if locking then release L_pr s else Ok s))))"

text \<open>\<^verbatim>\<open>panic\<close> up to its final endless loop: the state in which the machine is frozen.\<close>

definition panic :: "bytes \<Rightarrow> 'a prst_scheme \<Rightarrow> 'a prst_scheme res" where
  "panic msg s =
     rbind (printf (ascii ''panic: '') [] (s\<lparr>pr_locking := False\<rparr>)) (\<lambda>s.
     rbind (printf (ascii ''%s'' @ [10]) [PStr (Some msg)] s) (\<lambda>s. Ok (s\<lparr>panicked := True\<rparr>)))"

definition printfinit :: "'a prst_scheme \<Rightarrow> 'a prst_scheme" where
  "printfinit s = s\<lparr>pr_locking := True\<rparr>"

definition state_name :: "procstate \<Rightarrow> string" where
  "state_name st = (case st of UNUSED \<Rightarrow> ''unused'' | USED \<Rightarrow> ''used'' | SLEEPING \<Rightarrow> ''sleep ''
     | RUNNABLE \<Rightarrow> ''runble'' | RUNNING \<Rightarrow> ''run   '' | ZOMBIE \<Rightarrow> ''zombie'')"

fun procdump_loop :: "nat list \<Rightarrow> 'a prst_scheme \<Rightarrow> 'a prst_scheme res" where
  "procdump_loop [] s = Ok s"
| "procdump_loop (i # is) s =
     (if pstate (pr s i) = UNUSED then procdump_loop is s
      else rbind (printf (ascii ''%d %s %s'') [PInt (word_of_int (pid (pr s i))),
               PStr (Some (ascii (state_name (pstate (pr s i))))), PStr (Some (pname (pr s i)))] s) (\<lambda>s.
           rbind (printf [10] [] s) (procdump_loop is)))"

definition procdump :: "'a prst_scheme \<Rightarrow> 'a prst_scheme res" where
  "procdump s = rbind (printf [10] [] s) (procdump_loop [0..<NPROC])"

end
