(* ===== verification/Console.thy ===== *)
theory Console
  imports Printf
begin

text \<open>
  The console (\<^verbatim>\<open>kernel/console.c\<close>) and the receive side of the serial port: the input
  ring with its read, write and edit indices, line editing, and the read and write
  routines of the console device. A read that has to wait stops with the channel it
  sleeps on and the progress it has made.
\<close>

definition INPUT_BUF_SIZE :: nat where [xv6_consts]: "INPUT_BUF_SIZE = 128"

record cons =
  cbuf :: "u8 list"
  cr :: u32
  cw :: u32
  ce :: u32

record cst = prst +
  cons :: cons
  keyboard_int_cnt :: int

definition upd_cons :: "(cons \<Rightarrow> cons) \<Rightarrow> 'a cst_scheme \<Rightarrow> 'a cst_scheme" where
  "upd_cons f s = s\<lparr>cons := f (cons s)\<rparr>"

definition cons_at :: "cons \<Rightarrow> u32 \<Rightarrow> u8" where
  "cons_at c k = cbuf c ! (unat k mod INPUT_BUF_SIZE)"

definition cons_put :: "u8 \<Rightarrow> cons \<Rightarrow> cons" where
  "cons_put b k = k\<lparr>cbuf := (cbuf k)[unat (ce k) mod INPUT_BUF_SIZE := b], ce := ce k + 1\<rparr>"

text \<open>Control characters: \<^verbatim>\<open>C('D')\<close>, \<^verbatim>\<open>C('H')\<close>, \<^verbatim>\<open>C('P')\<close>, \<^verbatim>\<open>C('U')\<close>.\<close>

definition ctrl_D :: u8 where "ctrl_D = 4"
definition ctrl_H :: int where "ctrl_H = 8"
definition ctrl_P :: int where "ctrl_P = 16"
definition ctrl_U :: int where "ctrl_U = 21"
definition newline :: u8 where "newline = 10"

fun consolewrite_loop :: "bool \<Rightarrow> u64 \<Rightarrow> nat \<Rightarrow> int \<Rightarrow> 'a cst_scheme \<Rightarrow> (int \<times> 'a cst_scheme) res" where
  "consolewrite_loop user_src src 0 i s = Ok (i, s)"
| "consolewrite_loop user_src src (Suc k) i s =
     rbind (either_copyin user_src src 1 s) (\<lambda>(r, bs).
       if r = -1 then Ok (i, s)
       else rbind (uartputc (ch bs) s) (consolewrite_loop user_src (src + 1) k (i + 1)))"

definition consolewrite :: "bool \<Rightarrow> u64 \<Rightarrow> int \<Rightarrow> 'a cst_scheme \<Rightarrow> (int \<times> 'a cst_scheme) res" where
  "consolewrite user_src src n s = consolewrite_loop user_src src (nat n) 0 s"

text \<open>The body of \<^verbatim>\<open>consoleread\<close> with \<open>n\<close> bytes still wanted of \<open>target\<close>. On \<open>Sleeping\<close> the
  last component is the number still wanted; the read resumes there.\<close>

fun consoleread_loop ::
  "bool \<Rightarrow> nat \<Rightarrow> u64 \<Rightarrow> nat \<Rightarrow> 'a cst_scheme \<Rightarrow> (int turn \<times> nat \<times> 'a cst_scheme) res" where
  "consoleread_loop user_dst target dst 0 s =
     rbind (release L_cons s) (\<lambda>s. Ok (Done (int target), 0, s))"
| "consoleread_loop user_dst target dst (Suc n) s =
     (if cr (cons s) = cw (cons s)
      then with_proc s (\<lambda>p. rbind (killed p s) (\<lambda>(k, s).
             if k \<noteq> 0 then rbind (release L_cons s) (\<lambda>s. Ok (Done (-1), 0, s))
             else rbind (sleep_enter Ch_cons_r L_cons s) (\<lambda>s. Ok (Sleeping Ch_cons_r, Suc n, s))))
      else let c = cons_at (cons s) (cr (cons s));
               s' = upd_cons (\<lambda>k. k\<lparr>cr := cr k + 1\<rparr>) s
           in if c = ctrl_D
              then let s' = (if Suc n < target then upd_cons (\<lambda>k. k\<lparr>cr := cr k - 1\<rparr>) s' else s')
                   in rbind (release L_cons s') (\<lambda>s. Ok (Done (int target - int (Suc n)), 0, s))
              else rbind (either_copyout user_dst dst [c] s') (\<lambda>(r, s).
                if r = -1 then rbind (release L_cons s) (\<lambda>s. Ok (Done (int target - int (Suc n)), 0, s))
                else if c = newline then rbind (release L_cons s) (\<lambda>s. Ok (Done (int target - int n), 0, s))
                else consoleread_loop user_dst target (dst + 1) n s))"

definition consoleread ::
  "bool \<Rightarrow> u64 \<Rightarrow> int \<Rightarrow> 'a cst_scheme \<Rightarrow> (int turn \<times> nat \<times> 'a cst_scheme) res" where
  "consoleread user_dst dst n s =
     rbind (acquire L_cons s) (\<lambda>s.
       if n \<le> 0 then rbind (release L_cons s) (\<lambda>s. Ok (Done 0, 0, s))
       else consoleread_loop user_dst (nat n) dst (nat n) s)"

definition consoleread_resume ::
  "bool \<Rightarrow> nat \<Rightarrow> u64 \<Rightarrow> nat \<Rightarrow> 'a cst_scheme \<Rightarrow> (int turn \<times> nat \<times> 'a cst_scheme) res" where
  "consoleread_resume user_dst target dst n s =
     rbind (sleep_leave L_cons s)
       (consoleread_loop user_dst target (dst + of_nat (target - n)) n)"

section \<open>Input\<close>

fun kill_line :: "nat \<Rightarrow> 'a cst_scheme \<Rightarrow> 'a cst_scheme res" where
  "kill_line k s =
     (if ce (cons s) \<noteq> cw (cons s) \<and> cons_at (cons s) (ce (cons s) - 1) \<noteq> newline
      then case k of 0 \<Rightarrow> NoFuel
           | Suc k' \<Rightarrow> rbind (consputc BACKSPACE (upd_cons (\<lambda>c. c\<lparr>ce := ce c - 1\<rparr>) s)) (kill_line k')
      else Ok s)"

declare kill_line.simps [simp del]

text \<open>What a key does, with \<^verbatim>\<open>cons.lock\<close> held.\<close>

definition console_key :: "int \<Rightarrow> 'a cst_scheme \<Rightarrow> 'a cst_scheme res" where
  "console_key c s =
     (if c = ctrl_P then procdump s
      else if c = ctrl_U then kill_line (unat (ce (cons s) - cw (cons s))) s
      else if c = ctrl_H \<or> c = 0x7f
      then if ce (cons s) \<noteq> cw (cons s)
           then consputc BACKSPACE (upd_cons (\<lambda>k. k\<lparr>ce := ce k - 1\<rparr>) s)
           else Ok s
      else if c \<noteq> 0 \<and> ce (cons s) - cr (cons s) < of_nat INPUT_BUF_SIZE
      then let c = (if c = 13 then 10 else c); b = word_of_int c :: u8
           in rbind (consputc c s) (\<lambda>s.
              let s = upd_cons (cons_put b) s
              in if c = uint newline \<or> c = uint ctrl_D \<or> ce (cons s) - cr (cons s) = of_nat INPUT_BUF_SIZE
                 then wakeup Ch_cons_r (upd_cons (\<lambda>k. k\<lparr>cw := ce k\<rparr>) s)
                 else Ok s)
      else Ok s)"

definition consoleintr :: "int \<Rightarrow> 'a cst_scheme \<Rightarrow> 'a cst_scheme res" where
  "consoleintr c s =
     rbind (acquire L_cons s) (\<lambda>s.
     rbind (console_key c (s\<lparr>keyboard_int_cnt := keyboard_int_cnt s + 1\<rparr>)) (release L_cons))"

fun uartintr_loop :: "nat \<Rightarrow> 'a cst_scheme \<Rightarrow> 'a cst_scheme res" where
  "uartintr_loop 0 s = (if fst (uartgetc s) = -1 then Ok s else NoFuel)"
| "uartintr_loop (Suc k) s =
     (let (c, s) = uartgetc s
      in if c = -1 then Ok s else rbind (consoleintr c s) (uartintr_loop k))"

definition uartintr :: "'a cst_scheme \<Rightarrow> 'a cst_scheme res" where
  "uartintr s =
     rbind (uartintr_loop (length (u_rx s)) s) (\<lambda>s.
     rbind (acquire L_uart_tx s) (\<lambda>s. rbind (uartstart s) (release L_uart_tx)))"

definition consoleinit :: "'a cst_scheme \<Rightarrow> 'a cst_scheme" where
  "consoleinit s = uartinit s"

end
