(* ===== verification/Pipe.thy ===== *)
theory Pipe
  imports Console
begin

text \<open>
  Pipes (\<^verbatim>\<open>kernel/pipe.c\<close>; \<^verbatim>\<open>pipealloc\<close> is with the file table). A pipe lives in a page of
  its own and is named by the page's address; the pages are kept as a typed store. A
  write or read that has to wait stops with the channel it sleeps on; a write keeps the
  number of bytes it has already put into the pipe.
\<close>

definition PIPESIZE :: nat where [xv6_consts]: "PIPESIZE = 512"

record pipe =
  pdata :: "u8 list"
  nread :: u32
  nwrite :: u32
  readopen :: bool
  writeopen :: bool

record ppst = cst +
  pipes :: "u64 \<Rightarrow> pipe"

definition upd_pipe :: "u64 \<Rightarrow> (pipe \<Rightarrow> pipe) \<Rightarrow> 'a ppst_scheme \<Rightarrow> 'a ppst_scheme" where
  "upd_pipe a f s = s\<lparr>pipes := (pipes s)(a := f (pipes s a))\<rparr>"

definition pipe_put :: "u8 \<Rightarrow> pipe \<Rightarrow> pipe" where
  "pipe_put c p = p\<lparr>pdata := (pdata p)[unat (nwrite p) mod PIPESIZE := c], nwrite := nwrite p + 1\<rparr>"

definition pipe_get :: "pipe \<Rightarrow> u8 \<times> pipe" where
  "pipe_get p = (pdata p ! (unat (nread p) mod PIPESIZE), p\<lparr>nread := nread p + 1\<rparr>)"

definition pipe_full :: "pipe \<Rightarrow> bool" where
  "pipe_full p \<longleftrightarrow> nwrite p = nread p + of_nat PIPESIZE"

definition pipe_empty :: "pipe \<Rightarrow> bool" where
  "pipe_empty p \<longleftrightarrow> nread p = nwrite p"

definition pipeclose :: "u64 \<Rightarrow> bool \<Rightarrow> 'a ppst_scheme \<Rightarrow> 'a ppst_scheme res" where
  "pipeclose pi writable s =
     rbind (acquire (L_pipe pi) s) (\<lambda>s.
     rbind (if writable then wakeup (Ch_pipe_nread pi) (upd_pipe pi (\<lambda>p. p\<lparr>writeopen := False\<rparr>) s)
            else wakeup (Ch_pipe_nwrite pi) (upd_pipe pi (\<lambda>p. p\<lparr>readopen := False\<rparr>) s)) (\<lambda>s.
     if \<not> readopen (pipes s pi) \<and> \<not> writeopen (pipes s pi)
     then rbind (release (L_pipe pi) s) (kfree pi)
     else release (L_pipe pi) s))"

text \<open>The loop of \<^verbatim>\<open>pipewrite\<close> with \<open>k\<close> bytes left and \<open>i\<close> written.\<close>

fun pipewrite_loop ::
  "u64 \<Rightarrow> u64 \<Rightarrow> nat \<Rightarrow> nat \<Rightarrow> nat \<Rightarrow> 'a ppst_scheme \<Rightarrow> (int turn \<times> nat \<times> 'a ppst_scheme) res" where
  "pipewrite_loop pi addr p 0 i s =
     rbind (wakeup (Ch_pipe_nread pi) s) (\<lambda>s.
     rbind (release (L_pipe pi) s) (\<lambda>s. Ok (Done (int i), i, s)))"
| "pipewrite_loop pi addr p (Suc k) i s =
     rbind (if \<not> readopen (pipes s pi) then Ok (1, s) else killed p s) (\<lambda>(stop, s).
     if stop \<noteq> 0 then rbind (release (L_pipe pi) s) (\<lambda>s. Ok (Done (-1), i, s))
     else if pipe_full (pipes s pi)
     then rbind (wakeup (Ch_pipe_nread pi) s) (\<lambda>s.
          rbind (sleep_enter (Ch_pipe_nwrite pi) (L_pipe pi) s) (\<lambda>s.
          Ok (Sleeping (Ch_pipe_nwrite pi), i, s)))
     else rbind (copyin (pagetable (pr s p)) (addr + of_nat i) 1 s) (\<lambda>(r, bs).
          if r = -1
          then rbind (wakeup (Ch_pipe_nread pi) s) (\<lambda>s.
               rbind (release (L_pipe pi) s) (\<lambda>s. Ok (Done (int i), i, s)))
          else pipewrite_loop pi addr p k (Suc i) (upd_pipe pi (pipe_put (ch bs)) s)))"

definition pipewrite ::
  "u64 \<Rightarrow> u64 \<Rightarrow> int \<Rightarrow> 'a ppst_scheme \<Rightarrow> (int turn \<times> nat \<times> 'a ppst_scheme) res" where
  "pipewrite pi addr n s = with_proc s (\<lambda>p.
     rbind (acquire (L_pipe pi) s) (pipewrite_loop pi addr p (nat n) 0))"

definition pipewrite_resume ::
  "u64 \<Rightarrow> u64 \<Rightarrow> int \<Rightarrow> nat \<Rightarrow> 'a ppst_scheme \<Rightarrow> (int turn \<times> nat \<times> 'a ppst_scheme) res" where
  "pipewrite_resume pi addr n i s = with_proc s (\<lambda>p.
     rbind (sleep_leave (L_pipe pi) s) (pipewrite_loop pi addr p (nat n - i) i))"

fun piperead_loop ::
  "u64 \<Rightarrow> u64 \<Rightarrow> nat \<Rightarrow> nat \<Rightarrow> nat \<Rightarrow> 'a ppst_scheme \<Rightarrow> (int \<times> 'a ppst_scheme) res" where
  "piperead_loop pi addr p 0 i s = Ok (int i, s)"
| "piperead_loop pi addr p (Suc k) i s =
     (if pipe_empty (pipes s pi) then Ok (int i, s)
      else let (c, q) = pipe_get (pipes s pi); s = upd_pipe pi (\<lambda>_. q) s
           in rbind (copyout (pagetable (pr s p)) (addr + of_nat i) [c] s) (\<lambda>(r, s).
                if r = -1 then Ok (int i, s) else piperead_loop pi addr p k (Suc i) s))"

definition piperead_round ::
  "u64 \<Rightarrow> u64 \<Rightarrow> int \<Rightarrow> 'a ppst_scheme \<Rightarrow> (int turn \<times> 'a ppst_scheme) res" where
  "piperead_round pi addr n s = with_proc s (\<lambda>p.
     if pipe_empty (pipes s pi) \<and> writeopen (pipes s pi)
     then rbind (killed p s) (\<lambda>(k, s).
          if k \<noteq> 0 then rbind (release (L_pipe pi) s) (\<lambda>s. Ok (Done (-1), s))
          else rbind (sleep_enter (Ch_pipe_nread pi) (L_pipe pi) s) (\<lambda>s.
               Ok (Sleeping (Ch_pipe_nread pi), s)))
     else rbind (piperead_loop pi addr p (nat n) 0 s) (\<lambda>(i, s).
          rbind (wakeup (Ch_pipe_nwrite pi) s) (\<lambda>s.
          rbind (release (L_pipe pi) s) (\<lambda>s. Ok (Done i, s)))))"

definition piperead :: "u64 \<Rightarrow> u64 \<Rightarrow> int \<Rightarrow> 'a ppst_scheme \<Rightarrow> (int turn \<times> 'a ppst_scheme) res" where
  "piperead pi addr n s = rbind (acquire (L_pipe pi) s) (piperead_round pi addr n)"

definition piperead_resume ::
  "u64 \<Rightarrow> u64 \<Rightarrow> int \<Rightarrow> 'a ppst_scheme \<Rightarrow> (int turn \<times> 'a ppst_scheme) res" where
  "piperead_resume pi addr n s = rbind (sleep_leave (L_pipe pi) s) (piperead_round pi addr n)"

end
