(* ===== verification/Ring.thy ===== *)
theory Ring
  imports Xv6_Prelude
begin

text \<open>
  Circular buffers with free-running counters, as the pipe, the serial port and the
  console use them: element number \<open>k\<close> is at \<open>k mod N\<close>, the counters are machine words
  that wrap around, and \<open>N\<close> divides their range. The locale is the contract of a bounded
  first-in first-out queue.
\<close>

section \<open>The contents of a circular buffer\<close>

definition ring_list :: "nat \<Rightarrow> 'a list \<Rightarrow> 'w::len word \<Rightarrow> 'w word \<Rightarrow> 'a list" where
  "ring_list N buf r w = map (\<lambda>k. buf ! (unat (r + of_nat k) mod N)) [0..<unat (w - r)]"

definition ring_ok :: "nat \<Rightarrow> 'a list \<Rightarrow> 'w::len word \<Rightarrow> 'w word \<Rightarrow> bool" where
  "ring_ok N buf r w \<longleftrightarrow> length buf = N \<and> 0 < N \<and> N dvd 2 ^ LENGTH('w) \<and> N < 2 ^ LENGTH('w) \<and> unat (w - r) \<le> N"

lemma length_ring_list [simp]: "length (ring_list N buf r w) = unat (w - r)"
  by (simp add: ring_list_def)

lemma ring_index:
  "N dvd 2 ^ LENGTH('w) \<Longrightarrow> unat (r + of_nat k :: 'w::len word) mod N = (unat r + k) mod N"
  by (simp add: unat_word_ariths unsigned_of_nat take_bit_eq_mod mod_mod_cancel mod_simps)

lemma ring_mod_eq: "(a + k) mod N = (a + d) mod N \<Longrightarrow> k < N \<Longrightarrow> d < (N :: nat) \<Longrightarrow> k = d"
proof -
  assume a: "(a + k) mod N = (a + d) mod N" "k < N" "d < N"
  have "(int a + int k) mod int N = (int a + int d) mod int N" using a(1) by (metis of_nat_add of_nat_mod)
  then have "(int a + int k - int a) mod int N = (int a + int d - int a) mod int N" by (metis mod_diff_left_eq)
  then show "k = d" using a(2,3) by simp
qed

lemma unat_step:
  fixes w r :: "'w::len word"
  assumes "unat (w - r) < N" "N < 2 ^ LENGTH('w)"
  shows "unat (w + 1 - r) = Suc (unat (w - r))"
proof -
  have "w + 1 - r = (w - r) + 1" by simp
  moreover have "(w - r) + 1 = of_nat (Suc (unat (w - r)))" by simp
  ultimately have "unat (w + 1 - r) = unat (of_nat (Suc (unat (w - r))) :: 'w word)" by metis
  then show ?thesis using assms by (simp only: unat_of_nat) (simp add: take_bit_eq_mod)
qed

lemma ring_put:
  fixes r w :: "'w::len word"
  assumes ok: "ring_ok N buf r w" and room: "unat (w - r) < N"
  shows "ring_list N (buf[unat w mod N := c]) r (w + 1) = ring_list N buf r w @ [c]"
    "ring_ok N (buf[unat w mod N := c]) r (w + 1)"
proof -
  let ?d = "unat (w - r)"
  have n: "0 < N" "N dvd 2 ^ LENGTH('w)" "N < 2 ^ LENGTH('w)" "length buf = N" using ok by (auto simp: ring_ok_def)
  have d: "unat (w + 1 - r) = Suc ?d" using unat_step [OF room n(3)] .
  have w: "unat w mod N = (unat r + ?d) mod N" using ring_index [OF n(2), of r ?d] by simp
  have "(buf[unat w mod N := c]) ! (unat (r + of_nat k) mod N) = buf ! (unat (r + of_nat k) mod N)" if "k < ?d" for k
  proof -
    have "(unat r + k) mod N \<noteq> (unat r + ?d) mod N" using ring_mod_eq [of "unat r" k N ?d] that room by auto
    then show ?thesis by (simp add: ring_index [OF n(2)] w)
  qed
  then show "ring_list N (buf[unat w mod N := c]) r (w + 1) = ring_list N buf r w @ [c]"
    using n by (simp add: ring_list_def d)
  show "ring_ok N (buf[unat w mod N := c]) r (w + 1)" using ok room d by (simp add: ring_ok_def)
qed

lemma ring_get:
  fixes r w :: "'w::len word"
  assumes ok: "ring_ok N buf r w" and ne: "r \<noteq> w"
  shows "ring_list N buf r w = buf ! (unat r mod N) # ring_list N buf (r + 1) w" "ring_ok N buf (r + 1) w"
    "Suc (unat (w - (r + 1))) = unat (w - r)"
proof -
  have "unat (w - r) \<noteq> 0" using ne by (simp add: unsigned_eq_0_iff)
  then have "unat (w - r - 1) = unat (w - r) - 1" by (simp add: unat_minus_one unsigned_eq_0_iff)
  then show d: "Suc (unat (w - (r + 1))) = unat (w - r)" using \<open>unat (w - r) \<noteq> 0\<close> by (simp add: diff_diff_eq)
  have "ring_list N buf r w = map (\<lambda>k. buf ! (unat (r + of_nat k) mod N)) (0 # map Suc [0..<unat (w - (r + 1))])"
    by (simp add: ring_list_def d [symmetric] upt_conv_Cons map_Suc_upt del: upt_Suc)
  then show "ring_list N buf r w = buf ! (unat r mod N) # ring_list N buf (r + 1) w"
    by (simp add: ring_list_def add_ac)
  show "ring_ok N buf (r + 1) w" using ok d by (auto simp: ring_ok_def)
qed

lemma ring_full:
  fixes r w :: "'w::len word"
  assumes "ring_ok N buf r w"
  shows "w = r + of_nat N \<longleftrightarrow> unat (w - r) = N"
proof
  assume "w = r + of_nat N"
  then show "unat (w - r) = N" using assms by (simp add: ring_ok_def unsigned_of_nat take_bit_eq_mod)
next
  assume "unat (w - r) = N"
  then have "w - r = of_nat N" by (metis of_nat_unat ucast_id)
  then show "w = r + of_nat N" by (simp add: diff_eq_eq add.commute)
qed

lemma ring_list_Nil [simp]: "ring_list N buf r w = [] \<longleftrightarrow> r = w"
  by (auto simp: ring_list_def unsigned_eq_0_iff)

section \<open>Bounded queues\<close>

datatype 'a fifo_op = Put 'a | Get

text \<open>A sequence of operations on a queue: \<open>None\<close> when one is refused, and otherwise the
  elements taken out and the final state.\<close>

fun fifo_run ::
  "('a \<Rightarrow> 's \<Rightarrow> 's) \<Rightarrow> ('s \<Rightarrow> 'a \<times> 's) \<Rightarrow> ('s \<Rightarrow> bool) \<Rightarrow> ('s \<Rightarrow> bool) \<Rightarrow> 'a fifo_op list \<Rightarrow> 's \<Rightarrow> ('a list \<times> 's) option"
where
  "fifo_run put get full vacant [] s = Some ([], s)"
| "fifo_run put get full vacant (Put c # ops) s =
     (if full s then None else fifo_run put get full vacant ops (put c s))"
| "fifo_run put get full vacant (Get # ops) s =
     (if vacant s then None
      else case fifo_run put get full vacant ops (snd (get s)) of
             None \<Rightarrow> None | Some (out, t) \<Rightarrow> Some (fst (get s) # out, t))"

fun puts :: "'a fifo_op list \<Rightarrow> 'a list" where
  "puts [] = []"
| "puts (Put c # ops) = c # puts ops"
| "puts (Get # ops) = puts ops"

locale fifo =
  fixes inv :: "'s \<Rightarrow> bool" and contents :: "'s \<Rightarrow> 'a list" and cap :: nat
    and put :: "'a \<Rightarrow> 's \<Rightarrow> 's" and get :: "'s \<Rightarrow> 'a \<times> 's"
    and full :: "'s \<Rightarrow> bool" and vacant :: "'s \<Rightarrow> bool"
  assumes put_law: "inv s \<Longrightarrow> \<not> full s \<Longrightarrow> inv (put c s) \<and> contents (put c s) = contents s @ [c]"
    and get_law: "inv s \<Longrightarrow> \<not> vacant s \<Longrightarrow> inv (snd (get s)) \<and> contents s = fst (get s) # contents (snd (get s))"
    and full_law: "inv s \<Longrightarrow> full s \<longleftrightarrow> length (contents s) = cap"
    and vacant_law: "inv s \<Longrightarrow> vacant s \<longleftrightarrow> contents s = []"
    and bounded: "inv s \<Longrightarrow> length (contents s) \<le> cap"
begin

lemma run_order:
  "inv s \<Longrightarrow> fifo_run put get full vacant ops s = Some (out, t) \<Longrightarrow>
   inv t \<and> out @ contents t = contents s @ puts ops"
proof (induction ops arbitrary: s out)
  case (Cons op ops)
  show ?case
  proof (cases op)
    case (Put c)
    with Cons put_law [OF Cons.prems(1)] show ?thesis by (fastforce split: if_splits)
  next
    case Get
    with Cons get_law [OF Cons.prems(1)] show ?thesis by (fastforce split: if_splits option.splits)
  qed
qed simp

lemma fill:
  "inv s \<Longrightarrow> length (contents s) + length cs \<le> cap \<Longrightarrow>
   \<exists>t. fifo_run put get full vacant (map Put cs) s = Some ([], t) \<and> inv t \<and> contents t = contents s @ cs"
proof (induction cs arbitrary: s)
  case (Cons c cs)
  have "\<not> full s" using full_law [OF Cons.prems(1)] Cons.prems(2) by auto
  with put_law [OF Cons.prems(1)] Cons.IH [of "put c s"] Cons.prems show ?case by auto
qed simp

end

end
