(* ===== verification/Pt_Tree.thy ===== *)
theory Pt_Tree
  imports Vm
begin

text \<open>
  Page tables as trees of physical pages: which pages a table of a given level
  reaches, the invariant that they are pairwise distinct, the entry that serves
  an address, and what \<^verbatim>\<open>walk\<close> does to the tree with and without allocation.
\<close>

section \<open>The tree of table pages\<close>

text \<open>The child table an entry points to, the table pages below a table of a given
  level, and the separation invariant: all table pages of a tree are distinct.\<close>

definition child :: "memory \<Rightarrow> u64 \<Rightarrow> nat \<Rightarrow> u64 option" where
  "child m p i = (let pte = load64 m (slot p i)
                  in if pte AND PTE_V \<noteq> 0 then Some (PTE2PA pte) else None)"

text \<open>An entry that points to a table has none of the permission bits.\<close>

definition dir_entry :: "memory \<Rightarrow> u64 \<Rightarrow> nat \<Rightarrow> bool" where
  "dir_entry m p i \<longleftrightarrow> load64 m (slot p i) AND (PTE_R OR PTE_W OR PTE_X) = 0"

fun tables :: "nat \<Rightarrow> memory \<Rightarrow> u64 \<Rightarrow> u64 set" where
  "tables 0 m p = {p}"
| "tables (Suc l) m p =
     insert p (\<Union>i\<in>{..<512}. case child m p i of None \<Rightarrow> {} | Some c \<Rightarrow> tables l m c)"

fun pt_wf :: "nat \<Rightarrow> memory \<Rightarrow> u64 \<Rightarrow> bool" where
  "pt_wf 0 m p \<longleftrightarrow> page_aligned p \<and> p \<noteq> 0"
| "pt_wf (Suc l) m p \<longleftrightarrow> page_aligned p \<and> p \<noteq> 0 \<and>
     (\<forall>i<512. \<forall>c. child m p i = Some c \<longrightarrow>
        dir_entry m p i \<and> pt_wf l m c \<and> p \<notin> tables l m c) \<and>
     (\<forall>i<512. \<forall>j<512. \<forall>c d. i \<noteq> j \<longrightarrow> child m p i = Some c \<longrightarrow> child m p j = Some d \<longrightarrow>
        tables l m c \<inter> tables l m d = {})"

text \<open>The level-0 table that serves an address, and the entry for the address (0 when
  a table on the way is missing).\<close>

fun leaf_table :: "nat \<Rightarrow> memory \<Rightarrow> u64 \<Rightarrow> u64 \<Rightarrow> u64 option" where
  "leaf_table 0 m p va = Some p"
| "leaf_table (Suc l) m p va =
     (case child m p (PX (Suc l) va) of None \<Rightarrow> None | Some c \<Rightarrow> leaf_table l m c va)"

definition lookup :: "nat \<Rightarrow> memory \<Rightarrow> u64 \<Rightarrow> u64 \<Rightarrow> u64" where
  "lookup l m p va =
     (case leaf_table l m p va of None \<Rightarrow> 0 | Some t \<Rightarrow> load64 m (slot t (PX 0 va)))"

lemma PX_less [simp]: "PX l va < 512"
proof -
  have "drop_bit (PXSHIFT l) va AND 0x1FF = take_bit 9 (drop_bit (PXSHIFT l) va)"
    by (simp add: take_bit_eq_mask mask_eq_exp_minus_1)
  then show ?thesis using take_bit_nat_less_exp [of 9 "unat (drop_bit (PXSHIFT l) va)"]
    by (simp add: PX_def unsigned_take_bit_eq)
qed

lemma pte_flags_small:
  fixes f :: u64
  assumes "f < 1024"
  shows "\<not> bit f (n + 10)"
proof -
  have "take_bit 10 f = f"
    using assms by (simp add: word_unat_eq_iff unsigned_take_bit_eq take_bit_nat_eq_self word_less_nat_alt)
  then show ?thesis by (metis bit_take_bit_iff not_add_less2)
qed

lemma PTE2PA_PA2PTE:
  assumes "page_aligned pa" "f < 1024"
  shows "PTE2PA (PA2PTE pa OR f) = pa"
proof -
  have "PTE2PA (PA2PTE pa OR f) = PGROUNDDOWN pa"
    unfolding PTE2PA_def PA2PTE_def PGROUNDDOWN_shift
  proof (rule bit_word_eqI)
    fix n assume "n < LENGTH(64)"
    then show "bit (push_bit 12 (drop_bit 10 (push_bit 10 (drop_bit 12 pa) OR f))) n =
        bit (push_bit 12 (drop_bit 12 pa)) n"
      using pte_flags_small [OF assms(2), of "n - 12"] by (auto simp: bit_simps)
  qed
  then show ?thesis using assms(1) by simp
qed

lemma PTE2PA_table [simp]: "page_aligned pa \<Longrightarrow> PTE2PA (PA2PTE pa OR PTE_V) = pa"
  by (rule PTE2PA_PA2PTE) (simp_all add: PTE_V_def)

lemma PA2PTE_valid [simp]: "(x OR PTE_V) AND PTE_V \<noteq> 0" "(x OR (y OR PTE_V)) AND PTE_V \<noteq> 0"
proof -
  show *: "(x OR PTE_V) AND PTE_V \<noteq> 0" for x
  proof
    assume "(x OR PTE_V) AND PTE_V = 0"
    then have "bit ((x OR PTE_V) AND PTE_V) 0 = bit (0::u64) 0" by simp
    then show False by (simp add: PTE_V_def bit_simps)
  qed
  show "(x OR (y OR PTE_V)) AND PTE_V \<noteq> 0" using * [of "x OR y"] by (simp add: or.assoc)
qed

lemma PTE_V_nonzero [simp]: "PTE_V \<noteq> 0"
  by (simp add: PTE_V_def)

lemma child_zero: "load64 m (slot p i) = 0 \<Longrightarrow> child m p i = None"
  by (simp add: child_def)

lemma tables_Suc_iff:
  "x \<in> tables (Suc l) m p \<longleftrightarrow> x = p \<or> (\<exists>i<512. \<exists>c. child m p i = Some c \<and> x \<in> tables l m c)"
  by (force split: option.splits)

declare tables.simps(2) [simp del]

lemma pt_wf_root: "pt_wf l m p \<Longrightarrow> page_aligned p \<and> p \<noteq> 0"
  by (cases l) auto

lemma tables_root [simp]: "p \<in> tables l m p"
  by (cases l) (auto simp: tables_Suc_iff)

lemma pt_wf_tables: "pt_wf l m p \<Longrightarrow> t \<in> tables l m p \<Longrightarrow> page_aligned t \<and> t \<noteq> 0"
proof (induction l arbitrary: p)
  case (Suc l)
  then show ?case by (auto simp: tables_Suc_iff)
qed simp

lemma child_cong:
  "page_aligned p \<Longrightarrow> i < 512 \<Longrightarrow> (\<And>x. PGROUNDDOWN x = p \<Longrightarrow> m' x = m x) \<Longrightarrow> child m' p i = child m p i"
  unfolding child_def by (subst load64_slot_cong [of p i m' m]) auto

lemma dir_entry_cong:
  "page_aligned p \<Longrightarrow> i < 512 \<Longrightarrow> (\<And>x. PGROUNDDOWN x = p \<Longrightarrow> m' x = m x) \<Longrightarrow> dir_entry m' p i = dir_entry m p i"
  unfolding dir_entry_def by (subst load64_slot_cong [of p i m' m]) auto

lemma dir_entry_table: "page_aligned pg \<Longrightarrow> load64 m (slot p i) = PA2PTE pg OR PTE_V \<Longrightarrow> dir_entry m p i"
proof -
  have "\<not> bit (14 :: u64) n" if "n = 0 \<or> 10 \<le> n" for n
    using that pte_flags_small [of 14 "n - 10"] by auto
  then have "(PA2PTE pg OR 1) AND 14 = 0"
    by (intro bit_word_eqI) (auto simp: PA2PTE_def bit_simps bit_1_iff intro!: gr0I)
  moreover assume "load64 m (slot p i) = PA2PTE pg OR PTE_V"
  ultimately show ?thesis by (simp add: dir_entry_def pte_bits)
qed

lemma tables_child:
  "i < 512 \<Longrightarrow> child m p i = Some c \<Longrightarrow> tables l m c \<subseteq> tables (Suc l) m p"
  by (auto simp: tables_Suc_iff)

lemma leaf_table_in: "leaf_table l m p va = Some t \<Longrightarrow> t \<in> tables l m p"
proof (induction l arbitrary: p)
  case (Suc l)
  then obtain c where "child m p (PX (Suc l) va) = Some c" "leaf_table l m c va = Some t"
    by (auto split: option.splits)
  with Suc.IH tables_child [of "PX (Suc l) va" m p c l] show ?case by auto
qed simp

text \<open>The whole tree depends on the bytes of its table pages only.\<close>

lemma tables_frame:
  assumes "pt_wf l m p" "\<And>x. PGROUNDDOWN x \<in> tables l m p \<Longrightarrow> m' x = m x"
  shows "tables l m' p = tables l m p \<and> pt_wf l m' p \<and>
    leaf_table l m' p = leaf_table l m p \<and> lookup l m' p = lookup l m p"
proof -
  have "tables l m' p = tables l m p \<and> pt_wf l m' p \<and> leaf_table l m' p = leaf_table l m p"
    using assms
  proof (induction l arbitrary: p)
    case (Suc l)
    have ch: "child m' p i = child m p i" if "i < 512" for i
      using Suc.prems that by (intro child_cong) auto
    have de: "dir_entry m' p i = dir_entry m p i" if "i < 512" for i
      using Suc.prems that by (intro dir_entry_cong) auto
    have IH: "tables l m' c = tables l m c \<and> pt_wf l m' c \<and> leaf_table l m' c = leaf_table l m c"
      if "i < 512" "child m p i = Some c" for i c
    proof (rule Suc.IH)
      show "pt_wf l m c" using Suc.prems(1) that by simp
      show "m' x = m x" if "PGROUNDDOWN x \<in> tables l m c" for x
        using that tables_child [OF \<open>i < 512\<close> \<open>child m p i = Some c\<close>, of l]
        by (intro Suc.prems(2)) blast
    qed
    have t: "tables (Suc l) m' p = tables (Suc l) m p"
      using ch IH by (auto simp: tables_Suc_iff)
    have w: "pt_wf (Suc l) m' p"
      using Suc.prems(1) ch IH de by simp
    have "leaf_table (Suc l) m' p = leaf_table (Suc l) m p"
      using ch IH [OF PX_less] by (auto simp: fun_eq_iff split: option.splits)
    with t w show ?case by blast
  qed auto
  moreover have "lookup l m' p va = lookup l m p va" if "leaf_table l m' p = leaf_table l m p" for va
  proof (cases "leaf_table l m p va")
    case (Some t)
    then have "t \<in> tables l m p" by (rule leaf_table_in)
    with assms have "load64 m' (slot t (PX 0 va)) = load64 m (slot t (PX 0 va))"
      by (intro load64_slot_cong) (auto dest: pt_wf_tables)
    with Some that show ?thesis by (simp add: lookup_def)
  qed (simp add: lookup_def that)
  ultimately show ?thesis by auto
qed

lemma lookup_0 [simp]: "lookup 0 m p va = load64 m (slot p (PX 0 va))"
  by (simp add: lookup_def)

lemma lookup_Suc [simp]:
  "lookup (Suc l) m p va = (case child m p (PX (Suc l) va) of None \<Rightarrow> 0 | Some c \<Rightarrow> lookup l m c va)"
  by (simp add: lookup_def split: option.split)

text \<open>Changing one subtree, possibly growing it by the fresh pages \<open>U\<close>.\<close>

lemma subtree_update:
  assumes wf: "pt_wf (Suc l) m p" and i: "i < 512" "child m p i = Some c"
    and out: "\<And>x. PGROUNDDOWN x \<notin> tables l m c \<union> U \<Longrightarrow> m' x = m x"
    and U: "U \<inter> tables (Suc l) m p = {}"
    and c: "pt_wf l m' c" "tables l m' c = tables l m c \<union> U" "lookup l m' c = lookup l m c"
  shows "pt_wf (Suc l) m' p \<and> tables (Suc l) m' p = tables (Suc l) m p \<union> U \<and>
    lookup (Suc l) m' p = lookup (Suc l) m p \<and> (\<forall>j<512. child m' p j = child m p j)"
proof -
  have p: "p \<notin> tables l m c" "p \<notin> U" using wf i U by auto
  have ch: "child m' p j = child m p j" if "j < 512" for j
    using wf p that by (intro child_cong out) auto
  have de: "dir_entry m' p j = dir_entry m p j" if "j < 512" for j
    using wf p that by (intro dir_entry_cong out) auto
  have sib: "tables l m' d = tables l m d \<and> pt_wf l m' d \<and> lookup l m' d = lookup l m d"
    if d: "j < 512" "child m p j = Some d" "j \<noteq> i" for j d
  proof -
    have "tables l m d \<inter> tables l m c = {}" using wf i d by simp
    moreover have "tables l m d \<inter> U = {}" using U tables_child [OF d(1,2), of l] by blast
    ultimately have "m' x = m x" if "PGROUNDDOWN x \<in> tables l m d" for x
      using that by (intro out) auto
    moreover have "pt_wf l m d" using wf d by simp
    ultimately show ?thesis using tables_frame [of l m d m'] by auto
  qed
  have t: "tables l m' d = (if j = i then tables l m d \<union> U else tables l m d)"
    if "j < 512" "child m p j = Some d" for j d
    using sib [OF that] c(2) i that by auto
  have Ud: "U \<inter> tables l m d = {}" if "j < 512" "child m p j = Some d" for j d
    using U tables_child [OF that, of l] by blast
  have ts: "tables (Suc l) m' p = tables (Suc l) m p \<union> U"
  proof (intro set_eqI iffI)
    fix x assume "x \<in> tables (Suc l) m' p"
    then show "x \<in> tables (Suc l) m p \<union> U"
      using ch t by (auto simp: tables_Suc_iff split: if_splits)
  next
    fix x assume "x \<in> tables (Suc l) m p \<union> U"
    then show "x \<in> tables (Suc l) m' p"
      using ch t i unfolding tables_Suc_iff Un_iff by (metis UnI1 UnI2)
  qed
  have "pt_wf l m' d \<and> p \<notin> tables l m' d" if "j < 512" "child m p j = Some d" for j d
    using t [OF that] sib [OF that] c(1) i that wf p(2) by (auto split: if_splits)
  moreover have "tables l m' d \<inter> tables l m' e = {}"
    if "j < 512" "child m p j = Some d" "k < 512" "child m p k = Some e" "j \<noteq> k" for j d k e
  proof -
    have "tables l m d \<inter> tables l m e = {}" using wf that by simp
    then show ?thesis
      using t [OF that(1,2)] t [OF that(3,4)] Ud [OF that(1,2)] Ud [OF that(3,4)] that(5)
      by (auto split: if_splits)
  qed
  ultimately have w: "pt_wf (Suc l) m' p" using wf ch de by simp
  have "lookup (Suc l) m' p va = lookup (Suc l) m p va" for va
    using ch [OF PX_less] sib [OF PX_less, of "Suc l" va] c(3) i
    by (cases "PX (Suc l) va = i") (auto split: option.splits)
  with ts w ch show ?thesis by blast
qed

text \<open>A zeroed page is an empty tree.\<close>

lemma zero_table:
  assumes "page_aligned p" "p \<noteq> 0" "\<And>i. i < 512 \<Longrightarrow> load64 m (slot p i) = 0"
  shows "pt_wf l m p \<and> tables l m p = {p} \<and> lookup l m p = (\<lambda>_. 0)"
  using assms by (cases l) (auto simp: child_zero fun_eq_iff tables_Suc_iff)

text \<open>Linking a fresh zeroed page into an empty slot.\<close>

lemma link_table:
  fixes m :: memory and pg p :: u64 and i :: nat
  defines "m2 \<equiv> store64 (memset m pg 0 4096) (slot p i) (PA2PTE pg OR PTE_V)"
  assumes wf: "pt_wf (Suc l) m p" and i: "i < 512" "child m p i = None"
    and pg: "page_aligned pg" "pg \<noteq> 0" "pg \<notin> tables (Suc l) m p"
  shows "pt_wf (Suc l) m2 p \<and> tables (Suc l) m2 p = insert pg (tables (Suc l) m p) \<and>
    lookup (Suc l) m2 p = lookup (Suc l) m p \<and> child m2 p i = Some pg \<and>
    (\<forall>x. PGROUNDDOWN x \<notin> {p, pg} \<longrightarrow> m2 x = m x)"
proof -
  have p: "page_aligned p" "p \<noteq> pg" "p \<noteq> 0" using wf pg by auto
  have out: "m2 x = m x" if "PGROUNDDOWN x \<notin> {p, pg}" for x
    using that p i pg by (simp add: m2_def store64_slot_page memset_page)
  have ld: "load64 m2 (slot p j) = (if j = i then PA2PTE pg OR PTE_V else load64 m (slot p j))"
    if "j < 512" for j
  proof -
    have "load64 (memset m pg 0 4096) (slot p j) = load64 m (slot p j)"
      by (rule load64_slot_cong) (use p pg that in \<open>auto simp: memset_page\<close>)
    then show ?thesis using p i that by (simp add: m2_def load64_store64_slot)
  qed
  then have ch: "child m2 p j = (if j = i then Some pg else child m p j)" if "j < 512" for j
    using that pg by (simp add: child_def Let_def)
  have de: "dir_entry m2 p j" if "j < 512" "j = i \<or> dir_entry m p j" for j
    using that ld [OF that(1)] dir_entry_table [OF pg(1), of m2 p j] by (auto simp: dir_entry_def)
  have zero: "pt_wf l m2 pg \<and> tables l m2 pg = {pg} \<and> lookup l m2 pg = (\<lambda>_. 0)"
  proof (rule zero_table)
    show "load64 m2 (slot pg j) = 0" if "j < 512" for j
      using p pg i that by (simp add: m2_def load64_store64_slot load64_memset_zero)
  qed (use pg in auto)
  have sib: "tables l m2 d = tables l m d \<and> pt_wf l m2 d \<and> lookup l m2 d = lookup l m d"
    if d: "j < 512" "child m p j = Some d" for j d
  proof -
    have "p \<notin> tables l m d" "pt_wf l m d" using wf d by auto
    moreover have "pg \<notin> tables l m d" using pg tables_child [OF d, of l] by auto
    ultimately have "m2 x = m x" if "PGROUNDDOWN x \<in> tables l m d" for x
      using that by (intro out) auto
    with \<open>pt_wf l m d\<close> show ?thesis using tables_frame [of l m d m2] by auto
  qed
  have nin: "pg \<notin> tables l m d" if "j < 512" "child m p j = Some d" for j d
    using pg tables_child [OF that, of l] by auto
  have ts: "tables (Suc l) m2 p = insert pg (tables (Suc l) m p)"
  proof (intro set_eqI iffI)
    fix x assume "x \<in> tables (Suc l) m2 p"
    then show "x \<in> insert pg (tables (Suc l) m p)"
      using ch sib zero by (auto simp: tables_Suc_iff split: if_splits)
  next
    fix x assume x: "x \<in> insert pg (tables (Suc l) m p)"
    have "tables l m2 pg \<subseteq> tables (Suc l) m2 p"
      using ch [OF i(1)] by (intro tables_child [OF i(1)]) simp
    moreover have "tables l m d \<subseteq> tables (Suc l) m2 p" if "j < 512" "child m p j = Some d" for j d
    proof -
      have "child m2 p j = Some d" using ch [OF that(1)] that i by auto
      from tables_child [OF that(1) this, of l] show ?thesis using sib [OF that] by simp
    qed
    moreover have "x \<in> tables l m2 pg \<or> x = p \<or> (\<exists>j<512. \<exists>d. child m p j = Some d \<and> x \<in> tables l m d)"
      using x zero by (auto simp: tables_Suc_iff)
    ultimately show "x \<in> tables (Suc l) m2 p" by auto
  qed
  have w: "pt_wf (Suc l) m2 p"
    using wf zero sib ch p nin de by (auto split: if_splits)
  have "lookup (Suc l) m2 p va = lookup (Suc l) m p va" for va
    using ch [OF PX_less, of "Suc l" va] sib [OF PX_less, of "Suc l" va] zero i
    by (auto split: option.splits)
  with ts w ch [OF i(1)] out show ?thesis by auto
qed

lemma pt_wf_child:
  "pt_wf (Suc l) m p \<Longrightarrow> i < 512 \<Longrightarrow> child m p i = Some c \<Longrightarrow>
   pt_wf l m c \<and> p \<notin> tables l m c \<and> dir_entry m p i"
  by simp

lemma pt_wf_disjoint:
  assumes "pt_wf (Suc l) m p" "i < 512" "j < 512" "child m p i = Some c" "child m p j = Some d"
    and "x \<in> tables l m c" "x \<in> tables l m d"
  shows "i = j"
  using assms by (simp add: disjoint_iff) blast

declare pt_wf.simps(2) [simp del]

section \<open>What walk does\<close>

lemma slot_nonzero: "page_aligned q \<Longrightarrow> q \<noteq> 0 \<Longrightarrow> i < 512 \<Longrightarrow> slot q i \<noteq> 0"
  using slot_page [of q i] by (auto simp: PGROUNDDOWN_def)

text \<open>Only memory and the head of the free list differ.\<close>

definition phys_frame :: "'a phys_scheme \<Rightarrow> 'a phys_scheme \<Rightarrow> bool" where
  "phys_frame s t \<longleftrightarrow> t = s\<lparr>mem := mem t, freelist := freelist t\<rparr>"

lemma phys_frameI [simp, intro]:
  "phys_frame s s" "phys_frame s (s\<lparr>mem := a, freelist := b\<rparr>)" "phys_frame s (s\<lparr>mem := a\<rparr>)"
  "phys_frame s (s\<lparr>freelist := b, mem := a\<rparr>)"
  by (simp_all add: phys_frame_def)

lemma phys_frameD:
  assumes "phys_frame s t"
  shows "held t = held s" "kend t = kend s" "phys.more t = phys.more s"
proof -
  obtain a b where "t = s\<lparr>mem := a, freelist := b\<rparr>" using assms by (auto simp: phys_frame_def)
  then show "held t = held s" "kend t = kend s" "phys.more t = phys.more s" by simp_all
qed

lemma phys_frame_trans [trans]:
  assumes "phys_frame s t" "phys_frame t u"
  shows "phys_frame s u"
proof -
  obtain a b c d where "t = s\<lparr>mem := a, freelist := b\<rparr>" "u = t\<lparr>mem := c, freelist := d\<rparr>"
    using assms unfolding phys_frame_def by blast
  then show ?thesis by simp
qed

text \<open>The state \<open>t\<close> differs from \<open>s\<close> only in the tree at \<open>p\<close>, which has grown by the
  pages \<open>us\<close> taken from the free list but maps the same addresses.\<close>

definition pt_grow :: "nat \<Rightarrow> u64 \<Rightarrow> 'a phys_scheme \<Rightarrow> u64 list \<Rightarrow> 'a phys_scheme \<Rightarrow> u64 list \<Rightarrow> bool" where
  "pt_grow l p s us t qs \<longleftrightarrow>
     phys_frame s t \<and> kmem_inv t qs \<and>
     pt_wf l (mem t) p \<and> tables l (mem t) p = tables l (mem s) p \<union> set us \<and>
     lookup l (mem t) p = lookup l (mem s) p \<and>
     (\<forall>x. PGROUNDDOWN x \<notin> tables l (mem s) p \<union> set us \<longrightarrow> mem t x = mem s x)"

lemma pt_grow_refl: "pt_wf l (mem s) p \<Longrightarrow> kmem_inv s ps \<Longrightarrow> pt_grow l p s [] s ps"
  by (simp add: pt_grow_def)

lemma pt_grow_trans:
  "pt_grow l p s us t qs \<Longrightarrow> pt_grow l p t vs u rs \<Longrightarrow> pt_grow l p s (us @ vs) u rs"
  unfolding pt_grow_def by (auto simp: Un_assoc intro: phys_frame_trans)

lemma pt_grow_child:
  assumes wf: "pt_wf (Suc l) (mem s) p" and i: "i < 512" "child (mem s) p i = Some c"
    and g: "pt_grow l c s us t qs" and U: "set us \<inter> tables (Suc l) (mem s) p = {}"
  shows "pt_grow (Suc l) p s us t qs \<and> child (mem t) p i = Some c"
proof -
  have "pt_wf (Suc l) (mem t) p \<and> tables (Suc l) (mem t) p = tables (Suc l) (mem s) p \<union> set us \<and>
    lookup (Suc l) (mem t) p = lookup (Suc l) (mem s) p \<and> (\<forall>j<512. child (mem t) p j = child (mem s) p j)"
    by (rule subtree_update [OF wf i _ U]) (use g in \<open>auto simp: pt_grow_def\<close>)
  moreover have "mem t x = mem s x" if "PGROUNDDOWN x \<notin> tables (Suc l) (mem s) p \<union> set us" for x
    using g that tables_child [OF i, of l] unfolding pt_grow_def by blast
  ultimately show ?thesis using g i unfolding pt_grow_def by auto
qed

lemma kalloc_link:
  assumes wf: "pt_wf (Suc l) (mem s) p" and i: "i < 512" "child (mem s) p i = None"
    and k: "kmem_inv s (pg # ps)" and D: "set (pg # ps) \<inter> tables (Suc l) (mem s) p = {}"
    and s1: "kalloc s = Ok (r, s1)" and h: "L_kmem \<notin> set (held s)"
    and s2: "s2 = s1\<lparr>mem := store64 (memset (mem s1) pg 0 4096) (slot p i) (PA2PTE pg OR PTE_V)\<rparr>"
  shows "r = pg \<and> pt_grow (Suc l) p s [pg] s2 ps \<and> child (mem s2) p i = Some pg"
proof -
  have s1e: "r = pg" "s1 = s\<lparr>freelist := load64 (mem s) pg, mem := memset (mem s) pg 5 4096\<rparr>"
    using kalloc_Some [OF k h] s1 by auto
  have pg: "page_aligned pg" "pg \<noteq> 0" "pg \<notin> set ps" using k by (auto simp: kmem_inv_def page_ok_def)
  have al: "page_aligned p" "p \<noteq> pg" "p \<notin> set ps"
    using pt_wf_root [OF wf] D tables_root [of p "Suc l" "mem s"] by auto
  have k1: "kmem_inv s1 ps" using kalloc_inv [OF k h] s1 by auto
  have m1: "tables (Suc l) (mem s1) p = tables (Suc l) (mem s) p \<and> pt_wf (Suc l) (mem s1) p \<and>
      leaf_table (Suc l) (mem s1) p = leaf_table (Suc l) (mem s) p \<and>
      lookup (Suc l) (mem s1) p = lookup (Suc l) (mem s) p"
    by (rule tables_frame [OF wf]) (use D pg(1) s1e in \<open>auto simp: memset_page\<close>)
  have ch: "child (mem s1) p i = None"
    using child_cong [OF al(1) i(1), of "mem s1" "mem s"] i(2) al(2) pg(1) s1e by (simp add: memset_page)
  have "pt_wf (Suc l) (mem s2) p \<and> tables (Suc l) (mem s2) p = insert pg (tables (Suc l) (mem s1) p) \<and>
    lookup (Suc l) (mem s2) p = lookup (Suc l) (mem s1) p \<and> child (mem s2) p i = Some pg \<and>
    (\<forall>x. PGROUNDDOWN x \<notin> {p, pg} \<longrightarrow> mem s2 x = mem s1 x)"
    using link_table [OF conjunct1 [OF conjunct2 [OF m1]] i(1) ch pg(1,2)] D
    by (simp add: s2 m1 del: pt_wf.simps lookup_Suc)
  note L = this
  have "kmem_inv s2 ps"
    by (rule kmem_inv_frame [OF k1]) (use L al pg s2 in auto)
  moreover have "mem s2 x = mem s x" if "PGROUNDDOWN x \<notin> tables (Suc l) (mem s) p \<union> {pg}" for x
  proof -
    have "PGROUNDDOWN x \<noteq> p" using that tables_root [of p "Suc l" "mem s"] by blast
    with L that pg(1) s1e show ?thesis by (auto simp: memset_page)
  qed
  ultimately show ?thesis
    using L m1 s1e unfolding pt_grow_def by (auto simp: s2)
qed

definition walk_post :: "nat \<Rightarrow> u64 \<Rightarrow> u64 \<Rightarrow> 'a phys_scheme \<Rightarrow> u64 list \<Rightarrow> u64 \<Rightarrow> 'a phys_scheme \<Rightarrow> bool" where
  "walk_post l p va s ps a t \<longleftrightarrow> (\<exists>us qs. ps = us @ qs \<and> pt_grow l p s us t qs \<and>
    (if a = 0 then qs = [] else \<exists>q. leaf_table l (mem t) p va = Some q \<and> a = slot q (PX 0 va)))"

lemma walk_post_child:
  assumes "walk_post l c va s ps a t" "pt_wf (Suc l) (mem s) p" "child (mem s) p (PX (Suc l) va) = Some c"
    and "set ps \<inter> tables (Suc l) (mem s) p = {}"
  shows "walk_post (Suc l) p va s ps a t"
proof -
  obtain us qs where g: "ps = us @ qs" "pt_grow l c s us t qs"
    "if a = 0 then qs = [] else \<exists>q. leaf_table l (mem t) c va = Some q \<and> a = slot q (PX 0 va)"
    using assms(1) by (auto simp: walk_post_def)
  have "pt_grow (Suc l) p s us t qs \<and> child (mem t) p (PX (Suc l) va) = Some c"
    by (rule pt_grow_child [OF assms(2) PX_less assms(3) g(2)]) (use assms(4) g(1) in auto)
  with g show ?thesis unfolding walk_post_def by (intro exI [of _ us] exI [of _ qs]) auto
qed

lemma walk_post_grow:
  assumes "pt_grow l p s us t qs" "walk_post l p va t qs a u"
  shows "walk_post l p va s (us @ qs) a u"
proof -
  obtain vs rs where g: "qs = vs @ rs" "pt_grow l p t vs u rs"
    "if a = 0 then rs = [] else \<exists>q. leaf_table l (mem u) p va = Some q \<and> a = slot q (PX 0 va)"
    using assms(2) by (auto simp: walk_post_def)
  with pt_grow_trans [OF assms(1) g(2)] show ?thesis
    unfolding walk_post_def by (intro exI [of _ "us @ vs"] exI [of _ rs]) auto
qed

lemma walk_loop_alloc:
  assumes "pt_wf l (mem s) p" "kmem_inv s ps" "set ps \<inter> tables l (mem s) p = {}"
    and "L_kmem \<notin> set (held s)"
  shows "returns (walk_loop l p va True s) (\<lambda>(a, t). walk_post l p va s ps a t)"
  using assms
proof (induction l arbitrary: p s ps)
  case 0
  then have "slot p (PX 0 va) \<noteq> 0" by (intro slot_nonzero) auto
  moreover have "pt_grow 0 p s [] s ps" using 0 by (intro pt_grow_refl)
  ultimately show ?case by (auto simp: walk_post_def intro: exI [of _ "[]"])
next
  case (Suc l)
  let ?i = "PX (Suc l) va"
  show ?case
  proof (cases "child (mem s) p ?i")
    case (Some c)
    have "returns (walk_loop l c va True s) (\<lambda>(a, t). walk_post l c va s ps a t)"
      by (rule Suc.IH) (use Suc.prems pt_wf_child [OF Suc.prems(1) PX_less Some]
        tables_child [OF PX_less Some, of l] in auto)
    moreover have "walk_loop (Suc l) p va True s = walk_loop l c va True s"
      using Some by (auto simp: child_def Let_def split: if_splits)
    ultimately show ?thesis
      using walk_post_child [OF _ Suc.prems(1) Some Suc.prems(3)] by (auto elim!: returns_mono)
  next
    case None
    then have nv: "load64 (mem s) (slot p ?i) AND PTE_V = 0" by (simp add: child_def Let_def split: if_splits)
    show ?thesis
    proof (cases ps)
      case Nil
      then have "pt_grow (Suc l) p s [] s []" using Suc.prems by (intro pt_grow_refl) auto
      with Nil Suc.prems nv show ?thesis by (simp add: kalloc_None walk_post_def)
    next
      case (Cons pg qs)
      obtain s1 where s1: "kalloc s = Ok (pg, s1)"
        using kalloc_Some [of s pg qs] Suc.prems Cons by auto
      define s2 where "s2 = s1\<lparr>mem := store64 (memset (mem s1) pg 0 4096) (slot p ?i) (PA2PTE pg OR PTE_V)\<rparr>"
      have g: "pt_grow (Suc l) p s [pg] s2 qs" "child (mem s2) p ?i = Some pg"
        using kalloc_link [OF Suc.prems(1) PX_less None _ _ s1 Suc.prems(4) s2_def] Suc.prems Cons by auto
      have wf2: "pt_wf (Suc l) (mem s2) p" "held s2 = held s" "kmem_inv s2 qs"
        using g(1) kalloc_Some [of s pg qs] Suc.prems Cons s1 by (auto simp: pt_grow_def s2_def)
      have pg: "pg \<noteq> 0" using Suc.prems(2) Cons by (auto simp: kmem_inv_def page_ok_def)
      have D: "set qs \<inter> tables (Suc l) (mem s2) p = {}"
        using g(1) Suc.prems(2,3) Cons unfolding pt_grow_def by (auto simp: kmem_inv_def)
      have "returns (walk_loop l pg va True s2) (\<lambda>(a, t). walk_post l pg va s2 qs a t)"
        by (rule Suc.IH) (use wf2 D Suc.prems(4) pt_wf_child [OF wf2(1) PX_less g(2)]
          tables_child [OF PX_less g(2), of l] in auto)
      moreover have "walk_loop (Suc l) p va True s = walk_loop l pg va True s2"
        using nv s1 pg by (simp add: s2_def)
      ultimately show ?thesis
        using walk_post_grow [OF g(1) walk_post_child [OF _ wf2(1) g(2) D]] Cons by (auto elim!: returns_mono)
    qed
  qed
qed

text \<open>Without allocation \<^verbatim>\<open>walk\<close> only reads.\<close>

definition leaf_slot :: "nat \<Rightarrow> memory \<Rightarrow> u64 \<Rightarrow> u64 \<Rightarrow> u64" where
  "leaf_slot l m p va = (case leaf_table l m p va of None \<Rightarrow> 0 | Some t \<Rightarrow> slot t (PX 0 va))"

lemma walk_loop_noalloc: "walk_loop l p va False s = Ok (leaf_slot l (mem s) p va, s)"
  by (induction l arbitrary: p) (auto simp: leaf_slot_def child_def Let_def)

lemma walk_noalloc: "va < MAXVA \<Longrightarrow> walk p va False s = Ok (leaf_slot 2 (mem s) p va, s)"
  by (simp add: walk_def walk_loop_noalloc not_le)

lemma leaf_slot_lookup:
  assumes "pt_wf l m p"
  shows "leaf_slot l m p va = 0 \<Longrightarrow> lookup l m p va = 0"
    "leaf_slot l m p va \<noteq> 0 \<Longrightarrow> load64 m (leaf_slot l m p va) = lookup l m p va"
  using slot_nonzero pt_wf_tables [OF assms leaf_table_in [of l m p va]]
  by (fastforce simp: leaf_slot_def lookup_def split: option.splits)+

section \<open>Writing one entry\<close>

lemma leaf_table_inj:
  "pt_wf l m p \<Longrightarrow> leaf_table l m p va = Some t \<Longrightarrow> leaf_table l m p vb = Some t \<Longrightarrow>
   k \<noteq> 0 \<Longrightarrow> k \<le> l \<Longrightarrow> PX k va = PX k vb"
proof (induction l arbitrary: p)
  case (Suc l)
  obtain c d where c: "child m p (PX (Suc l) va) = Some c" "leaf_table l m c va = Some t"
    and d: "child m p (PX (Suc l) vb) = Some d" "leaf_table l m d vb = Some t"
    using Suc.prems(2,3) by (auto split: option.splits)
  have "t \<in> tables l m c" "t \<in> tables l m d" using c d by (auto intro: leaf_table_in)
  then have eq: "PX (Suc l) va = PX (Suc l) vb"
    using pt_wf_disjoint [OF Suc.prems(1) PX_less PX_less c(1) d(1)] by blast
  with Suc c d show ?case
    by (cases "k = Suc l") (auto dest: pt_wf_child [OF _ PX_less])
qed simp

lemma leaf_store:
  assumes "pt_wf l m p" "leaf_table l m p va = Some t"
  shows "tables l (store64 m (slot t (PX 0 va)) v) p = tables l m p \<and>
    pt_wf l (store64 m (slot t (PX 0 va)) v) p \<and>
    leaf_table l (store64 m (slot t (PX 0 va)) v) p = leaf_table l m p"
  using assms
proof (induction l arbitrary: p)
  case (Suc l)
  let ?m = "store64 m (slot t (PX 0 va)) v" and ?i = "PX (Suc l) va"
  obtain c where c: "child m p ?i = Some c" "leaf_table l m c va = Some t"
    using Suc.prems(2) by (auto split: option.splits)
  note wc = pt_wf_child [OF Suc.prems(1) PX_less c(1)]
  have tc: "t \<in> tables l m c" using c(2) by (rule leaf_table_in)
  have t: "page_aligned t" "t \<noteq> p" using pt_wf_tables [OF _ tc] wc tc by auto
  have out: "?m x = m x" if "PGROUNDDOWN x \<noteq> t" for x
    using t that by (simp add: store64_slot_page)
  have ch: "child ?m p j = child m p j" if "j < 512" for j
    using pt_wf_root [OF Suc.prems(1)] that t by (intro child_cong out) auto
  have de: "dir_entry ?m p j = dir_entry m p j" if "j < 512" for j
    using pt_wf_root [OF Suc.prems(1)] that t by (intro dir_entry_cong out) auto
  have sub: "tables l ?m d = tables l m d \<and> pt_wf l ?m d \<and> leaf_table l ?m d = leaf_table l m d"
    if d: "j < 512" "child m p j = Some d" for j d
  proof (cases "j = ?i")
    case True
    with c d wc Suc.IH show ?thesis by auto
  next
    case False
    then have "t \<notin> tables l m d" using pt_wf_disjoint [OF Suc.prems(1) d(1) PX_less d(2) c(1)] tc by blast
    then have "?m x = m x" if "PGROUNDDOWN x \<in> tables l m d" for x
      using that by (intro out) auto
    with pt_wf_child [OF Suc.prems(1) d] show ?thesis using tables_frame [of l m d ?m] by blast
  qed
  have "tables (Suc l) ?m p = tables (Suc l) m p"
    using ch sub by (auto simp: tables_Suc_iff)
  moreover have "pt_wf (Suc l) ?m p"
    using Suc.prems(1) ch sub de by (simp add: pt_wf.simps)
  moreover have "leaf_table (Suc l) ?m p = leaf_table (Suc l) m p"
    using ch sub [OF PX_less] by (auto simp: fun_eq_iff split: option.splits)
  ultimately show ?case by blast
qed (simp add: fun_eq_iff)

definition same_page :: "nat \<Rightarrow> u64 \<Rightarrow> u64 \<Rightarrow> bool" where
  "same_page l va vb \<longleftrightarrow> (\<forall>k\<le>l. PX k va = PX k vb)"

lemma lookup_store:
  assumes wf: "pt_wf l m p" and t: "leaf_table l m p va = Some t"
  shows "lookup l (store64 m (slot t (PX 0 va)) v) p vb =
    (if same_page l va vb then v else lookup l m p vb)"
proof -
  have tl: "page_aligned t" using pt_wf_tables [OF wf leaf_table_in [OF t]] by simp
  note L = leaf_store [OF wf t, of v]
  show ?thesis
  proof (cases "leaf_table l m p vb")
    case None
    moreover have "leaf_table l m p vb = Some t" if "same_page l va vb"
      using t that unfolding same_page_def by (induction l arbitrary: p) (auto split: option.splits)
    ultimately show ?thesis using L by (auto simp: lookup_def)
  next
    case (Some u)
    have u: "page_aligned u" using pt_wf_tables [OF wf leaf_table_in [OF Some]] by simp
    have eq: "t = u" if "same_page l va vb"
    proof -
      have "leaf_table l m p va = leaf_table l m p vb"
        using that unfolding same_page_def by (induction l arbitrary: p) (auto split: option.splits)
      with t Some show ?thesis by simp
    qed
    have "same_page l va vb" if "t = u" "PX 0 va = PX 0 vb"
      unfolding same_page_def using leaf_table_inj [OF wf t] Some that by (metis neq0_conv)
    moreover have "PX 0 va = PX 0 vb" if "same_page l va vb" using that by (simp add: same_page_def)
    ultimately show ?thesis
      using L Some tl u eq by (auto simp: lookup_def load64_store64_slot)
  qed
qed

lemma bit_eq_take_bit:
  fixes a b :: u64
  assumes "take_bit n (drop_bit k a) = take_bit n (drop_bit k b)" "k \<le> i" "i < k + n"
  shows "bit a i = bit b i"
proof -
  have "bit (take_bit n (drop_bit k a)) (i - k) = bit (take_bit n (drop_bit k b)) (i - k)"
    using assms(1) by simp
  moreover have "i - k < n" using assms(2,3) by linarith
  ultimately show ?thesis using assms(2) by (simp add: bit_simps)
qed

lemma PX_take_bit: "PX k va = unat (take_bit 9 (drop_bit (PXSHIFT k) va))"
  by (simp add: PX_def take_bit_eq_mask mask_eq_exp_minus_1)

text \<open>Addresses the hardware can translate have 39 bits; the kernel uses half of them.\<close>

definition sv39 :: "u64 \<Rightarrow> bool" where
  "sv39 va \<longleftrightarrow> unat va < 2 ^ 39"

lemma sv39_MAXVA: "va < MAXVA \<Longrightarrow> sv39 va"
  by (simp add: sv39_def word_less_nat_alt MAXVA_def)

lemma same_page_iff:
  assumes "sv39 va" "sv39 vb"
  shows "same_page 2 va vb \<longleftrightarrow> PGROUNDDOWN va = PGROUNDDOWN vb"
proof
  have hi: "\<not> bit v i" if "sv39 v" "39 \<le> i" for v :: u64 and i
  proof -
    have "take_bit 39 v = v"
      using that(1) by (simp add: word_unat_eq_iff unsigned_take_bit_eq take_bit_nat_eq_self
          sv39_def)
    then show ?thesis using that(2) by (metis bit_take_bit_iff not_less)
  qed
  assume "same_page 2 va vb"
  then have px: "take_bit 9 (drop_bit (PXSHIFT k) va) = take_bit 9 (drop_bit (PXSHIFT k) vb)" if "k \<le> 2" for k
    using that by (simp add: same_page_def PX_take_bit word_unat_eq_iff)
  have b: "bit va i = bit vb i" if "12 \<le> i" for i
  proof -
    consider "i < 21" | "21 \<le> i" "i < 30" | "30 \<le> i" "i < 39" | "39 \<le> i" by linarith
    then show ?thesis
      using bit_eq_take_bit [of 9 12 va vb i] bit_eq_take_bit [of 9 21 va vb i]
        bit_eq_take_bit [of 9 30 va vb i] hi [OF assms(1), of i] hi [OF assms(2), of i] that
        px [of 0] px [of 1] px [of 2]
      by cases (simp_all add: PXSHIFT_def)
  qed
  show "PGROUNDDOWN va = PGROUNDDOWN vb"
    unfolding PGROUNDDOWN_shift by (rule bit_word_eqI) (use b in \<open>auto simp: bit_simps\<close>)
next
  assume eq: "PGROUNDDOWN va = PGROUNDDOWN vb"
  have "bit va i = bit vb i" if "12 \<le> i" for i
    using arg_cong [OF eq, of "\<lambda>w. bit w i"] that unfolding PGROUNDDOWN_shift by (auto simp: bit_simps dest: bit_imp_le_length)
  then show "same_page 2 va vb"
    unfolding same_page_def PX_take_bit
    by (intro allI impI arg_cong [of _ _ unat] bit_word_eqI) (auto simp: bit_simps PXSHIFT_def)
qed

end
