(* ===== verification/Vm_Map.thy ===== *)
theory Vm_Map
  imports Pt_Tree
begin

text \<open>
  Mapping ranges of pages: what \<^verbatim>\<open>mappages\<close> does to the entries, to the free list and
  to memory, and a small concrete address space.
\<close>

section \<open>Mapping a range\<close>

text \<open>A page table rooted at \<open>p\<close> and a free list \<open>ps\<close> that do not overlap.\<close>

definition pt_ok :: "'a phys_scheme \<Rightarrow> u64 \<Rightarrow> u64 list \<Rightarrow> bool" where
  "pt_ok s p ps \<longleftrightarrow> pt_wf 2 (mem s) p \<and> kmem_inv s ps \<and> set ps \<inter> tables 2 (mem s) p = {} \<and>
     L_kmem \<notin> set (held s)"

text \<open>The tables at \<open>p\<close> may have grown by the pages \<open>us\<close> and entries may have changed;
  nothing else has.\<close>

definition pt_step :: "u64 \<Rightarrow> 'a phys_scheme \<Rightarrow> u64 list \<Rightarrow> 'a phys_scheme \<Rightarrow> u64 list \<Rightarrow> bool" where
  "pt_step p s us t qs \<longleftrightarrow>
     phys_frame s t \<and> pt_ok t p qs \<and> tables 2 (mem t) p = tables 2 (mem s) p \<union> set us \<and>
     (\<forall>x. PGROUNDDOWN x \<notin> tables 2 (mem s) p \<union> set us \<longrightarrow> mem t x = mem s x)"

lemma pt_step_trans: "pt_step p s us t qs \<Longrightarrow> pt_step p t vs u rs \<Longrightarrow> pt_step p s (us @ vs) u rs"
  unfolding pt_step_def by (auto simp: Un_assoc intro: phys_frame_trans)

lemma pt_step_refl: "pt_ok s p ps \<Longrightarrow> pt_step p s [] s ps"
  by (simp add: pt_step_def)

lemma pt_step_ok: "pt_step p s us t qs \<Longrightarrow> pt_ok t p qs"
  by (simp add: pt_step_def)

lemma pt_grow_step:
  assumes "pt_ok s p (us @ qs)" "pt_grow 2 p s us t qs"
  shows "pt_step p s us t qs"
  using assms phys_frameD [of s t] unfolding pt_step_def pt_grow_def pt_ok_def
  by (auto simp: kmem_inv_def)

lemma leaf_store_step:
  assumes ok: "pt_ok s p ps" and t: "leaf_table 2 (mem s) p va = Some q"
  shows "pt_step p s [] (s\<lparr>mem := store64 (mem s) (slot q (PX 0 va)) v\<rparr>) ps"
proof -
  let ?m = "store64 (mem s) (slot q (PX 0 va)) v"
  have q: "q \<in> tables 2 (mem s) p" using t by (rule leaf_table_in)
  have al: "page_aligned q" using ok pt_wf_tables [OF _ q] by (simp add: pt_ok_def)
  have out: "?m x = mem s x" if "PGROUNDDOWN x \<noteq> q" for x
    using al that by (simp add: store64_slot_page)
  have "kmem_inv (s\<lparr>mem := ?m\<rparr>) ps"
  proof (rule kmem_inv_frame [of s])
    have "q \<notin> set ps" using ok q by (auto simp: pt_ok_def)
    then show "mem (s\<lparr>mem := ?m\<rparr>) x = mem s x" if "PGROUNDDOWN x \<in> set ps" for x
      using out [of x] that by auto
  qed (use ok in \<open>auto simp: pt_ok_def\<close>)
  moreover have "?m x = mem s x" if "PGROUNDDOWN x \<notin> tables 2 (mem s) p" for x
    using that q by (intro out) auto
  ultimately show ?thesis
    using ok leaf_store [of 2 "mem s" p va q v] t by (auto simp: pt_step_def pt_ok_def)
qed

lemma walk_alloc:
  assumes ok: "pt_ok s p ps" and va: "va < MAXVA"
  obtains a t us qs where "walk p va True s = Ok (a, t)" "ps = us @ qs" "pt_step p s us t qs"
    "lookup 2 (mem t) p = lookup 2 (mem s) p" "a = 0 \<Longrightarrow> qs = []"
    "a \<noteq> 0 \<Longrightarrow> \<exists>q. leaf_table 2 (mem t) p va = Some q \<and> a = slot q (PX 0 va)"
proof -
  have "returns (walk_loop 2 p va True s) (\<lambda>(a, t). walk_post 2 p va s ps a t)"
    by (rule walk_loop_alloc) (use ok in \<open>auto simp: pt_ok_def\<close>)
  moreover have "walk p va True s = walk_loop 2 p va True s" using va by (auto simp: walk_def)
  ultimately obtain a t where w: "walk p va True s = Ok (a, t)" "walk_post 2 p va s ps a t"
    by (auto elim: returnsE)
  obtain us qs where g: "ps = us @ qs" "pt_grow 2 p s us t qs"
    "if a = 0 then qs = [] else \<exists>q. leaf_table 2 (mem t) p va = Some q \<and> a = slot q (PX 0 va)"
    using w(2) by (auto simp: walk_post_def)
  show ?thesis
  proof (rule that [OF w(1) g(1)])
    show "pt_step p s us t qs" using ok g by (intro pt_grow_step) auto
  qed (use g in \<open>auto simp: pt_grow_def split: if_splits\<close>)
qed

text \<open>The entries after mapping \<open>k\<close> pages from \<open>va\<close> to \<open>pa\<close>.\<close>

definition map_range :: "u64 \<Rightarrow> nat \<Rightarrow> u64 \<Rightarrow> u64 \<Rightarrow> (u64 \<Rightarrow> u64) \<Rightarrow> u64 \<Rightarrow> u64" where
  "map_range va k pa perm f vb =
     (let b = PGROUNDDOWN vb
      in if unat va \<le> unat b \<and> unat b < unat va + 4096 * k then PA2PTE (pa + (b - va)) OR perm OR PTE_V
         else f vb)"

lemma unat_va_plus:
  assumes "unat va + 4096 * Suc n \<le> unat MAXVA"
  shows "unat (va + PGSIZE) = unat va + 4096"
  using assms by (simp add: PGSIZE_def unat_word_ariths MAXVA_def)

lemma map_range_Suc:
  assumes "page_aligned va" "unat va + 4096 * Suc n \<le> unat MAXVA" "k \<le> n"
  shows "map_range (va + PGSIZE) k (pa + PGSIZE) perm
      (\<lambda>vb. if PGROUNDDOWN vb = va then PA2PTE pa OR perm OR PTE_V else f vb) vb =
    map_range va (Suc k) pa perm f vb"
proof -
  note u = unat_va_plus [OF assms(2)]
  obtain i j where "unat va = 4096 * i" "unat (PGROUNDDOWN vb) = 4096 * j"
    using assms(1) by (auto simp: page_aligned_unat unat_PGROUNDDOWN)
  moreover from this have "PGROUNDDOWN vb = va \<longleftrightarrow> i = j" by (auto simp: word_unat_eq_iff)
  ultimately show ?thesis
    unfolding map_range_def Let_def u by (cases "PGROUNDDOWN vb = va") auto
qed

lemma map_range_0 [simp]: "map_range va 0 pa perm f = f"
  by (auto simp: map_range_def fun_eq_iff Let_def)

text \<open>What a call has done: \<open>k\<close> of the \<open>n\<close> pages are mapped, all of them when it
  returns 0, and when it returns \<open>-1\<close> there is no free page left.\<close>

definition mapped :: "u64 \<Rightarrow> u64 \<Rightarrow> nat \<Rightarrow> u64 \<Rightarrow> u64 \<Rightarrow> 'a phys_scheme \<Rightarrow> u64 list \<Rightarrow> int \<Rightarrow> 'a phys_scheme \<Rightarrow> bool"
where
  "mapped p va n pa perm s ps r t \<longleftrightarrow> (\<exists>us qs k. ps = us @ qs \<and> pt_step p s us t qs \<and>
     (\<forall>vb. sv39 vb \<longrightarrow> lookup 2 (mem t) p vb = map_range va k pa perm (lookup 2 (mem s) p) vb) \<and>
     (r = 0 \<and> k = n \<or> r = -1 \<and> k < n \<and> qs = []))"

lemma mappages_one:
  fixes pa perm :: u64
  defines "v \<equiv> PA2PTE pa OR perm OR PTE_V"
  assumes ok: "pt_ok s p ps" and va: "page_aligned va" "va < MAXVA"
    and free: "lookup 2 (mem s) p va AND PTE_V = 0"
  obtains t where "walk p va True s = Ok (0, t)" "\<And>n. mapped p va (Suc n) pa perm s ps (-1) t"
  | a t us qs where "walk p va True s = Ok (a, t)" "a \<noteq> 0" "load64 (mem t) a AND PTE_V = 0"
      "ps = us @ qs" "pt_step p s us (t\<lparr>mem := store64 (mem t) a v\<rparr>) qs"
      "\<forall>vb. sv39 vb \<longrightarrow> lookup 2 (store64 (mem t) a v) p vb =
        (if PGROUNDDOWN vb = va then v else lookup 2 (mem s) p vb)"
proof (rule walk_alloc [OF ok va(2)])
  fix a t us qs
  assume w: "walk p va True s = Ok (a, t)"
    and g: "ps = us @ qs" "pt_step p s us t qs" "lookup 2 (mem t) p = lookup 2 (mem s) p"
    and a: "a = 0 \<Longrightarrow> qs = []" "a \<noteq> 0 \<Longrightarrow> \<exists>q. leaf_table 2 (mem t) p va = Some q \<and> a = slot q (PX 0 va)"
  show thesis
  proof (cases "a = 0")
    case True
    have "mapped p va (Suc n) pa perm s ps (-1) t" for n
      unfolding mapped_def
      by (rule exI [of _ us], rule exI [of _ qs], rule exI [of _ 0]) (use True a(1) g in auto)
    with True w show thesis using that(1) by blast
  next
    case False
    then obtain q where q: "leaf_table 2 (mem t) p va = Some q" "a = slot q (PX 0 va)" using a by auto
    have wf: "pt_wf 2 (mem t) p" using pt_step_ok [OF g(2)] by (simp add: pt_ok_def)
    have "load64 (mem t) a = lookup 2 (mem t) p va" using q by (simp add: lookup_def)
    moreover have "pt_step p s (us @ []) (t\<lparr>mem := store64 (mem t) a v\<rparr>) qs"
      unfolding q(2) by (rule pt_step_trans [OF g(2) leaf_store_step [OF pt_step_ok [OF g(2)] q(1)]])
    moreover have "lookup 2 (store64 (mem t) a v) p vb =
        (if PGROUNDDOWN vb = va then v else lookup 2 (mem s) p vb)" if "sv39 vb" for vb
      using lookup_store [OF wf q(1), of v vb] same_page_iff [OF sv39_MAXVA [OF va(2)] that] va(1) g(3) q(2) by auto
    ultimately show thesis using that(2) [OF w False _ g(1)] free g(3) by auto
  qed
qed

lemma mapped_Suc:
  assumes va: "page_aligned va" "unat va + 4096 * Suc n \<le> unat MAXVA"
    and one: "pt_step p s us t qs" "\<forall>vb. sv39 vb \<longrightarrow> lookup 2 (mem t) p vb =
      (if PGROUNDDOWN vb = va then PA2PTE pa OR perm OR PTE_V else lookup 2 (mem s) p vb)"
    and rest: "mapped p (va + PGSIZE) n (pa + PGSIZE) perm t qs r u"
  shows "mapped p va (Suc n) pa perm s (us @ qs) r u"
proof -
  obtain vs rs k where g: "qs = vs @ rs" "pt_step p t vs u rs" and k: "r = 0 \<and> k = n \<or> r = -1 \<and> k < n \<and> rs = []"
    and l: "\<And>vb. sv39 vb \<Longrightarrow> lookup 2 (mem u) p vb =
        map_range (va + PGSIZE) k (pa + PGSIZE) perm (lookup 2 (mem t) p) vb"
    using rest by (auto simp: mapped_def)
  have "lookup 2 (mem u) p vb = map_range va (Suc k) pa perm (lookup 2 (mem s) p) vb" if "sv39 vb" for vb
  proof -
    have "map_range (va + PGSIZE) k (pa + PGSIZE) perm (lookup 2 (mem t) p) vb =
        map_range (va + PGSIZE) k (pa + PGSIZE) perm
          (\<lambda>vb. if PGROUNDDOWN vb = va then PA2PTE pa OR perm OR PTE_V else lookup 2 (mem s) p vb) vb"
      using one(2) that by (simp add: map_range_def Let_def)
    also have "\<dots> = map_range va (Suc k) pa perm (lookup 2 (mem s) p) vb"
      by (rule map_range_Suc [OF va]) (use k in auto)
    finally show ?thesis using l [OF that] by simp
  qed
  with g k pt_step_trans [OF one(1) g(2)] show ?thesis
    unfolding mapped_def by (intro exI [of _ "us @ vs"] exI [of _ rs] exI [of _ "Suc k"]) auto
qed

lemma mappages_loop_maps:
  assumes "pt_ok s p ps" "page_aligned va" "unat va + 4096 * Suc n \<le> unat MAXVA"
    and "\<forall>i\<le>n. lookup 2 (mem s) p (va + of_nat (4096 * i)) AND PTE_V = 0"
  shows "returns (mappages_loop (Suc n) p va (va + of_nat (4096 * n)) pa perm s)
    (\<lambda>(r, t). mapped p va (Suc n) pa perm s ps r t)"
  using assms
proof (induction n arbitrary: va pa s ps)
  case 0
  have va: "va < MAXVA" using "0.prems"(3) by (simp add: word_less_nat_alt)
  have free: "lookup 2 (mem s) p va AND PTE_V = 0" using "0.prems"(4) by simp
  show ?case
  proof (rule mappages_one [OF "0.prems"(1,2) va free, of pa perm])
    fix a us qs and t :: "'a phys_scheme"
    let ?t = "t\<lparr>mem := store64 (mem t) a (PA2PTE pa OR perm OR PTE_V)\<rparr>"
    assume w: "walk p va True s = Ok (a, t)" "a \<noteq> 0" "load64 (mem t) a AND PTE_V = 0"
      and g: "ps = us @ qs" "pt_step p s us ?t qs"
        "\<forall>vb. sv39 vb \<longrightarrow> lookup 2 (store64 (mem t) a (PA2PTE pa OR perm OR PTE_V)) p vb =
          (if PGROUNDDOWN vb = va then PA2PTE pa OR perm OR PTE_V else lookup 2 (mem s) p vb)"
    have "mapped p (va + PGSIZE) 0 (pa + PGSIZE) perm ?t qs 0 ?t"
      using pt_step_refl [OF pt_step_ok [OF g(2)]] by (auto simp: mapped_def)
    from mapped_Suc [OF "0.prems"(2,3) g(2) _ this] g w show ?thesis by simp
  qed auto
next
  case (Suc n)
  have va: "va < MAXVA" using Suc.prems(3) by (simp add: word_less_nat_alt)
  have free: "lookup 2 (mem s) p va AND PTE_V = 0" using Suc.prems(4) by auto
  note u = unat_va_plus [OF Suc.prems(3)]
  have ne: "va \<noteq> va + of_nat (4096 * Suc n)"
    using unat_add_of_nat [of va "4096 * Suc n"] Suc.prems(3) by (auto simp: MAXVA_def)
  show ?case
  proof (rule mappages_one [OF Suc.prems(1,2) va free, of pa perm])
    fix a us qs and t :: "'a phys_scheme"
    let ?t = "t\<lparr>mem := store64 (mem t) a (PA2PTE pa OR perm OR PTE_V)\<rparr>"
    assume w: "walk p va True s = Ok (a, t)" "a \<noteq> 0" "load64 (mem t) a AND PTE_V = 0"
      and g: "ps = us @ qs" "pt_step p s us ?t qs"
        "\<forall>vb. sv39 vb \<longrightarrow> lookup 2 (store64 (mem t) a (PA2PTE pa OR perm OR PTE_V)) p vb =
          (if PGROUNDDOWN vb = va then PA2PTE pa OR perm OR PTE_V else lookup 2 (mem s) p vb)"
    have next_free: "lookup 2 (mem ?t) p (va + PGSIZE + of_nat (4096 * i)) AND PTE_V = 0" if "i \<le> n" for i
    proof -
      let ?vb = "va + of_nat (4096 * Suc i)"
      have ub: "unat ?vb = unat va + 4096 * Suc i"
        by (rule unat_add_of_nat) (use Suc.prems(3) that in \<open>simp add: MAXVA_def\<close>)
      then have "page_aligned ?vb" "sv39 ?vb" "?vb \<noteq> va"
        using Suc.prems(2,3) that by (auto simp: page_aligned_unat sv39_def MAXVA_def mod_add_eq)
      then have "lookup 2 (mem ?t) p ?vb = lookup 2 (mem s) p ?vb" using g(3) by simp
      moreover have "?vb = va + PGSIZE + of_nat (4096 * i)" by (simp add: PGSIZE_def algebra_simps)
      ultimately show ?thesis using Suc.prems(4) that by (metis Suc_le_mono)
    qed
    have "returns (mappages_loop (Suc n) p (va + PGSIZE) (va + PGSIZE + of_nat (4096 * n)) (pa + PGSIZE) perm ?t)
        (\<lambda>(r, u). mapped p (va + PGSIZE) (Suc n) (pa + PGSIZE) perm ?t qs r u)"
      by (rule Suc.IH [OF pt_step_ok [OF g(2)]])
        (use Suc.prems(2,3) u next_free in \<open>auto simp: page_aligned_unat\<close>)
    moreover have "va + PGSIZE + of_nat (4096 * n) = va + of_nat (4096 * Suc n)"
      by (simp add: PGSIZE_def algebra_simps)
    ultimately show ?thesis
      using w ne mapped_Suc [OF Suc.prems(2,3) g(2)] g(1,3)
      by (subst mappages_loop.simps) (auto simp del: mappages_loop.simps of_nat_mult elim!: returns_mono)
  qed auto
qed

text \<open>C5. \<^verbatim>\<open>mappages\<close> on a well-formed page table: it returns, never by a panic when the
  range is unmapped; on 0 the \<open>n\<close> pages of the range translate to consecutive
  physical pages with the requested permissions, every other address keeps its
  entry, the table pages stay pairwise distinct and apart from the free list, and
  no memory outside the page table and the pages it took is written. It returns
  \<open>-1\<close> only when it has used up the free list.\<close>

theorem mappages_maps:
  assumes "pt_ok s p ps" "page_aligned va" "0 < n" "unat va + 4096 * n \<le> unat MAXVA"
    and "\<forall>i<n. lookup 2 (mem s) p (va + of_nat (4096 * i)) AND PTE_V = 0"
  shows "returns (mappages p va (of_nat (4096 * n)) pa perm s)
    (\<lambda>(r, t). mapped p va n pa perm s ps r t)"
proof -
  obtain k where k: "n = Suc k" using assms(3) by (cases n) auto
  have n: "unat (of_nat (4096 * n) :: u64) = 4096 * n"
    using assms(4) by (intro unat_of_nat_small) (simp add: MAXVA_def)
  have "va + of_nat (4096 * n) - PGSIZE = va + of_nat (4096 * k)"
    by (simp add: k PGSIZE_def algebra_simps)
  moreover have "(of_nat (4096 * n) :: u64) mod PGSIZE = 0" "(of_nat (4096 * n) :: u64) \<noteq> 0"
    using n assms(3) by (auto simp: word_unat_eq_iff unat_mod_distrib PGSIZE_def simp del: of_nat_mult)
  ultimately have "mappages p va (of_nat (4096 * n)) pa perm s =
      mappages_loop (Suc k) p va (va + of_nat (4096 * k)) pa perm s"
    using assms(2) n by (simp add: mappages_def page_aligned_def k del: mappages_loop.simps of_nat_mult)
  then show ?thesis
    using mappages_loop_maps [of s p ps va k pa perm] assms k by (simp del: mappages_loop.simps of_nat_mult)
qed

section \<open>A concrete address space\<close>

text \<open>A small address space: one user page at virtual address 0, and two free pages.\<close>

definition demo_mem :: memory where
  "demo_mem =
     store64 (store64 (store64 (store64 (\<lambda>_. 0)
       (slot 0x80100000 0) 0x80101000)
       (slot 0x80102000 0) (PA2PTE 0x80103000 OR PTE_V))
       (slot 0x80103000 0) (PA2PTE 0x80104000 OR PTE_V))
       (slot 0x80104000 0) (PA2PTE 0x80105000 OR (PTE_R OR PTE_W OR PTE_U OR PTE_V))"

definition demo_state :: phys where
  "demo_state = \<lparr>held = [], mem = demo_mem, freelist = 0x80100000, kend = 0x80000000\<rparr>"

lemma demo_load:
  "page_aligned p \<Longrightarrow> i < 512 \<Longrightarrow> load64 demo_mem (slot p i) =
    (if i \<noteq> 0 then 0 else if p = 0x80104000 then PA2PTE 0x80105000 OR (PTE_R OR PTE_W OR PTE_U OR PTE_V)
     else if p = 0x80103000 then PA2PTE 0x80104000 OR PTE_V
     else if p = 0x80102000 then PA2PTE 0x80103000 OR PTE_V
     else if p = 0x80100000 then 0x80101000 else 0)"
proof -
  have z: "load64 (\<lambda>_. 0) a = 0" for a by (simp add: load64_def load_bytes_def upt_rec)
  show "page_aligned p \<Longrightarrow> i < 512 \<Longrightarrow> ?thesis"
    unfolding demo_mem_def
    by (subst load64_store64_slot load64_store64_slot; simp add: page_aligned_unat z load64_store64_slot del: slot_0)
qed

lemma demo_child:
  "page_aligned p \<Longrightarrow> i < 512 \<Longrightarrow> p \<noteq> 0x80100000 \<Longrightarrow> child demo_mem p i =
    (if i \<noteq> 0 then None else if p = 0x80104000 then Some 0x80105000
     else if p = 0x80103000 then Some 0x80104000 else if p = 0x80102000 then Some 0x80103000 else None)"
  by (simp add: child_def demo_load page_aligned_unat PTE2PA_PA2PTE)
     (simp add: pte_bits PA2PTE_def PTE2PA_def)

lemma tables_one:
  assumes "\<And>i. i < 512 \<Longrightarrow> child m p i = (if i = 0 then Some c else None)"
  shows "tables (Suc l) m p = insert p (tables l m c)"
proof (intro set_eqI iffI)
  fix x assume "x \<in> insert p (tables l m c)"
  moreover have "child m p 0 = Some c" "0 < (512 :: nat)" using assms [of 0] by simp_all
  ultimately show "x \<in> tables (Suc l) m p" unfolding tables_Suc_iff by blast
qed (auto simp: tables_Suc_iff assms split: if_splits)

lemma demo_tables:
  "tables (Suc 0) demo_mem 0x80103000 = {0x80103000, 0x80104000}"
  "tables 2 demo_mem 0x80102000 = {0x80102000, 0x80103000, 0x80104000}"
proof -
  have al: "page_aligned 0x80102000" "page_aligned 0x80103000" by (simp_all add: page_aligned_unat)
  show t1: "tables (Suc 0) demo_mem 0x80103000 = {0x80103000, 0x80104000}"
    using al by (subst tables_one [of _ _ "0x80104000"]) (simp_all add: demo_child)
  show "tables 2 demo_mem 0x80102000 = {0x80102000, 0x80103000, 0x80104000}"
    unfolding numeral_2_eq_2 using al t1 by (subst tables_one [of _ _ "0x80103000"]) (simp_all add: demo_child)
qed

lemma demo_wf: "pt_wf 2 demo_mem 0x80102000"
proof -
  have al: "page_aligned 0x80102000" "page_aligned 0x80103000" "page_aligned 0x80104000"
    by (simp_all add: page_aligned_unat)
  then have de: "dir_entry demo_mem 0x80102000 0" "dir_entry demo_mem 0x80103000 0"
    by (auto intro: dir_entry_table [of "0x80103000"] dir_entry_table [of "0x80104000"]
        simp del: slot_0 simp: demo_load)
  from al de have "pt_wf (Suc 0) demo_mem 0x80103000" by (simp add: pt_wf.simps demo_child)
  with al de show ?thesis
    unfolding numeral_2_eq_2 by (simp add: pt_wf.simps(2) [of "Suc 0"] demo_child demo_tables)
qed

lemma demo_lookup:
  assumes "sv39 va"
  shows "lookup 2 demo_mem 0x80102000 va =
    (if PGROUNDDOWN va = 0 then PA2PTE 0x80105000 OR (PTE_R OR PTE_W OR PTE_U OR PTE_V) else 0)"
proof -
  have al: "page_aligned 0x80102000" "page_aligned 0x80103000" "page_aligned 0x80104000"
    by (simp_all add: page_aligned_unat)
  have z: "PX k 0 = 0" for k by (simp add: PX_def)
  have "same_page 2 va 0 \<longleftrightarrow> PGROUNDDOWN va = 0"
    using same_page_iff [OF assms, of 0] by (simp add: sv39_def PGROUNDDOWN_def)
  moreover have "same_page 2 va 0 \<longleftrightarrow> PX 2 va = 0 \<and> PX 1 va = 0 \<and> PX 0 va = 0"
    by (auto simp: same_page_def z numeral_2_eq_2 le_Suc_eq)
  moreover have "lookup 2 demo_mem 0x80102000 va =
      (if PX 2 va = 0 \<and> PX 1 va = 0 \<and> PX 0 va = 0
       then PA2PTE 0x80105000 OR (PTE_R OR PTE_W OR PTE_U OR PTE_V) else 0)"
    using al unfolding numeral_2_eq_2 by (simp add: demo_child demo_load del: slot_0)
  ultimately show ?thesis by simp
qed

lemma demo_pt_ok: "pt_ok demo_state 0x80102000 [0x80100000, 0x80101000]"
proof -
  have "load64 demo_mem (slot 0x80100000 0) = 0x80101000" "load64 demo_mem (slot 0x80101000 0) = 0"
    by (subst demo_load; simp add: page_aligned_unat)+
  then show ?thesis
    by (simp add: pt_ok_def demo_state_def demo_wf demo_tables kmem_inv_def page_ok_def
        page_aligned_unat PHYSTOP_def KERNBASE_def)
qed

theorem mappages_maps_witness:
  "returns (mappages 0x80102000 0x1000 8192 0x80200000 PTE_R demo_state)
    (\<lambda>(r, t). mapped 0x80102000 0x1000 2 0x80200000 PTE_R demo_state [0x80100000, 0x80101000] r t)"
proof -
  have "lookup 2 demo_mem 0x80102000 (0x1000 + of_nat (4096 * i)) = 0" if "i < 2" for i
  proof -
    have "i = 0 \<or> i = 1" using that by auto
    then show ?thesis by (auto simp: demo_lookup sv39_def PGROUNDDOWN_def PGSIZE_def)
  qed
  then show ?thesis
    using mappages_maps [OF demo_pt_ok, of "0x1000" 2 "0x80200000" PTE_R]
    by (simp add: page_aligned_unat MAXVA_def demo_state_def)
qed

end
