(* ===== verification/Vm_Copy.thy ===== *)
theory Vm_Copy
  imports Vm_Map
begin

text \<open>
  The user's view of memory through a page table, and the copies between kernel
  and user memory as reads and updates of that view.
\<close>

section \<open>The user view of memory\<close>

definition user_page :: "memory \<Rightarrow> u64 \<Rightarrow> u64 \<Rightarrow> u64 option" where
  "user_page m p va =
     (let pte = lookup 2 m p va
      in if va < MAXVA \<and> pte AND PTE_V \<noteq> 0 \<and> pte AND PTE_U \<noteq> 0 then Some (PTE2PA pte) else None)"

definition uview :: "memory \<Rightarrow> u64 \<Rightarrow> u64 \<Rightarrow> u8 option" where
  "uview m p va = map_option (\<lambda>pa. m (pa + (va - PGROUNDDOWN va))) (user_page m p va)"

definition uwritable :: "memory \<Rightarrow> u64 \<Rightarrow> u64 \<Rightarrow> bool" where
  "uwritable m p va \<longleftrightarrow> user_page m p va \<noteq> None \<and> lookup 2 m p va AND PTE_W \<noteq> 0"

text \<open>User pages are apart from the table pages, and no physical page serves two user
  pages.\<close>

definition uvm_ok :: "memory \<Rightarrow> u64 \<Rightarrow> bool" where
  "uvm_ok m p \<longleftrightarrow> pt_wf 2 m p \<and>
     (\<forall>va pa. user_page m p va = Some pa \<longrightarrow> pa \<notin> tables 2 m p \<and> pa \<noteq> 0) \<and>
     (\<forall>va vb pa. user_page m p va = Some pa \<longrightarrow> user_page m p vb = Some pa \<longrightarrow>
        PGROUNDDOWN va = PGROUNDDOWN vb)"

lemma page_aligned_PTE2PA [simp]: "page_aligned (PTE2PA pte)"
proof -
  have "PTE2PA pte = PGROUNDDOWN (PTE2PA pte)"
    unfolding PGROUNDDOWN_shift PTE2PA_def by (rule bit_word_eqI) (auto simp: bit_simps)
  then show ?thesis by (metis page_aligned_PGROUNDDOWN)
qed

lemma user_page_aligned: "user_page m p va = Some pa \<Longrightarrow> page_aligned pa"
  by (auto simp: user_page_def Let_def split: if_splits)

lemma leaf_table_same_page: "same_page l va vb \<Longrightarrow> leaf_table l m p va = leaf_table l m p vb"
  unfolding same_page_def by (induction l arbitrary: p) (auto split: option.splits)

lemma lookup_same_page: "same_page l va vb \<Longrightarrow> lookup l m p va = lookup l m p vb"
  using leaf_table_same_page [of l va vb m p] by (auto simp: lookup_def same_page_def split: option.split)

lemma PGROUNDDOWN_MAXVA: "PGROUNDDOWN va < MAXVA \<longleftrightarrow> va < MAXVA"
proof -
  have "unat MAXVA = 4096 * 2 ^ 26" by (simp add: MAXVA_def)
  then show ?thesis
    by (auto simp: word_less_nat_alt unat_PGROUNDDOWN div_less_iff_less_mult mult.commute)
qed

lemma PGROUNDDOWN_idem [simp]: "PGROUNDDOWN (PGROUNDDOWN va) = PGROUNDDOWN va"
  by simp

lemma user_page_cong:
  assumes "PGROUNDDOWN va = PGROUNDDOWN vb"
  shows "user_page m p va = user_page m p vb" "va < MAXVA \<Longrightarrow> lookup 2 m p va = lookup 2 m p vb"
proof -
  have "va < MAXVA \<longleftrightarrow> vb < MAXVA" using assms PGROUNDDOWN_MAXVA by metis
  then show "user_page m p va = user_page m p vb" "va < MAXVA \<Longrightarrow> lookup 2 m p va = lookup 2 m p vb"
    using same_page_iff [of va vb] lookup_same_page [of 2 va vb m p] assms
    by (auto simp: user_page_def sv39_MAXVA)
qed

lemma walkaddr_user_page:
  assumes "pt_wf 2 (mem s) p"
  shows "walkaddr p va s = Ok (case user_page (mem s) p va of None \<Rightarrow> 0 | Some pa \<Rightarrow> pa)"
  using leaf_slot_lookup [OF assms, of va]
  by (auto simp: walkaddr_def walk_noalloc user_page_def Let_def not_le)

text \<open>Writing a user page does not disturb the address space.\<close>

lemma uvm_frame:
  assumes ok: "uvm_ok m p" and out: "\<And>x. PGROUNDDOWN x \<in> tables 2 m p \<Longrightarrow> m' x = m x"
  shows "uvm_ok m' p" "user_page m' p = user_page m p" "lookup 2 m' p = lookup 2 m p"
proof -
  have f: "tables 2 m' p = tables 2 m p \<and> pt_wf 2 m' p \<and>
    leaf_table 2 m' p = leaf_table 2 m p \<and> lookup 2 m' p = lookup 2 m p"
    by (rule tables_frame) (use ok out in \<open>auto simp: uvm_ok_def\<close>)
  then show lk: "lookup 2 m' p = lookup 2 m p" by blast
  then show up: "user_page m' p = user_page m p" by (simp add: user_page_def fun_eq_iff)
  show "uvm_ok m' p" 
    unfolding uvm_ok_def up by (intro conjI) (use f ok [unfolded uvm_ok_def] in blast)+
qed

section \<open>copyin and copyout\<close>

lemma uview_offset:
  assumes "user_page m p va = Some pa" "i < page_rest va len"
  shows "uview m p (va + of_nat i) = Some (m (pa + (va - PGROUNDDOWN va) + of_nat i))"
    "PGROUNDDOWN (va + of_nat i) = PGROUNDDOWN va"
proof -
  let ?o = "unat (va - PGROUNDDOWN va)"
  have i: "?o + i < 4096" using assms(2) by (auto simp: page_rest_def unat_page_rest)
  have "va + of_nat i = PGROUNDDOWN va + of_nat ?o + of_nat i" by (simp only: page_base_offset)
  then have e: "va + of_nat i = PGROUNDDOWN va + of_nat (?o + i)" by (simp only: of_nat_add add.assoc)
  show pg: "PGROUNDDOWN (va + of_nat i) = PGROUNDDOWN va"
    unfolding e by (rule PGROUNDDOWN_offset) (use i in auto)
  show "uview m p (va + of_nat i) = Some (m (pa + (va - PGROUNDDOWN va) + of_nat i))"
    using user_page_cong(1) [OF pg] assms(1) pg by (simp add: uview_def algebra_simps)
qed

lemma next_page:
  assumes "va < MAXVA" "page_rest va len < len"
  shows "PGROUNDDOWN va + PGSIZE = va + of_nat (page_rest va len)"
proof -
  have r: "page_rest va len = 4096 - unat (va - PGROUNDDOWN va)"
    using assms(2) by (auto simp: page_rest_def unat_page_rest)
  have "of_nat (4096 - unat (va - PGROUNDDOWN va)) = (4096 - (va - PGROUNDDOWN va) :: u64)"
    using page_offset_less [of va] by (simp add: of_nat_diff)
  then show ?thesis by (simp add: r PGSIZE_def)
qed

lemma page_rest_all: "(\<forall>i<len. P i) \<longleftrightarrow>
    (\<forall>i<page_rest va len. P i) \<and> (\<forall>i<len - page_rest va len. P (page_rest va len + i))"
  using page_rest_le [of va len]
  by (metis add_diff_inverse_nat less_diff_conv2 nat_add_left_cancel_less not_less order_less_le_trans)

text \<open>C7. \<^verbatim>\<open>copyin\<close> returns 0 exactly when every byte of the range is mapped for the user,
  and then it has read the user's view of the range.\<close>

theorem copyin_reads:
  assumes "uvm_ok (mem s) p"
  shows "copyin p va len s = Ok (0, bs) \<longleftrightarrow>
    length bs = len \<and> (\<forall>i<len. uview (mem s) p (va + of_nat i) = Some (bs ! i))"
proof (induction len arbitrary: va bs rule: less_induct)
  case (less len)
  show ?case
  proof (cases "len = 0")
    case True
    then show ?thesis by (auto simp: copyin.simps)
  next
    case False
    let ?n = "page_rest va len" and ?va0 = "PGROUNDDOWN va"
    have wf: "pt_wf 2 (mem s) p" using assms by (simp add: uvm_ok_def)
    show ?thesis
    proof (cases "user_page (mem s) p va")
      case None
      then have "uview (mem s) p (va + of_nat 0) = None" by (simp add: uview_def)
      with False have "\<not> (\<forall>i<len. uview (mem s) p (va + of_nat i) = Some (bs ! i))" by fastforce
      with False None wf user_page_cong(1) [of ?va0 va] show ?thesis
        by (simp add: copyin.simps walkaddr_user_page)
    next
      case (Some pa)
      then have pa: "pa \<noteq> 0" using assms by (auto simp: uvm_ok_def)
      have va: "va < MAXVA" using Some by (auto simp: user_page_def Let_def split: if_splits)
      let ?ld = "load_bytes (mem s) (pa + (va - ?va0)) ?n"
      have step: "copyin p va len s = Ok (0, bs) \<longleftrightarrow>
          (\<exists>rest. copyin p (?va0 + PGSIZE) (len - ?n) s = Ok (0, rest) \<and> bs = ?ld @ rest)"
        using False Some pa wf user_page_cong(1) [of ?va0 va "mem s" p]
        by (subst copyin.simps) (auto simp: walkaddr_user_page rbind_Ok_iff Let_def)
      have IH: "copyin p (?va0 + PGSIZE) (len - ?n) s = Ok (0, rest) \<longleftrightarrow> length rest = len - ?n \<and>
          (\<forall>i<len - ?n. uview (mem s) p (va + of_nat (?n + i)) = Some (rest ! i))" for rest
      proof (cases "?n < len")
        case True
        with less [of "len - ?n" "?va0 + PGSIZE" rest] next_page [OF va True] False show ?thesis
          by (simp add: add.assoc)
      qed (auto simp: copyin.simps)
      have head: "uview (mem s) p (va + of_nat i) = Some (?ld ! i)" if "i < ?n" for i
        using uview_offset(1) [OF Some that] that by (simp add: load_bytes_def)
      note split = page_rest_all [of len "\<lambda>i. uview (mem s) p (va + of_nat i) = Some (bs ! i)" va]
      show ?thesis
      proof
        assume "copyin p va len s = Ok (0, bs)"
        then obtain rest where r: "length rest = len - ?n" "bs = ?ld @ rest"
          "\<forall>i<len - ?n. uview (mem s) p (va + of_nat (?n + i)) = Some (rest ! i)"
          unfolding step IH by blast
        then show "length bs = len \<and> (\<forall>i<len. uview (mem s) p (va + of_nat i) = Some (bs ! i))"
          unfolding split using head page_rest_le [of va len] by (simp add: nth_append)
      next
        assume b: "length bs = len \<and> (\<forall>i<len. uview (mem s) p (va + of_nat i) = Some (bs ! i))"
        have "?ld = take ?n bs"
          by (rule nth_equalityI) (use b head page_rest_le [of va len] in auto)
        with b show "copyin p va len s = Ok (0, bs)"
          unfolding step IH split by (intro exI [of _ "drop ?n bs"]) (use page_rest_le [of va len] in auto)
      qed
    qed
  qed
qed

lemma copyout_step:
  assumes ok: "uvm_ok (mem s) p" and bs: "bs \<noteq> []"
  shows "copyout p va bs s =
    (if uwritable (mem s) p va
     then copyout p (PGROUNDDOWN va + PGSIZE) (drop (page_rest va (length bs)) bs)
       (s\<lparr>mem := store_bytes (mem s) (the (user_page (mem s) p va) + (va - PGROUNDDOWN va))
          (take (page_rest va (length bs)) bs)\<rparr>)
     else Ok (-1, s))"
proof -
  let ?va0 = "PGROUNDDOWN va"
  have wf: "pt_wf 2 (mem s) p" using ok by (simp add: uvm_ok_def)
  have up: "user_page (mem s) p ?va0 = user_page (mem s) p va" "va < MAXVA \<Longrightarrow> lookup 2 (mem s) p ?va0 = lookup 2 (mem s) p va"
    using user_page_cong [of va ?va0 "mem s" p] by auto
  show ?thesis
  proof (cases "va < MAXVA")
    case True
    then have v0: "?va0 < MAXVA" by (simp add: PGROUNDDOWN_MAXVA)
    with True bs leaf_slot_lookup [OF wf, of ?va0] up show ?thesis
      by (subst copyout.simps, cases "leaf_slot 2 (mem s) p ?va0 = 0")
        (auto simp: walk_noalloc uwritable_def user_page_def Let_def)
  next
    case False
    then have "MAXVA \<le> ?va0" using PGROUNDDOWN_MAXVA [of va] by (simp flip: not_less)
    with False bs show ?thesis
      by (subst copyout.simps) (auto simp: uwritable_def user_page_def Let_def)
  qed
qed

lemma copyout_page:
  fixes m bs va
  defines "n \<equiv> page_rest va (length bs)"
  assumes ok: "uvm_ok m p" and pa: "user_page m p va = Some pa"
    and m': "m' = store_bytes m (pa + (va - PGROUNDDOWN va)) (take n bs)"
  shows "uvm_ok m' p" "user_page m' p = user_page m p" "lookup 2 m' p = lookup 2 m p"
    "uview m' p x = (if unat (x - va) < n then Some (bs ! unat (x - va)) else uview m p x)"
proof -
  let ?o = "unat (va - PGROUNDDOWN va)"
  have n: "?o + n \<le> 4096" "n \<le> length bs"
    using page_offset_less [of va] by (auto simp: n_def page_rest_def unat_page_rest)
  have al: "page_aligned pa" using pa by (rule user_page_aligned)
  have m'o: "m' = store_bytes m (pa + of_nat ?o) (take n bs)" unfolding m' by simp
  have out: "m' x = m x" if "PGROUNDDOWN x \<noteq> pa" for x
    unfolding m'o by (rule store_bytes_page [OF al _ that]) (use n in auto)
  have pt: "pa \<notin> tables 2 m p" using ok pa by (auto simp: uvm_ok_def)
  have "m' x = m x" if "PGROUNDDOWN x \<in> tables 2 m p" for x
    using that pt by (intro out) auto
  from uvm_frame [OF ok this]
  show ok': "uvm_ok m' p" and up: "user_page m' p = user_page m p" and "lookup 2 m' p = lookup 2 m p"
    by auto
  have lt: "length (take n bs) \<le> 2 ^ 64" using n by simp
  show "uview m' p x = (if unat (x - va) < n then Some (bs ! unat (x - va)) else uview m p x)"
  proof (cases "unat (x - va) < n")
    case True
    then have "uview m' p (va + of_nat (unat (x - va))) = Some (m' (pa + (va - PGROUNDDOWN va) + of_nat (unat (x - va))))"
      using uview_offset(1) [of m' p va pa "unat (x - va)" "length bs"] pa up by (simp add: n_def)
    with True n show ?thesis by (simp add: m' store_bytes_apply [OF lt])
  next
    case False
    show ?thesis
    proof (cases "user_page m p x")
      case (Some pb)
      let ?a = "pb + (x - PGROUNDDOWN x)"
      have "m' ?a = m ?a"
      proof (cases "pb = pa")
        case True
        then have pg: "PGROUNDDOWN x = PGROUNDDOWN va" using ok pa Some unfolding uvm_ok_def by blast
        have eq: "?a - (pa + (va - PGROUNDDOWN va)) = x - va" using True pg by simp
        show ?thesis unfolding m' store_bytes_apply [OF lt] eq using False by simp
      next
        case c: False
        have "PGROUNDDOWN (pb + of_nat (unat (x - PGROUNDDOWN x))) = pb"
          by (rule PGROUNDDOWN_offset [OF user_page_aligned [OF Some] page_offset_less])
        with c show ?thesis by (intro out) simp
      qed
      with False Some up show ?thesis by (simp add: uview_def)
    qed (use False up in \<open>simp add: uview_def\<close>)
  qed
qed

lemma unat_sub_of_nat:
  fixes x va :: u64
  assumes "n \<le> unat (x - va)"
  shows "unat (x - (va + of_nat n)) = unat (x - va) - n"
proof -
  have "unat (of_nat n :: u64) = n"
    using assms unat_lt2p [of "x - va"] by (intro unat_of_nat_small) simp
  then have "unat (x - va - of_nat n) = unat (x - va) - n"
    using assms by (simp add: unat_sub word_le_nat_alt)
  then show ?thesis by (simp add: algebra_simps)
qed

text \<open>Views before and after a write of \<open>bs\<close> at \<open>va\<close> that may stop early: only the range
  changes, and all of it is written when \<open>full\<close> holds.\<close>

definition view_write :: "(u64 \<Rightarrow> u8 option) \<Rightarrow> u64 \<Rightarrow> u8 list \<Rightarrow> bool \<Rightarrow> (u64 \<Rightarrow> u8 option) \<Rightarrow> bool" where
  "view_write f va bs full g \<longleftrightarrow>
     (\<forall>x. length bs \<le> unat (x - va) \<longrightarrow> g x = f x) \<and>
     (full \<longrightarrow> (\<forall>i<length bs. g (va + of_nat i) = Some (bs ! i)))"

lemma view_write_append:
  assumes n: "n \<le> length bs" "length bs < 2 ^ 64"
    and g: "\<And>x. g x = (if unat (x - va) < n then Some (bs ! unat (x - va)) else f x)"
    and h: "view_write g (va + of_nat n) (drop n bs) full h"
  shows "view_write f va bs full h"
proof -
  have "h x = f x" if "length bs \<le> unat (x - va)" for x
    using h that n unat_sub_of_nat [of n x va] by (auto simp: view_write_def g)
  moreover have "h (va + of_nat i) = Some (bs ! i)" if "full" "i < length bs" for i
  proof (cases "i < n")
    case True
    have i: "unat (of_nat i :: u64) = i" using that n by (intro unat_of_nat_small) simp
    have "unat (of_nat i - of_nat n :: u64) = 2 ^ 64 - (n - i)"
      using True n i by (simp add: unat_sub_if' unat_of_nat_small)
    then have "length (drop n bs) \<le> unat (va + of_nat i - (va + of_nat n))" using n True by simp
    then have "h (va + of_nat i) = g (va + of_nat i)" using h unfolding view_write_def by blast
    with True i show ?thesis by (simp add: g)
  next
    case False
    then have e: "va + of_nat n + of_nat (i - n) = va + of_nat i" by (simp add: of_nat_diff)
    have "i - n < length (drop n bs)" using False that by simp
    then have "h (va + of_nat n + of_nat (i - n)) = Some (drop n bs ! (i - n))"
      using h that unfolding view_write_def by blast
    with False n show ?thesis unfolding e by simp
  qed
  ultimately show ?thesis by (simp add: view_write_def)
qed

text \<open>C4. \<^verbatim>\<open>copyout\<close> refines an update of the user's view of memory. It always
  returns, leaves the mappings, the free list and the rest of the kernel alone,
  and changes no user byte outside the range. It returns 0 exactly when the
  whole range is mapped writable for the user, and then the user sees the copied
  bytes; otherwise it returns \<open>-1\<close>.\<close>

theorem copyout_refines:
  assumes "uvm_ok (mem s) p" "length bs < 2 ^ 64"
  shows "returns (copyout p va bs s) (\<lambda>(r, t).
    t = s\<lparr>mem := mem t\<rparr> \<and> uvm_ok (mem t) p \<and> lookup 2 (mem t) p = lookup 2 (mem s) p \<and>
    view_write (uview (mem s) p) va bs (r = 0) (uview (mem t) p) \<and>
    r = (if \<forall>i<length bs. uwritable (mem s) p (va + of_nat i) then 0 else -1))"
  using assms
proof (induction "length bs" arbitrary: bs va s rule: less_induct)
  case less
  note ok = less.prems(1)
  show ?case
  proof (cases "bs = []")
    case True
    with ok show ?thesis by (simp add: copyout.simps view_write_def)
  next
    case False
    let ?n = "page_rest va (length bs)"
    show ?thesis
    proof (cases "uwritable (mem s) p va")
      case nw: False
      with False have "\<not> (\<forall>i<length bs. uwritable (mem s) p (va + of_nat i))" by fastforce
      with False nw ok show ?thesis by (simp add: copyout_step view_write_def)
    next
      case True
      then obtain pa where pa: "user_page (mem s) p va = Some pa" by (auto simp: uwritable_def)
      have va: "va < MAXVA" using pa by (auto simp: user_page_def Let_def split: if_splits)
      define m where "m = store_bytes (mem s) (pa + (va - PGROUNDDOWN va)) (take ?n bs)"
      note pg = copyout_page [OF ok pa m_def]
      have step: "copyout p va bs s = copyout p (PGROUNDDOWN va + PGSIZE) (drop ?n bs) (s\<lparr>mem := m\<rparr>)"
        using copyout_step [OF ok False, of va] True pa by (simp add: m_def)
      have nx: "copyout p (PGROUNDDOWN va + PGSIZE) (drop ?n bs) (s\<lparr>mem := m\<rparr>) =
          copyout p (va + of_nat ?n) (drop ?n bs) (s\<lparr>mem := m\<rparr>)"
        using next_page [OF va, of "length bs"] by (cases "?n < length bs") (auto simp: copyout.simps)
      have uw: "uwritable m p = uwritable (mem s) p" using pg by (simp add: uwritable_def fun_eq_iff)
      have hd: "uwritable (mem s) p (va + of_nat i)" if "i < ?n" for i
        using True user_page_cong(1) [OF uview_offset(2) [OF pa that], of "mem s" p]
          user_page_cong(2) [OF uview_offset(2) [OF pa that, symmetric] va, of "mem s" p]
        by (simp add: uwritable_def)
      have IH: "returns (copyout p (va + of_nat ?n) (drop ?n bs) (s\<lparr>mem := m\<rparr>)) (\<lambda>(r, t).
          t = (s\<lparr>mem := m\<rparr>)\<lparr>mem := mem t\<rparr> \<and> uvm_ok (mem t) p \<and>
          lookup 2 (mem t) p = lookup 2 (mem (s\<lparr>mem := m\<rparr>)) p \<and>
          view_write (uview (mem (s\<lparr>mem := m\<rparr>)) p) (va + of_nat ?n) (drop ?n bs) (r = 0) (uview (mem t) p) \<and>
          r = (if \<forall>i<length (drop ?n bs). uwritable (mem (s\<lparr>mem := m\<rparr>)) p (va + of_nat ?n + of_nat i) then 0 else -1))"
        by (rule less.hyps) (use False pg less.prems(2) in auto)
      define W where "W \<longleftrightarrow> (\<forall>i<length bs. uwritable (mem s) p (va + of_nat i))"
      have all: "(\<forall>i<length (drop ?n bs). uwritable (mem (s\<lparr>mem := m\<rparr>)) p (va + of_nat ?n + of_nat i)) = W"
        using page_rest_all [of "length bs" "\<lambda>i. uwritable (mem s) p (va + of_nat i)" va] hd
        by (simp add: add.assoc uw W_def)
      have "view_write (uview (mem s) p) va bs full h"
        if "view_write (uview m p) (va + of_nat ?n) (drop ?n bs) full h" for full h
        by (rule view_write_append [OF page_rest_le less.prems(2) pg(4) that])
      then show ?thesis
        unfolding step nx W_def [symmetric]
        by (intro returns_mono [OF IH [unfolded all]]) (auto simp: pg(3))
    qed
  qed
qed

section \<open>The concrete address space, seen by the user\<close>

lemma demo_user_page:
  "user_page demo_mem 0x80102000 va = (if va < MAXVA \<and> PGROUNDDOWN va = 0 then Some 0x80105000 else None)"
  by (cases "va < MAXVA"; cases "PGROUNDDOWN va = 0")
     (simp_all add: user_page_def demo_lookup sv39_MAXVA Let_def PA2PTE_def pte_bits PTE2PA_def)

lemma demo_uvm_ok: "uvm_ok demo_mem 0x80102000"
  by (auto simp: uvm_ok_def demo_wf demo_user_page demo_tables split: if_splits)

theorem copyin_reads_witness:
  "copyin 0x80102000 5 3 demo_state = Ok (0, [0, 0, 0]) \<longleftrightarrow>
    length [0, 0, 0 :: u8] = 3 \<and> (\<forall>i<3. uview demo_mem 0x80102000 (5 + of_nat i) = Some ([0, 0, 0] ! i))"
  using copyin_reads [of demo_state "0x80102000" 5 3 "[0, 0, 0]"] demo_uvm_ok
  by (simp add: demo_state_def)

lemma demo_uwritable:
  assumes "unat va < 4096"
  shows "uwritable demo_mem 0x80102000 va"
proof -
  have "va < MAXVA" "PGROUNDDOWN va = 0"
    using assms in_page_iff [of 0 va] by (auto simp: MAXVA_def word_less_nat_alt page_aligned_unat)
  then show ?thesis
    by (simp add: uwritable_def demo_user_page demo_lookup sv39_MAXVA) (simp add: PA2PTE_def pte_bits)
qed

theorem copyout_refines_witness:
  "\<exists>t. copyout 0x80102000 5 [7, 8, 9] demo_state = Ok (0, t) \<and> uview (mem t) 0x80102000 6 = Some 8"
proof -
  have m: "mem demo_state = demo_mem" by (simp add: demo_state_def)
  have w: "\<forall>i<length [7, 8, 9 :: u8]. uwritable demo_mem 0x80102000 (5 + of_nat i)"
  proof (intro allI impI)
    fix i assume "i < length [7, 8, 9 :: u8]"
    then have "i = 0 \<or> i = 1 \<or> i = 2" by auto
    then show "uwritable demo_mem 0x80102000 (5 + of_nat i)" by (auto intro!: demo_uwritable)
  qed
  obtain t where t: "copyout 0x80102000 5 [7, 8, 9] demo_state = Ok (0, t)"
    "view_write (uview demo_mem 0x80102000) 5 [7, 8, 9] True (uview (mem t) 0x80102000)"
    using copyout_refines [of demo_state "0x80102000" "[7, 8, 9]" 5] demo_uvm_ok w
    by (simp only: m) (auto elim!: returnsE)
  from t(2) have "uview (mem t) 0x80102000 (5 + of_nat 1) = Some ([7, 8, 9] ! 1)"
    unfolding view_write_def by (simp only: list.size)
  with t(1) show ?thesis by simp
qed

end
