(* ===== verification/Pipe_Fifo.thy ===== *)
theory Pipe_Fifo
  imports Pipe Ring Vm_Copy
begin

text \<open>
  A pipe is a bounded queue of bytes: \<^verbatim>\<open>pipewrite\<close> appends bytes of the writer's memory and
  \<^verbatim>\<open>piperead\<close> delivers bytes in the order they were written.
\<close>

section \<open>The queue\<close>

definition pipe_ok :: "pipe \<Rightarrow> bool" where
  "pipe_ok p \<longleftrightarrow> ring_ok PIPESIZE (pdata p) (nread p) (nwrite p)"

definition pipe_bytes :: "pipe \<Rightarrow> bytes" where
  "pipe_bytes p = ring_list PIPESIZE (pdata p) (nread p) (nwrite p)"

interpretation pipe_fifo: fifo pipe_ok pipe_bytes PIPESIZE pipe_put pipe_get pipe_full pipe_empty
proof unfold_locales
  fix p c
  assume ok: "pipe_ok p"
  show f: "pipe_full p \<longleftrightarrow> length (pipe_bytes p) = PIPESIZE"
    using ring_full ok by (simp add: pipe_full_def pipe_bytes_def pipe_ok_def)
  show b: "length (pipe_bytes p) \<le> PIPESIZE" using ok by (simp add: pipe_ok_def pipe_bytes_def ring_ok_def)
  show "pipe_empty p \<longleftrightarrow> pipe_bytes p = []" by (simp add: pipe_empty_def pipe_bytes_def)
  show "\<not> pipe_full p \<Longrightarrow> pipe_ok (pipe_put c p) \<and> pipe_bytes (pipe_put c p) = pipe_bytes p @ [c]"
    using ring_put [of PIPESIZE "pdata p" "nread p" "nwrite p"] ok f b
    by (simp add: pipe_put_def pipe_ok_def pipe_bytes_def)
  show "\<not> pipe_empty p \<Longrightarrow> pipe_ok (snd (pipe_get p)) \<and> pipe_bytes p = fst (pipe_get p) # pipe_bytes (snd (pipe_get p))"
    using ring_get [of PIPESIZE "pdata p" "nread p" "nwrite p"] ok
    by (simp add: pipe_get_def pipe_ok_def pipe_bytes_def pipe_empty_def)
qed

section \<open>Single bytes of user memory\<close>

lemma page_rest_1: "page_rest va (Suc 0) = Suc 0"
proof -
  have "0 < page_rest va (Suc 0)" by (rule page_rest_pos) simp
  with page_rest_le [of va "Suc 0"] show ?thesis by linarith
qed

lemma copy_none: "copyin p va 0 s = Ok (0, [])" "copyout p va [] t = Ok (0, t)"
  by (subst copyin.simps, simp) (subst copyout.simps, simp)

lemma copyin_1:
  assumes "uvm_ok (mem s) p"
  shows "copyin p va 1 s = Ok (case uview (mem s) p va of None \<Rightarrow> (-1, []) | Some b \<Rightarrow> (0, [b]))"
proof -
  have wf: "pt_wf 2 (mem s) p" using assms by (simp add: uvm_ok_def)
  note r = page_rest_1
  have up: "user_page (mem s) p (PGROUNDDOWN va) = user_page (mem s) p va" by (rule user_page_cong(1)) simp
  have nz: "user_page (mem s) p va = Some pa \<Longrightarrow> pa \<noteq> 0" for pa using assms by (simp add: uvm_ok_def)
  show ?thesis
    by (subst copyin.simps)
      (use nz in \<open>auto simp: walkaddr_user_page [OF wf] up uview_def r load_bytes_def copy_none split: option.split\<close>)
qed

lemma copyout_1:
  assumes ok: "uvm_ok (mem s) p"
  obtains "\<not> uwritable (mem s) p va" "copyout p va [c] s = Ok (-1, s)"
  | m where "uwritable (mem s) p va" "copyout p va [c] s = Ok (0, s\<lparr>mem := m\<rparr>)" "uvm_ok m p"
    "lookup 2 m p = lookup 2 (mem s) p" "user_page m p = user_page (mem s) p" "uview m p = (uview (mem s) p)(va \<mapsto> c)"
proof (cases "uwritable (mem s) p va")
  case False
  then show ?thesis using that(1) copyout_step [OF ok, of "[c]" va] by simp
next
  case True
  note r = page_rest_1
  obtain pa where pa: "user_page (mem s) p va = Some pa" using True by (auto simp: uwritable_def)
  let ?m = "store_bytes (mem s) (pa + (va - PGROUNDDOWN va)) [c]"
  have "copyout p va [c] s = Ok (0, s\<lparr>mem := ?m\<rparr>)"
    using copyout_step [OF ok, of "[c]" va] True pa r by (simp add: copy_none)
  moreover have m: "?m = store_bytes (mem s) (pa + (va - PGROUNDDOWN va)) (take (page_rest va (length [c])) [c])"
    by (simp add: r)
  note cp = copyout_page [OF ok pa m]
  have "uview ?m p = (uview (mem s) p)(va \<mapsto> c)"
    using cp(4) by (auto simp: fun_eq_iff r unsigned_eq_0_iff)
  ultimately show ?thesis using that(2) [OF True] cp(1-3) by blast
qed

section \<open>The writer\<close>

text \<open>A process in a system call, with the lock of the pipe and no other.\<close>

definition in_pipe :: "u64 \<Rightarrow> nat \<Rightarrow> 'a ppst_scheme \<Rightarrow> bool" where
  "in_pipe pi p s \<longleftrightarrow> held s = [L_pipe pi] \<and> curproc s = Some p \<and> p < NPROC \<and> length (procs s) = NPROC \<and>
     pstate (pr s p) = RUNNING \<and> uvm_ok (mem s) (pagetable (pr s p)) \<and> pipe_ok (pipes s pi)"

lemma killed_in_pipe: "in_pipe pi p s \<Longrightarrow> killed p s = Ok (pkilled (pr s p), s)"
  by (simp add: in_pipe_def killed_def)

lemma wakeup_in_pipe:
  assumes "in_pipe pi p s"
  obtains ps where "wakeup c s = Ok (s\<lparr>procs := ps\<rparr>)" "length ps = NPROC" "ps ! p = procs s ! p"
proof -
  have "table_ok s" using assms by (simp add: in_pipe_def table_ok_def unlocked_def)
  then obtain ps where ps: "wakeup c s = Ok (s\<lparr>procs := ps\<rparr>)" "woken (curproc s) (procs s) ps" by (rule wakeup_woken)
  show ?thesis
    by (rule that [OF ps(1)]) (use ps(2) assms woken_length woken_me in \<open>auto simp: in_pipe_def\<close>)
qed

lemma sleep_in_pipe:
  assumes "in_pipe pi p s"
  obtains t where "sleep_enter c (L_pipe pi) s = Ok t" "pipes t = pipes s" "mem t = mem s"
  using assms
  by (auto simp: in_pipe_def sleep_enter_def with_proc_def myproc_def sched_check_def pr_upd_proc Let_def upd_proc_def pr_def)

text \<open>What the loop of the writer has done when it stops: \<open>bs\<close> is the bytes it has moved from
  the writer's memory to the pipe.\<close>

definition pipe_wrote :: "u64 \<Rightarrow> u64 \<Rightarrow> nat \<Rightarrow> nat \<Rightarrow> nat \<Rightarrow> 'a ppst_scheme \<Rightarrow> int turn \<times> nat \<times> 'a ppst_scheme \<Rightarrow> bool" where
  "pipe_wrote pi addr p k i s = (\<lambda>(r, j, t). \<exists>bs. j = i + length bs \<and> length bs \<le> k \<and> pipe_ok (pipes t pi) \<and>
     pipe_bytes (pipes t pi) = pipe_bytes (pipes s pi) @ bs \<and>
     (\<forall>m<length bs. uview (mem s) (pagetable (pr s p)) (addr + of_nat (i + m)) = Some (bs ! m)) \<and>
     (case r of
        Done n \<Rightarrow> n = int j \<and> (length bs = k \<or> uview (mem s) (pagetable (pr s p)) (addr + of_nat j) = None) \<or>
          n = -1 \<and> (\<not> readopen (pipes s pi) \<or> pkilled (pr s p) \<noteq> 0)
      | Sleeping c \<Rightarrow> c = Ch_pipe_nwrite pi \<and> length bs < k \<and> length (pipe_bytes (pipes t pi)) = PIPESIZE))"

lemma in_pipe_put:
  assumes "in_pipe pi p s" "\<not> pipe_full (pipes s pi)"
  shows "in_pipe pi p (upd_pipe pi (pipe_put b) s)"
    "pipe_bytes (pipes (upd_pipe pi (pipe_put b) s) pi) = pipe_bytes (pipes s pi) @ [b]"
  using assms pipe_fifo.put_law [of "pipes s pi" b] by (auto simp: in_pipe_def upd_pipe_def pr_def)

lemma pipewrite_stop:
  assumes "in_pipe pi p s"
  shows "returns (rbind (wakeup c s) (\<lambda>s. rbind (release (L_pipe pi) s) (\<lambda>s. Ok (r, i, s))))
    (\<lambda>(r', i', t). r' = r \<and> i' = i \<and> pipes t = pipes s)"
proof -
  obtain ps where "wakeup c s = Ok (s\<lparr>procs := ps\<rparr>)" by (rule wakeup_in_pipe [OF assms])
  with assms show ?thesis by (simp add: in_pipe_def)
qed

lemma pipewrite_waits:
  assumes s: "in_pipe pi p s"
  shows "returns (rbind (wakeup a s) (\<lambda>s. rbind (sleep_enter c (L_pipe pi) s) (\<lambda>s. Ok (r, i, s))))
    (\<lambda>(r', i', t). r' = r \<and> i' = i \<and> pipes t = pipes s)"
proof -
  obtain ps where ps: "wakeup a s = Ok (s\<lparr>procs := ps\<rparr>)" "length ps = NPROC" "ps ! p = procs s ! p"
    by (rule wakeup_in_pipe [OF s])
  then have "in_pipe pi p (s\<lparr>procs := ps\<rparr>)" using s by (simp add: in_pipe_def pr_def)
  then obtain t where "sleep_enter c (L_pipe pi) (s\<lparr>procs := ps\<rparr>) = Ok t" "pipes t = pipes s"
    by (rule sleep_in_pipe [of pi p "s\<lparr>procs := ps\<rparr>" c]) simp
  with ps(1) show ?thesis by simp
qed

lemma pipewrite_loop_writes:
  "in_pipe pi p s \<Longrightarrow> returns (pipewrite_loop pi addr p k i s) (pipe_wrote pi addr p k i s)"
proof (induction k arbitrary: i s)
  case 0
  have ok: "pipe_ok (pipes s pi)" using 0 by (simp add: in_pipe_def)
  have "returns (pipewrite_loop pi addr p 0 i s) (\<lambda>(r, j, t). r = Done (int i) \<and> j = i \<and> pipes t = pipes s)"
    unfolding pipewrite_loop.simps by (rule pipewrite_stop [OF 0])
  then show ?case by (rule returns_mono) (use ok in \<open>auto simp: pipe_wrote_def\<close>)
next
  case (Suc k)
  let ?u = "uview (mem s) (pagetable (pr s p)) (addr + of_nat i)"
  note s = Suc.prems and k = killed_in_pipe [OF Suc.prems]
  have ok: "pipe_ok (pipes s pi)" "held s = [L_pipe pi]" "uvm_ok (mem s) (pagetable (pr s p))" using s by (simp_all add: in_pipe_def)
  consider "\<not> readopen (pipes s pi) \<or> pkilled (pr s p) \<noteq> 0"
    | "readopen (pipes s pi)" "pkilled (pr s p) = 0" "pipe_full (pipes s pi)"
    | "readopen (pipes s pi)" "pkilled (pr s p) = 0" "\<not> pipe_full (pipes s pi)" "?u = None"
    | b where "readopen (pipes s pi)" "pkilled (pr s p) = 0" "\<not> pipe_full (pipes s pi)" "?u = Some b"
    by (cases ?u) auto
  then show ?case
  proof cases
    case 1
    then show ?thesis using k ok by (auto simp: pipe_wrote_def)
  next
    case 2
    then have "returns (pipewrite_loop pi addr p (Suc k) i s)
        (\<lambda>(r, j, t). r = Sleeping (Ch_pipe_nwrite pi) \<and> j = i \<and> pipes t = pipes s)"
      using k pipewrite_waits [OF s] by (simp del: returns_rbind)
    then show ?thesis
      by (rule returns_mono) (use ok(1) 2(3) pipe_fifo.full_law [OF ok(1)] in \<open>auto simp: pipe_wrote_def\<close>)
  next
    case 3
    then have "returns (pipewrite_loop pi addr p (Suc k) i s) (\<lambda>(r, j, t). r = Done (int i) \<and> j = i \<and> pipes t = pipes s)"
      using k copyin_1 [OF ok(3), of "addr + of_nat i"] pipewrite_stop [OF s] by (simp del: returns_rbind)
    then show ?thesis by (rule returns_mono) (use ok(1) 3(4) in \<open>auto simp: pipe_wrote_def\<close>)
  next
    case 4
    let ?t = "upd_pipe pi (pipe_put b) s"
    note t = in_pipe_put [OF s 4(3), of b]
    have f: "mem ?t = mem s" "pr ?t p = pr s p" "readopen (pipes ?t pi) = readopen (pipes s pi)"
      by (simp_all add: upd_pipe_def pr_def pipe_put_def)
    have "returns (pipewrite_loop pi addr p k (Suc i) ?t) (pipe_wrote pi addr p (Suc k) i s)"
      using Suc.IH [OF t(1), of "Suc i"]
    proof (rule returns_mono)
      fix x assume "pipe_wrote pi addr p k (Suc i) ?t x"
      then obtain r j u bs where x: "x = (r, j, u)" and w: "j = Suc i + length bs" "length bs \<le> k" "pipe_ok (pipes u pi)"
        "pipe_bytes (pipes u pi) = pipe_bytes (pipes s pi) @ b # bs"
        "\<forall>m<length bs. uview (mem s) (pagetable (pr s p)) (addr + of_nat (Suc i + m)) = Some (bs ! m)"
        "case r of Done n \<Rightarrow> n = int j \<and> (length bs = k \<or> uview (mem s) (pagetable (pr s p)) (addr + of_nat j) = None) \<or>
            n = -1 \<and> (\<not> readopen (pipes s pi) \<or> pkilled (pr s p) \<noteq> 0)
          | Sleeping c \<Rightarrow> c = Ch_pipe_nwrite pi \<and> length bs < k \<and> length (pipe_bytes (pipes u pi)) = PIPESIZE"
        unfolding pipe_wrote_def f t(2) by auto
      have "\<forall>m<length (b # bs). uview (mem s) (pagetable (pr s p)) (addr + of_nat (i + m)) = Some ((b # bs) ! m)"
        using w(5) 4(4) by (auto simp: less_Suc_eq_0_disj algebra_simps)
      then show "pipe_wrote pi addr p (Suc k) i s x"
        using w(1-4,6) unfolding pipe_wrote_def x by (intro case_prodI exI [of _ "b # bs"]) (auto split: turn.split)
    qed
    then show ?thesis using 4 k ok copyin_1 [OF ok(3), of "addr + of_nat i"] by (simp add: ch_def)
  qed
qed

section \<open>The reader\<close>

definition addrs :: "u64 \<Rightarrow> nat \<Rightarrow> nat \<Rightarrow> u64 list" where
  "addrs a i n = map (\<lambda>m. a + of_nat m) [i..<i + n]"

lemma addrs_Suc: "addrs a i (Suc n) = (a + of_nat i) # addrs a (Suc i) n"
  by (simp add: addrs_def upt_conv_Cons del: upt_Suc)

text \<open>What the loop of the reader has done when it stops: \<open>bs\<close> is the bytes it has moved from
  the pipe to the reader's memory. When a byte cannot be stored it is lost.\<close>

definition pipe_read :: "u64 \<Rightarrow> u64 \<Rightarrow> nat \<Rightarrow> nat \<Rightarrow> nat \<Rightarrow> 'a ppst_scheme \<Rightarrow> int \<times> 'a ppst_scheme \<Rightarrow> bool" where
  "pipe_read pi addr p k i s = (\<lambda>(r, t). \<exists>bs lost. r = int (i + length bs) \<and> length bs \<le> k \<and>
     pipe_bytes (pipes s pi) = bs @ lost @ pipe_bytes (pipes t pi) \<and>
     uview (mem t) (pagetable (pr s p)) = (uview (mem s) (pagetable (pr s p)))(addrs addr i (length bs) [\<mapsto>] bs) \<and>
     (lost = [] \<and> (length bs = k \<or> pipe_bytes (pipes t pi) = []) \<or>
      length lost = 1 \<and> length bs < k \<and> \<not> uwritable (mem s) (pagetable (pr s p)) (addr + of_nat (i + length bs))) \<and>
     in_pipe pi p t)"

lemma in_pipe_get:
  assumes "in_pipe pi p s" "\<not> pipe_empty (pipes s pi)"
  shows "in_pipe pi p (upd_pipe pi (\<lambda>_. snd (pipe_get (pipes s pi))) s)"
    "pipe_bytes (pipes s pi) = fst (pipe_get (pipes s pi)) #
       pipe_bytes (pipes (upd_pipe pi (\<lambda>_. snd (pipe_get (pipes s pi))) s) pi)"
  using assms pipe_fifo.get_law [of "pipes s pi"] by (auto simp: in_pipe_def upd_pipe_def pr_def)

lemma piperead_loop_reads:
  "in_pipe pi p s \<Longrightarrow> returns (piperead_loop pi addr p k i s) (pipe_read pi addr p k i s)"
proof (induction k arbitrary: i s)
  case 0
  then show ?case by (simp add: pipe_read_def addrs_def)
next
  case (Suc k)
  have ok: "pipe_ok (pipes s pi)" using Suc.prems by (simp add: in_pipe_def)
  show ?case
  proof (cases "pipe_empty (pipes s pi)")
    case True
    then show ?thesis using Suc.prems pipe_fifo.vacant_law [OF ok] by (simp add: pipe_read_def addrs_def)
  next
    case False
    obtain c q where g: "pipe_get (pipes s pi) = (c, q)" by (cases "pipe_get (pipes s pi)")
    let ?t = "upd_pipe pi (\<lambda>_. q) s" and ?pt = "pagetable (pr s p)" and ?a = "addr + of_nat i"
    note t = in_pipe_get [OF Suc.prems False, unfolded g fst_conv snd_conv]
    have f: "mem ?t = mem s" "pr ?t p = pr s p" by (simp_all add: upd_pipe_def pr_def)
    have u: "uvm_ok (mem ?t) ?pt" using t(1) f by (simp add: in_pipe_def)
    show ?thesis
    proof (rule copyout_1 [OF u, of ?a c])
      assume "\<not> uwritable (mem ?t) ?pt ?a" "copyout ?pt ?a [c] ?t = Ok (-1, ?t)"
      then show ?thesis
        using False g t f by (auto simp: pipe_read_def addrs_def intro!: exI [of _ "[]"] exI [of _ "[c]"])
    next
      fix m assume w: "uwritable (mem ?t) ?pt ?a" "copyout ?pt ?a [c] ?t = Ok (0, ?t\<lparr>mem := m\<rparr>)" "uvm_ok m ?pt"
        "lookup 2 m ?pt = lookup 2 (mem ?t) ?pt" "user_page m ?pt = user_page (mem ?t) ?pt"
        "uview m ?pt = (uview (mem ?t) ?pt)(?a \<mapsto> c)"
      have wr: "uwritable m ?pt = uwritable (mem s) ?pt" using w(4,5) f by (simp add: uwritable_def fun_eq_iff)
      let ?v = "?t\<lparr>mem := m\<rparr>"
      have v: "in_pipe pi p ?v" "pr ?v p = pr s p" "pipes ?v = pipes ?t"
        using t(1) w(3) f(2) by (simp_all add: in_pipe_def pr_def)
      have "returns (piperead_loop pi addr p k (Suc i) ?v) (pipe_read pi addr p (Suc k) i s)"
        using Suc.IH [OF v(1), of "Suc i"]
      proof (rule returns_mono)
        fix x assume "pipe_read pi addr p k (Suc i) ?v x"
        then obtain r z bs lost where x: "x = (r, z)" and b: "r = int (Suc i + length bs)" "length bs \<le> k"
          "pipe_bytes (pipes ?t pi) = bs @ lost @ pipe_bytes (pipes z pi)"
          "uview (mem z) ?pt = (uview m ?pt)(addrs addr (Suc i) (length bs) [\<mapsto>] bs)" "in_pipe pi p z"
          "lost = [] \<and> (length bs = k \<or> pipe_bytes (pipes z pi) = []) \<or>
           length lost = 1 \<and> length bs < k \<and> \<not> uwritable m ?pt (addr + of_nat (Suc i + length bs))"
          unfolding pipe_read_def v(2,3) by auto
        have "uview (mem z) ?pt = (uview (mem s) ?pt)(addrs addr i (length (c # bs)) [\<mapsto>] (c # bs))"
          using b(4) w(6) f by (simp add: addrs_Suc)
        then show "pipe_read pi addr p (Suc k) i s x"
          unfolding pipe_read_def x using b(1-3,5,6) t(2) wr
          by (intro case_prodI exI [of _ "c # bs"] exI [of _ lost]) auto
      qed
      then show ?thesis using False g w(2) f by simp
    qed
  qed
qed

section \<open>Properties\<close>

text \<open>A process about to use pipe \<open>pi\<close>.\<close>

definition pipe_user :: "u64 \<Rightarrow> nat \<Rightarrow> 'a ppst_scheme \<Rightarrow> bool" where
  "pipe_user pi p s \<longleftrightarrow> held s = [] \<and> in_pipe pi p (s\<lparr>held := [L_pipe pi]\<rparr>)"

lemma pipe_user_cur: "pipe_user pi p s \<Longrightarrow> curproc s = Some p"
  by (simp add: pipe_user_def in_pipe_def)

text \<open>C22. \<^verbatim>\<open>pipewrite\<close> always comes to an end or a sleep. The bytes it has put into the pipe
  are the bytes of the writer's memory from \<^verbatim>\<open>addr\<close> on, in order, behind what was there. It
  returns their number, which is less than \<^verbatim>\<open>n\<close> only where the next byte cannot be read, or
  -1 when the read side is closed or the process killed; and it sleeps only on a full pipe.\<close>

theorem pipewrite_appends:
  assumes "pipe_user pi p s"
  shows "returns (pipewrite pi addr n s) (\<lambda>(r, j, t). \<exists>bs. j = length bs \<and> length bs \<le> nat n \<and>
     pipe_bytes (pipes t pi) = pipe_bytes (pipes s pi) @ bs \<and> pipe_ok (pipes t pi) \<and>
     (\<forall>m<length bs. uview (mem s) (pagetable (pr s p)) (addr + of_nat m) = Some (bs ! m)) \<and>
     (case r of
        Done q \<Rightarrow> q = int (length bs) \<and>
            (length bs = nat n \<or> uview (mem s) (pagetable (pr s p)) (addr + of_nat (length bs)) = None) \<or>
          q = -1 \<and> (\<not> readopen (pipes s pi) \<or> pkilled (pr s p) \<noteq> 0)
      | Sleeping c \<Rightarrow> c = Ch_pipe_nwrite pi \<and> length bs < nat n \<and> length (pipe_bytes (pipes t pi)) = PIPESIZE))"
proof -
  have s: "held s = []" "in_pipe pi p (s\<lparr>held := [L_pipe pi]\<rparr>)" using assms by (simp_all add: pipe_user_def)
  have "pipewrite pi addr n s = pipewrite_loop pi addr p (nat n) 0 (s\<lparr>held := [L_pipe pi]\<rparr>)"
    using s(1) pipe_user_cur [OF assms] by (simp add: pipewrite_def with_proc_def myproc_def)
  with pipewrite_loop_writes [OF s(2), of addr "nat n" 0] show ?thesis
    by (auto simp: pipe_wrote_def split: turn.splits elim!: returns_mono)
qed

text \<open>C23. \<^verbatim>\<open>piperead\<close> sleeps only on an empty pipe that may still be written, returns -1 only
  to a killed process, and otherwise delivers the first bytes of the pipe to the reader's
  memory in order, and stops early only when the pipe is empty or the memory cannot be
  written; in that last case one byte has left the pipe and is lost.\<close>

theorem piperead_delivers:
  assumes "pipe_user pi p s"
  shows "returns (piperead pi addr n s) (\<lambda>(r, t). case r of
     Sleeping c \<Rightarrow> c = Ch_pipe_nread pi \<and> pipe_bytes (pipes s pi) = [] \<and> writeopen (pipes s pi)
   | Done q \<Rightarrow> q = -1 \<and> pkilled (pr s p) \<noteq> 0 \<or>
       (\<exists>bs lost. q = int (length bs) \<and> length bs \<le> nat n \<and>
          pipe_bytes (pipes s pi) = bs @ lost @ pipe_bytes (pipes t pi) \<and>
          uview (mem t) (pagetable (pr s p)) = (uview (mem s) (pagetable (pr s p)))(addrs addr 0 (length bs) [\<mapsto>] bs) \<and>
          (lost = [] \<and> (length bs = nat n \<or> pipe_bytes (pipes t pi) = []) \<or>
           length lost = 1 \<and> \<not> uwritable (mem s) (pagetable (pr s p)) (addr + of_nat (length bs)))))"
proof -
  let ?s = "s\<lparr>held := [L_pipe pi]\<rparr>"
  have s: "held s = []" "in_pipe pi p ?s" using assms by (simp_all add: pipe_user_def)
  have ok: "pipe_ok (pipes s pi)" "curproc s = Some p" using s(2) by (simp_all add: in_pipe_def)
  show ?thesis
  proof (cases "pipe_empty (pipes s pi) \<and> writeopen (pipes s pi)")
    case True
    obtain t where "sleep_enter (Ch_pipe_nread pi) (L_pipe pi) ?s = Ok t" by (rule sleep_in_pipe [OF s(2)])
    then show ?thesis
      using True s(1) ok killed_in_pipe [OF s(2)] pipe_fifo.vacant_law [OF ok(1)]
      by (simp add: piperead_def piperead_round_def with_proc_def myproc_def)
  next
    case False
    obtain i t where t: "piperead_loop pi addr p (nat n) 0 ?s = Ok (i, t)" "pipe_read pi addr p (nat n) 0 ?s (i, t)"
      using piperead_loop_reads [OF s(2), of addr "nat n" 0] by (auto elim!: returnsE)
    have it: "in_pipe pi p t" using t(2) by (auto simp: pipe_read_def)
    obtain ps where "wakeup (Ch_pipe_nwrite pi) t = Ok (t\<lparr>procs := ps\<rparr>)" by (rule wakeup_in_pipe [OF it])
    then have "piperead pi addr n s = Ok (Done i, t\<lparr>procs := ps, held := []\<rparr>)"
      using False s(1) ok(2) t(1) it by (auto simp: piperead_def piperead_round_def with_proc_def myproc_def in_pipe_def)
    with t(2) show ?thesis by (auto simp: pipe_read_def)
  qed
qed

text \<open>C24. Bytes leave a pipe in the order they entered it: after any sequence of accepted puts
  and gets, what came out followed by what is left is what was there followed by what went
  in.\<close>

theorem pipe_order:
  assumes "pipe_ok p" "fifo_run pipe_put pipe_get pipe_full pipe_empty ops p = Some (out, q)"
  shows "pipe_ok q \<and> out @ pipe_bytes q = pipe_bytes p @ puts ops"
  by (rule pipe_fifo.run_order [OF assms])

definition empty_pipe :: pipe where
  "empty_pipe = \<lparr>pdata = replicate PIPESIZE 5, nread = 0xfffffffe, nwrite = 0xfffffffe, readopen = True, writeopen = True\<rparr>"

lemma empty_pipe_ok: "pipe_ok empty_pipe" "pipe_bytes empty_pipe = []"
  by (simp_all add: pipe_ok_def pipe_bytes_def empty_pipe_def ring_ok_def PIPESIZE_def)

theorem pipe_order_witness:
  "\<exists>q. fifo_run pipe_put pipe_get pipe_full pipe_empty [Put 1, Put 2, Get, Put 3, Get] empty_pipe = Some ([1, 2], q) \<and>
     pipe_bytes q = [3]"
proof -
  have "\<exists>q. fifo_run pipe_put pipe_get pipe_full pipe_empty [Put 1, Put 2, Get, Put 3, Get] empty_pipe = Some ([1, 2], q)"
    by (simp add: empty_pipe_def pipe_full_def pipe_empty_def pipe_put_def pipe_get_def PIPESIZE_def)
  then obtain q where q: "fifo_run pipe_put pipe_get pipe_full pipe_empty [Put 1, Put 2, Get, Put 3, Get] empty_pipe = Some ([1, 2], q)" ..
  with pipe_order [OF empty_pipe_ok(1) q] show ?thesis by (simp add: empty_pipe_ok)
qed

section \<open>A concrete system\<close>

text \<open>One running process in the address space of \<^verbatim>\<open>demo_mem\<close>; the arguments are the memory, the
  pipe every address stands for, and the state of the components above.\<close>

definition user_procs :: "proc list" where
  "user_procs = run_procs[0 := (run_procs ! 0)\<lparr>pagetable := 0x80102000, sz := 4096, cwd := Some 0\<rparr>]"

definition demo_pp :: "memory \<Rightarrow> pipe \<Rightarrow> 'a \<Rightarrow> 'a ppst_scheme" where
  "demo_pp m q x = \<lparr>held = [], mem = m, freelist = 0, kend = 0x80021000, procs = user_procs,
     initproc = Some 0, nextpid = 2, curproc = Some 0, ticks = 0, sched_mode = SCHED_ROUND_ROBIN,
     tframes = (\<lambda>_. tf_junk), trampoline = 0x80007000, etext = 0x80008000, forkret_pc = 0x80001000,
     kernel_pagetable = 0, slks = (\<lambda>_. \<lparr>slocked = False, spid = 0\<rparr>), bufs = replicate (Suc NBUF) zero_buf,
     disk = zero_disk, writes = [],
     lg = \<lparr>lstart = 2, lsize = 30, outstanding = 0, committing = False, ldev = ROOTDEV, lh_n = 0, lh_block = replicate 30 0\<rparr>,
     sb = \<lparr>sb_magic = FSMAGIC, sb_size = 2000, sb_nblocks = 1954, sb_ninodes = 200, sb_nlog = 30, sb_logstart = 2,
       sb_inodestart = 32, sb_bmapstart = 45\<rparr>,
     inodes = replicate NINODE \<lparr>idev = 0, inum = 0, iref = 0, ivalid = False, itype = 0, imajor = 0, iminor = 0,
       inlink = 0, isize = 0, iaddrs = replicate 13 0\<rparr>,
     uart_tx_buf = replicate UART_TX_BUF_SIZE 0, uart_tx_w = 0, uart_tx_r = 0, u_regs = (\<lambda>_. 0), u_latch = (\<lambda>_. 0),
     u_rx = [], u_tx = [], u_busy = 0, u_delay = (\<lambda>_. 0), panicked = False, pr_locking = True,
     cons = \<lparr>cbuf = replicate INPUT_BUF_SIZE 0, cr = 0, cw = 0, ce = 0\<rparr>, keyboard_int_cnt = 0,
     pipes = (\<lambda>_. q), \<dots> = x\<rparr>"

lemma demo_pp_user: "pipe_ok q \<Longrightarrow> uvm_ok m 0x80102000 \<Longrightarrow> pipe_user pi 0 (demo_pp m q x)"
  by (simp add: pipe_user_def in_pipe_def demo_pp_def pr_def user_procs_def run_procs_def NPROC_def)

lemma demo_pp_sels [simp]:
  "pagetable (pr (demo_pp m q x) 0) = 0x80102000" "mem (demo_pp m q x) = m" "pipes (demo_pp m q x) = (\<lambda>_. q)"
  "pkilled (pr (demo_pp m q x) 0) = 0"
  by (simp_all add: demo_pp_def pr_def user_procs_def run_procs_def idle_proc_def)

theorem pipewrite_appends_witness:
  "pipe_user 0 0 (demo_pp demo_mem empty_pipe ()) \<and>
   returns (pipewrite 0 5 3 (demo_pp demo_mem empty_pipe ())) (\<lambda>(r, j, t). r = Done 3 \<and> length (pipe_bytes (pipes t 0)) = 3)"
proof -
  have u: "pipe_user 0 0 (demo_pp demo_mem empty_pipe ())" by (rule demo_pp_user [OF empty_pipe_ok(1) demo_uvm_ok])
  have v: "uview demo_mem 0x80102000 (5 + of_nat k) \<noteq> None" if "k \<le> 3" for k
  proof -
    have "k = 0 \<or> k = 1 \<or> k = 2 \<or> k = 3" using that by auto
    then have "uwritable demo_mem 0x80102000 (5 + of_nat k)" by (auto intro!: demo_uwritable)
    then show ?thesis by (simp add: uwritable_def uview_def)
  qed
  have ro: "readopen empty_pipe" by (simp add: empty_pipe_def)
  have "returns (pipewrite 0 5 3 (demo_pp demo_mem empty_pipe ())) (\<lambda>(r, j, t). r = Done 3 \<and> length (pipe_bytes (pipes t 0)) = 3)"
  proof (rule returns_mono [OF pipewrite_appends [OF u, of 5 3]], clarify, goal_cases)
    case (1 r j t bs)
    then show ?case using v [of "length bs"] by (cases r) (auto simp: empty_pipe_ok(2) PIPESIZE_def ro)
  qed
  with u show ?thesis by simp
qed

theorem piperead_delivers_witness:
  "returns (piperead 0 5 9 (demo_pp demo_mem (pipe_put 8 (pipe_put 7 empty_pipe)) ()))
    (\<lambda>(r, t). r = Done 2 \<and> uview (mem t) 0x80102000 5 = Some 7 \<and> uview (mem t) 0x80102000 6 = Some 8)"
proof -
  let ?q = "pipe_put 8 (pipe_put 7 empty_pipe)"
  have nf: "\<not> pipe_full empty_pipe" "\<not> pipe_full (pipe_put 7 empty_pipe)"
    by (simp_all add: pipe_full_def empty_pipe_def pipe_put_def PIPESIZE_def)
  have q: "pipe_ok ?q" "pipe_bytes ?q = [7, 8]"
    using pipe_fifo.put_law [OF empty_pipe_ok(1) nf(1), of 7] pipe_fifo.put_law [of "pipe_put 7 empty_pipe" 8] nf(2) empty_pipe_ok(2)
    by simp_all
  have u: "pipe_user 0 0 (demo_pp demo_mem ?q ())" by (rule demo_pp_user [OF q(1) demo_uvm_ok])
  have w: "uwritable demo_mem 0x80102000 (5 + of_nat k)" if "k \<le> 2" for k
  proof -
    have "k = 0 \<or> k = 1 \<or> k = 2" using that by auto
    then show ?thesis by (auto intro!: demo_uwritable)
  qed
  have two: "bs = [7, 8] \<and> rest = []" if "[7, 8] = bs @ lost @ rest" "lost = [] \<and> (length bs = 9 \<or> rest = []) \<or>
      length lost = 1 \<and> \<not> uwritable demo_mem 0x80102000 (5 + of_nat (length bs))" for bs lost rest :: bytes
  proof -
    have "length bs \<le> 2" using arg_cong [OF that(1), of length] by simp
    with that w [of "length bs"] show ?thesis by auto
  qed
  show ?thesis
  proof (rule returns_mono [OF piperead_delivers [OF u, of 5 9]], clarify, goal_cases)
    case (1 r t)
    have "\<exists>bs lost. r = Done (int (length bs)) \<and> [7, 8] = bs @ lost @ pipe_bytes (pipes t 0) \<and>
        uview (mem t) 0x80102000 = (uview demo_mem 0x80102000)(addrs 5 0 (length bs) [\<mapsto>] bs) \<and>
        (lost = [] \<and> (length bs = 9 \<or> pipe_bytes (pipes t 0) = []) \<or>
         length lost = 1 \<and> \<not> uwritable demo_mem 0x80102000 (5 + of_nat (length bs)))"
      using 1 by (cases r) (simp_all add: q, blast)
    then obtain bs lost where b: "r = Done (int (length bs))" "[7, 8] = bs @ lost @ pipe_bytes (pipes t 0)"
        "uview (mem t) 0x80102000 = (uview demo_mem 0x80102000)(addrs 5 0 (length bs) [\<mapsto>] bs)"
        "lost = [] \<and> (length bs = 9 \<or> pipe_bytes (pipes t 0) = []) \<or>
         length lost = 1 \<and> \<not> uwritable demo_mem 0x80102000 (5 + of_nat (length bs))" by blast
    have "bs = [7, 8]" using two [OF b(2,4)] ..
    then show ?case by (simp add: b(1,3) addrs_def upt_rec)
  qed
qed

end
