(* ===== verification/Vm_Free.thy ===== *)
theory Vm_Free
  imports Vm_Map
begin

text \<open>
  Unmapping ranges and taking an address space apart: what \<^verbatim>\<open>uvmunmap\<close>, \<^verbatim>\<open>freewalk\<close>
  and \<^verbatim>\<open>uvmfree\<close> do to the entries, to the free list and to memory.
\<close>

section \<open>Unmapping a range\<close>

definition leaf_pte :: "u64 \<Rightarrow> bool" where
  "leaf_pte e \<longleftrightarrow> e AND PTE_V \<noteq> 0 \<and> PTE_FLAGS e \<noteq> PTE_V"

text \<open>The physical pages behind \<open>n\<close> pages from \<open>va\<close>, in order of address.\<close>

definition frames :: "memory \<Rightarrow> u64 \<Rightarrow> u64 \<Rightarrow> nat \<Rightarrow> u64 list" where
  "frames m p va n = map (\<lambda>i. PTE2PA (lookup 2 m p (va + of_nat (4096 * i)))) [0..<n]"

lemma frames_Suc: "frames m p va (Suc n) = PTE2PA (lookup 2 m p va) # frames m p (va + PGSIZE) n"
proof -
  have "[0..<Suc n] = 0 # map Suc [0..<n]" by (simp add: map_Suc_upt upt_conv_Cons)
  then show ?thesis by (simp add: frames_def PGSIZE_def algebra_simps)
qed

lemma frames_0 [simp]: "frames m p va 0 = []"
  by (simp add: frames_def)

text \<open>Pages the allocator may take back: real pages, distinct, neither free already nor
  in use by the tables.\<close>

definition returnable :: "'a phys_scheme \<Rightarrow> u64 \<Rightarrow> u64 list \<Rightarrow> u64 list \<Rightarrow> bool" where
  "returnable s p ps fs \<longleftrightarrow> distinct fs \<and>
     (\<forall>f\<in>set fs. page_ok s f \<and> f \<notin> set ps \<and> f \<notin> tables 2 (mem s) p)"

definition in_pages :: "u64 \<Rightarrow> nat \<Rightarrow> u64 \<Rightarrow> bool" where
  "in_pages va n vb \<longleftrightarrow>
     unat va \<le> unat (PGROUNDDOWN vb) \<and> unat (PGROUNDDOWN vb) < unat va + 4096 * n"

lemma in_pages_0 [simp]: "\<not> in_pages va 0 vb"
  by (simp add: in_pages_def)

lemma in_pages_Suc:
  assumes "page_aligned va" "unat va + 4096 * Suc n \<le> unat MAXVA"
  shows "in_pages va (Suc n) vb \<longleftrightarrow> PGROUNDDOWN vb = va \<or> in_pages (va + PGSIZE) n vb"
proof -
  obtain i j where ij: "unat va = 4096 * i" "unat (PGROUNDDOWN vb) = 4096 * j"
    using assms(1) by (auto simp: page_aligned_unat unat_PGROUNDDOWN)
  then have "PGROUNDDOWN vb = va \<longleftrightarrow> i = j" by (auto simp: word_unat_eq_iff)
  then show ?thesis unfolding in_pages_def unat_va_plus [OF assms(2)] ij by auto
qed

text \<open>The entries of \<open>n\<close> pages from \<open>va\<close> are gone and the pages \<open>fs\<close> are free.\<close>

definition unmapped ::
  "u64 \<Rightarrow> u64 \<Rightarrow> nat \<Rightarrow> 'a phys_scheme \<Rightarrow> u64 list \<Rightarrow> u64 list \<Rightarrow> 'a phys_scheme \<Rightarrow> bool" where
  "unmapped p va n s ps fs t \<longleftrightarrow>
     phys_frame s t \<and> pt_ok t p (rev fs @ ps) \<and> tables 2 (mem t) p = tables 2 (mem s) p \<and>
     (\<forall>vb. sv39 vb \<longrightarrow> lookup 2 (mem t) p vb =
        (if in_pages va n vb then 0 else lookup 2 (mem s) p vb)) \<and>
     (\<forall>x. PGROUNDDOWN x \<notin> tables 2 (mem s) p \<union> set fs \<longrightarrow> mem t x = mem s x)"

lemma kfree_pt_ok:
  assumes ok: "pt_ok s p ps" and f: "page_ok s f" "f \<notin> set ps" "f \<notin> tables 2 (mem s) p"
  obtains t where "kfree f s = Ok t" "phys_frame s t" "pt_ok t p (f # ps)"
    "tables 2 (mem t) p = tables 2 (mem s) p" "leaf_table 2 (mem t) p = leaf_table 2 (mem s) p"
    "lookup 2 (mem t) p = lookup 2 (mem s) p" "\<And>x. PGROUNDDOWN x \<noteq> f \<Longrightarrow> mem t x = mem s x"
proof -
  have h: "L_kmem \<notin> set (held s)" "kmem_inv s ps" "pt_wf 2 (mem s) p" "set ps \<inter> tables 2 (mem s) p = {}"
    using ok by (auto simp: pt_ok_def)
  obtain t where t: "kfree f s = Ok t" "kmem_inv t (f # ps)" "\<And>x. PGROUNDDOWN x \<noteq> f \<Longrightarrow> mem t x = mem s x"
    using kfree_inv [OF h(2) f(1,2) h(1)] by (auto elim: returnsE)
  have fr: "phys_frame s t" using t(1) kfree_Ok [OF f(1) h(1)] by auto
  have "mem t x = mem s x" if "PGROUNDDOWN x \<in> tables 2 (mem s) p" for x
    using that f(3) by (intro t(3)) auto
  from tables_frame [OF h(3) this]
  show thesis using that [OF t(1) fr] t h f(3) phys_frameD [OF fr] by (auto simp: pt_ok_def)
qed

lemma unmap_one:
  assumes ok: "pt_ok s p ps" and va: "page_aligned va" "va < MAXVA"
    and leaf: "leaf_pte (lookup 2 (mem s) p va)"
    and fs: "fs = (if df then [PTE2PA (lookup 2 (mem s) p va)] else [])" "returnable s p ps fs"
  obtains a t where "walk p va False s = Ok (a, s)" "a \<noteq> 0" "load64 (mem s) a = lookup 2 (mem s) p va"
    "(if df then kfree (PTE2PA (lookup 2 (mem s) p va)) s else Ok s) = Ok t"
    "unmapped p va 1 s ps fs (t\<lparr>mem := store64 (mem t) a 0\<rparr>)"
proof -
  have wf: "pt_wf 2 (mem s) p" using ok by (simp add: pt_ok_def)
  have V: "lookup 2 (mem s) p va \<noteq> 0" using leaf by (auto simp: leaf_pte_def)
  let ?a = "leaf_slot 2 (mem s) p va"
  have a: "?a \<noteq> 0" "load64 (mem s) ?a = lookup 2 (mem s) p va" using leaf_slot_lookup [OF wf, of va] V by auto
  obtain q where q: "leaf_table 2 (mem s) p va = Some q" "?a = slot q (PX 0 va)"
    using a(1) by (auto simp: leaf_slot_def split: option.splits)
  obtain t where t: "(if df then kfree (PTE2PA (lookup 2 (mem s) p va)) s else Ok s) = Ok t" "phys_frame s t"
    "pt_ok t p (fs @ ps)" "tables 2 (mem t) p = tables 2 (mem s) p"
    "leaf_table 2 (mem t) p = leaf_table 2 (mem s) p" "lookup 2 (mem t) p = lookup 2 (mem s) p"
    "\<And>x. PGROUNDDOWN x \<notin> set fs \<Longrightarrow> mem t x = mem s x"
  proof (cases df)
    case True
    then show thesis
      using that fs kfree_pt_ok [OF ok, of "PTE2PA (lookup 2 (mem s) p va)"] by (auto simp: returnable_def)
  qed (use that ok fs in auto)
  have wft: "pt_wf 2 (mem t) p" using t(3) by (simp add: pt_ok_def)
  have qt: "leaf_table 2 (mem t) p va = Some q" using t(5) q by simp
  let ?t = "t\<lparr>mem := store64 (mem t) ?a 0\<rparr>"
  have st: "pt_step p t [] ?t (fs @ ps)" unfolding q(2) by (rule leaf_store_step [OF t(3) qt])
  have lk: "lookup 2 (mem ?t) p vb = (if PGROUNDDOWN vb = va then 0 else lookup 2 (mem s) p vb)"
    if "sv39 vb" for vb
    using lookup_store [OF wft qt, of 0 vb] same_page_iff [OF sv39_MAXVA [OF va(2)] that] va(1) t(6) q(2) by auto
  have "unat va + 4096 * Suc 0 \<le> unat MAXVA"
  proof -
    obtain i where "unat va = 4096 * i" using va(1) by (auto simp: page_aligned_unat)
    then show ?thesis using va(2) by (simp add: word_less_nat_alt MAXVA_def)
  qed
  then have rng: "in_pages va 1 vb \<longleftrightarrow> PGROUNDDOWN vb = va" for vb
    using in_pages_Suc [OF va(1), of 0 vb] by simp
  have "rev fs = fs" using fs by auto
  moreover have "mem ?t x = mem s x" if "PGROUNDDOWN x \<notin> tables 2 (mem s) p \<union> set fs" for x
    using st that t(4,7) unfolding pt_step_def by auto
  ultimately have "unmapped p va 1 s ps fs ?t"
    using st t lk unfolding unmapped_def rng pt_step_def by (auto intro: phys_frame_trans)
  with that [OF walk_noalloc [OF va(2)] a t(1)] show thesis by blast
qed

lemma unmapped_Suc:
  assumes va: "page_aligned va" "unat va + 4096 * Suc n \<le> unat MAXVA"
    and one: "unmapped p va 1 s ps fs t" and rest: "unmapped p (va + PGSIZE) n t (rev fs @ ps) gs u"
  shows "unmapped p va (Suc n) s ps (fs @ gs) u"
proof -
  have "in_pages va 1 vb \<longleftrightarrow> PGROUNDDOWN vb = va" for vb
    using in_pages_Suc [OF va(1), of 0 vb] va(2) by simp
  then have "lookup 2 (mem u) p vb = (if in_pages va (Suc n) vb then 0 else lookup 2 (mem s) p vb)"
    if "sv39 vb" for vb
    using one rest that unfolding unmapped_def in_pages_Suc [OF va] by simp
  moreover have "mem u x = mem s x" if "PGROUNDDOWN x \<notin> tables 2 (mem s) p \<union> set (fs @ gs)" for x
    using one rest that unfolding unmapped_def by auto
  ultimately show ?thesis
    using one rest unfolding unmapped_def by (auto intro: phys_frame_trans)
qed

lemma uvmunmap_loop_unmaps:
  assumes "pt_ok s p ps" "page_aligned va" "unat va + 4096 * n \<le> unat MAXVA"
    and "\<forall>i<n. leaf_pte (lookup 2 (mem s) p (va + of_nat (4096 * i)))"
    and "returnable s p ps (if df then frames (mem s) p va n else [])"
  shows "returns (uvmunmap_loop n p va (va + of_nat (4096 * n)) df s)
    (unmapped p va n s ps (if df then frames (mem s) p va n else []))"
  using assms
proof (induction n arbitrary: va s ps)
  case 0
  then show ?case by (simp add: unmapped_def)
next
  case (Suc n)
  note u = unat_va_plus [OF Suc.prems(3)]
  have va: "va < MAXVA" using Suc.prems(3) by (simp add: word_less_nat_alt)
  have leaf: "leaf_pte (lookup 2 (mem s) p va)" using Suc.prems(4) by auto
  have lt: "va < va + of_nat (4096 * Suc n)"
    using unat_add_of_nat [of va "4096 * Suc n"] Suc.prems(3) by (simp add: MAXVA_def word_less_nat_alt)
  let ?f = "if df then [PTE2PA (lookup 2 (mem s) p va)] else []"
  have rf: "returnable s p ps ?f" using Suc.prems(5) by (auto simp: returnable_def frames_Suc)
  obtain a t where w: "walk p va False s = Ok (a, s)" "a \<noteq> 0" "load64 (mem s) a = lookup 2 (mem s) p va"
    "(if df then kfree (PTE2PA (lookup 2 (mem s) p va)) s else Ok s) = Ok t"
    and one: "unmapped p va 1 s ps ?f (t\<lparr>mem := store64 (mem t) a 0\<rparr>)"
    using unmap_one [OF Suc.prems(1,2) va leaf refl rf] by metis
  let ?t = "t\<lparr>mem := store64 (mem t) a 0\<rparr>"
  have addr: "va + PGSIZE + of_nat (4096 * i) = va + of_nat (4096 * Suc i)" for i
    by (simp add: PGSIZE_def algebra_simps)
  have keep: "lookup 2 (mem ?t) p (va + PGSIZE + of_nat (4096 * i)) =
      lookup 2 (mem s) p (va + PGSIZE + of_nat (4096 * i))" if "i < n" for i
  proof -
    let ?vb = "va + of_nat (4096 * Suc i)"
    have ub: "unat ?vb = unat va + 4096 * Suc i"
      by (rule unat_add_of_nat) (use Suc.prems(3) that in \<open>simp add: MAXVA_def\<close>)
    then have "page_aligned ?vb" "sv39 ?vb"
      using Suc.prems(2,3) that by (auto simp: page_aligned_unat sv39_def MAXVA_def mod_add_eq)
    then show ?thesis
      unfolding addr using one ub unfolding unmapped_def by (simp add: in_pages_def)
  qed
  have fr: "frames (mem ?t) p (va + PGSIZE) n = frames (mem s) p (va + PGSIZE) n"
    unfolding frames_def by (rule map_cong) (use keep in auto)
  let ?g = "if df then frames (mem s) p (va + PGSIZE) n else []"
  have fg: "(if df then frames (mem s) p va (Suc n) else []) = ?f @ ?g" by (simp add: frames_Suc)
  have kt: "kend ?t = kend s" "tables 2 (mem ?t) p = tables 2 (mem s) p"
    using one phys_frameD [of s ?t] unfolding unmapped_def by auto
  have "returns (uvmunmap_loop n p (va + PGSIZE) (va + PGSIZE + of_nat (4096 * n)) df ?t)
      (unmapped p (va + PGSIZE) n ?t (rev ?f @ ps) (if df then frames (mem ?t) p (va + PGSIZE) n else []))"
  proof (rule Suc.IH)
    show "pt_ok ?t p (rev ?f @ ps)" using one by (simp add: unmapped_def)
    show "page_aligned (va + PGSIZE)" using Suc.prems(2) u by (simp add: page_aligned_unat)
    show "unat (va + PGSIZE) + 4096 * n \<le> unat MAXVA" using Suc.prems(3) u by simp
    show "\<forall>i<n. leaf_pte (lookup 2 (mem ?t) p (va + PGSIZE + of_nat (4096 * i)))"
      using keep Suc.prems(4) unfolding addr by auto
    show "returnable ?t p (rev ?f @ ps) (if df then frames (mem ?t) p (va + PGSIZE) n else [])"
      using Suc.prems(5) unfolding fr kt returnable_def page_ok_cong [OF kt(1)] fg by auto
  qed
  then have "returns (uvmunmap_loop n p (va + PGSIZE) (va + of_nat (4096 * Suc n)) df ?t)
      (unmapped p (va + PGSIZE) n ?t (rev ?f @ ps) ?g)"
    unfolding fr by (simp add: PGSIZE_def algebra_simps)
  moreover have "uvmunmap_loop (Suc n) p va (va + of_nat (4096 * Suc n)) df s =
      uvmunmap_loop n p (va + PGSIZE) (va + of_nat (4096 * Suc n)) df ?t"
    using lt w leaf by (cases df; simp add: leaf_pte_def del: of_nat_mult)
  ultimately show ?case
    unfolding fg by (simp only:) (erule returns_mono, rule unmapped_Suc [OF Suc.prems(2,3) one])
qed

text \<open>C10. \<^verbatim>\<open>uvmunmap\<close> on a mapped range returns: exactly the entries of the range are
  cleared, every other translation stays, and with \<^verbatim>\<open>do_free\<close> exactly the pages
  behind the range go to the free list, each once.\<close>

theorem uvmunmap_unmaps:
  assumes "pt_ok s p ps" "page_aligned va" "unat va + 4096 * n \<le> unat MAXVA"
    and "\<forall>i<n. leaf_pte (lookup 2 (mem s) p (va + of_nat (4096 * i)))"
    and "returnable s p ps (if df then frames (mem s) p va n else [])"
  shows "returns (uvmunmap p va (of_nat n) df s)
    (unmapped p va n s ps (if df then frames (mem s) p va n else []))"
proof -
  have "unat (of_nat n :: u64) = n"
    using assms(3) by (intro unat_of_nat_small) (simp add: MAXVA_def)
  moreover have "va + of_nat n * PGSIZE = va + of_nat (4096 * n)" by (simp add: PGSIZE_def)
  ultimately show ?thesis
    using uvmunmap_loop_unmaps [OF assms] assms(2) by (simp add: uvmunmap_def page_aligned_def)
qed

theorem uvmunmap_unmaps_witness:
  "returns (uvmunmap 0x80102000 0 1 True demo_state)
    (unmapped 0x80102000 0 1 demo_state [0x80100000, 0x80101000] [0x80105000])"
proof -
  have l: "lookup 2 demo_mem 0x80102000 0 = PA2PTE 0x80105000 OR (PTE_R OR PTE_W OR PTE_U OR PTE_V)"
    using demo_lookup [of 0] by (simp add: sv39_def PGROUNDDOWN_def)
  then have f: "frames (mem demo_state) 0x80102000 0 1 = [0x80105000]"
    by (simp add: frames_def demo_state_def PTE2PA_PA2PTE page_aligned_unat)
      (simp add: pte_bits PA2PTE_def PTE2PA_def)
  have "leaf_pte (lookup 2 demo_mem 0x80102000 0)"
    unfolding l by (simp add: leaf_pte_def pte_bits PA2PTE_def PTE_FLAGS_def)
  moreover have "returnable demo_state 0x80102000 [0x80100000, 0x80101000] [0x80105000]"
    by (simp add: returnable_def demo_state_def demo_tables page_ok_def page_aligned_unat PHYSTOP_def KERNBASE_def)
  ultimately show ?thesis
    using uvmunmap_unmaps [OF demo_pt_ok, of 0 1 True] f
    by (simp add: MAXVA_def page_aligned_unat demo_state_def)
qed

section \<open>Taking a page table apart\<close>

text \<open>A tree without leaf mappings.\<close>

fun pt_bare :: "nat \<Rightarrow> memory \<Rightarrow> u64 \<Rightarrow> bool" where
  "pt_bare 0 m p \<longleftrightarrow> (\<forall>i<512. child m p i = None)"
| "pt_bare (Suc l) m p \<longleftrightarrow> (\<forall>i<512. \<forall>c. child m p i = Some c \<longrightarrow> pt_bare l m c)"

lemma pt_bare_frame:
  "pt_wf l m p \<Longrightarrow> pt_bare l m p \<Longrightarrow> (\<And>x. PGROUNDDOWN x \<in> tables l m p \<Longrightarrow> m' x = m x) \<Longrightarrow> pt_bare l m' p"
proof (induction l arbitrary: p)
  case 0
  then have "child m' p i = child m p i" if "i < 512" for i
    using that by (intro child_cong) auto
  with 0 show ?case by simp
next
  case (Suc l)
  have ch: "child m' p i = child m p i" if "i < 512" for i
    using Suc.prems pt_wf_root [OF Suc.prems(1)] that by (intro child_cong) auto
  show ?case
  proof (simp, intro allI impI)
    fix i c assume i: "i < 512" "child m' p i = Some c"
    then have c: "child m p i = Some c" using ch by simp
    show "pt_bare l m' c"
    proof (rule Suc.IH)
      show "pt_wf l m c" using pt_wf_child [OF Suc.prems(1) i(1) c] by simp
      show "pt_bare l m c" using Suc.prems(2) i(1) c by simp
      show "m' x = m x" if "PGROUNDDOWN x \<in> tables l m c" for x
        using Suc.prems(3) tables_child [OF i(1) c, of l] that by blast
    qed
  qed
qed

text \<open>The pages \<open>T\<close> have gone to the free list and nothing outside \<open>D\<close> was written.\<close>

definition gave_back :: "'a phys_scheme \<Rightarrow> u64 list \<Rightarrow> u64 set \<Rightarrow> u64 set \<Rightarrow> 'a phys_scheme \<Rightarrow> bool" where
  "gave_back s ps T D t \<longleftrightarrow> phys_frame s t \<and>
     (\<exists>us. distinct us \<and> set us = T \<and> kmem_inv t (us @ ps)) \<and>
     (\<forall>x. PGROUNDDOWN x \<notin> D \<longrightarrow> mem t x = mem s x)"

lemma gave_backE:
  assumes "gave_back s ps T D t"
  obtains us where "phys_frame s t" "distinct us" "set us = T" "kmem_inv t (us @ ps)"
    "\<forall>x. PGROUNDDOWN x \<notin> D \<longrightarrow> mem t x = mem s x"
  using assms unfolding gave_back_def by blast

definition subtables :: "nat \<Rightarrow> memory \<Rightarrow> u64 \<Rightarrow> nat set \<Rightarrow> u64 set" where
  "subtables l m p I = (\<Union>i\<in>I. case child m p i of None \<Rightarrow> {} | Some c \<Rightarrow> tables l m c)"

lemma subtables_simps [simp]:
  "subtables l m p {} = {}"
  "subtables l m p (insert i I) =
     (case child m p i of None \<Rightarrow> {} | Some c \<Rightarrow> tables l m c) \<union> subtables l m p I"
  by (auto simp: subtables_def)

lemma tables_subtables: "tables (Suc l) m p = insert p (subtables l m p {..<512})"
  by (simp add: tables.simps subtables_def)

lemma freewalk_entry_bare:
  assumes "child m p i = None" "m = mem s"
  shows "freewalk_entries f p (i # is) s = freewalk_entries f p is s"
  using assms by (auto simp: child_def Let_def split: if_splits)

lemma freewalk_entry_dir:
  assumes "child (mem s) p i = Some c" "dir_entry (mem s) p i" "f c s = Ok t"
  shows "freewalk_entries f p (i # is) s =
    freewalk_entries f p is (t\<lparr>mem := store64 (mem t) (slot p i) 0\<rparr>)"
  using assms by (auto simp: child_def dir_entry_def Let_def split: if_splits)

text \<open>What is left to do in a table after some of its entries have been handled.\<close>

definition dirs_ok :: "nat \<Rightarrow> 'a phys_scheme \<Rightarrow> u64 \<Rightarrow> u64 list \<Rightarrow> nat list \<Rightarrow> bool" where
  "dirs_ok l s p ps is \<longleftrightarrow> page_aligned p \<and> set is \<subseteq> {..<512} \<and> p \<notin> set ps \<and>
     kmem_inv s ps \<and> L_kmem \<notin> set (held s) \<and>
     (\<forall>i\<in>set is. \<forall>c. child (mem s) p i = Some c \<longrightarrow>
        dir_entry (mem s) p i \<and> pt_wf l (mem s) c \<and> pt_bare l (mem s) c \<and> p \<notin> tables l (mem s) c \<and>
        set ps \<inter> tables l (mem s) c = {} \<and> (\<forall>q\<in>tables l (mem s) c. page_ok s q)) \<and>
     (\<forall>i\<in>set is. \<forall>j\<in>set is. \<forall>c d. i \<noteq> j \<longrightarrow> child (mem s) p i = Some c \<longrightarrow>
        child (mem s) p j = Some d \<longrightarrow> tables l (mem s) c \<inter> tables l (mem s) d = {})"

lemma dirs_ok_step:
  assumes d: "dirs_ok l s p ps (i # is)" "i \<notin> set is" and c: "child (mem s) p i = Some c"
    and g: "gave_back s ps (tables l (mem s) c) (tables l (mem s) c) t"
    and us: "distinct us" "set us = tables l (mem s) c" "kmem_inv t (us @ ps)"
  defines "u \<equiv> t\<lparr>mem := store64 (mem t) (slot p i) 0\<rparr>"
  shows "dirs_ok l u p (us @ ps) is" "subtables l (mem u) p (set is) = subtables l (mem s) p (set is)"
    "phys_frame s u" "\<And>x. PGROUNDDOWN x \<notin> insert p (tables l (mem s) c) \<Longrightarrow> mem u x = mem s x"
proof -
  have al: "page_aligned p" "i < 512" "p \<notin> set ps" and sub: "\<And>j. j \<in> set is \<Longrightarrow> j < 512"
    using d(1) by (auto simp: dirs_ok_def)
  have fr: "phys_frame s t" and out: "\<And>x. PGROUNDDOWN x \<notin> tables l (mem s) c \<Longrightarrow> mem t x = mem s x"
    using g unfolding gave_back_def by blast+
  have pc: "p \<notin> tables l (mem s) c" using d(1) c by (auto simp: dirs_ok_def)
  show fu: "phys_frame s u" unfolding u_def using fr by (rule phys_frame_trans) simp
  show outu: "mem u x = mem s x" if "PGROUNDDOWN x \<notin> insert p (tables l (mem s) c)" for x
    using that al out by (simp add: u_def store64_slot_page)
  have ld: "load64 (mem u) (slot p j) = load64 (mem s) (slot p j)" if "j \<in> set is" for j
  proof -
    have "load64 (mem t) (slot p j) = load64 (mem s) (slot p j)"
      by (rule load64_slot_cong) (use al sub that pc out in auto)
    then show ?thesis using al sub that d(2) by (auto simp: u_def load64_store64_slot)
  qed
  then have ch: "child (mem u) p j = child (mem s) p j" "dir_entry (mem u) p j = dir_entry (mem s) p j"
    if "j \<in> set is" for j
    using that by (simp_all add: child_def dir_entry_def)
  have keep: "tables l (mem u) e = tables l (mem s) e \<and> pt_wf l (mem u) e \<and> pt_bare l (mem u) e"
    and dis: "tables l (mem s) c \<inter> tables l (mem s) e = {}"
    if j: "j \<in> set is" "child (mem s) p j = Some e" for j e
  proof -
    have e: "pt_wf l (mem s) e" "pt_bare l (mem s) e" "p \<notin> tables l (mem s) e"
      using d(1) j by (auto simp: dirs_ok_def)
    have "i \<noteq> j" using j d(2) by auto
    with d(1) j c show dd: "tables l (mem s) c \<inter> tables l (mem s) e = {}"
      unfolding dirs_ok_def by (meson list.set_intros)
    have "mem u x = mem s x" if "PGROUNDDOWN x \<in> tables l (mem s) e" for x
      using that dd e(3) by (intro outu) auto
    then show "tables l (mem u) e = tables l (mem s) e \<and> pt_wf l (mem u) e \<and> pt_bare l (mem u) e"
      using tables_frame [OF e(1), of "mem u"] pt_bare_frame [OF e(1,2), of "mem u"] by blast
  qed
  show "subtables l (mem u) p (set is) = subtables l (mem s) p (set is)"
    unfolding subtables_def using ch keep by (auto split: option.splits)
  have "kmem_inv u (us @ ps)"
  proof (rule kmem_inv_frame [OF us(3)])
    show "mem u x = mem t x" if x: "PGROUNDDOWN x \<in> set (us @ ps)" for x
    proof -
      have "PGROUNDDOWN x \<noteq> p" using x al(3) pc us(2) by auto
      then show ?thesis using al by (simp add: u_def store64_slot_page)
    qed
  qed (simp_all add: u_def)
  moreover have "held u = held s" "kend u = kend s" using phys_frameD [OF fu] by auto
  moreover have "p \<notin> set (us @ ps)" using pc us al by auto
  ultimately show "dirs_ok l u p (us @ ps) is"
    unfolding dirs_ok_def
  proof (intro conjI ballI allI impI)
    fix j e assume j: "j \<in> set is" "child (mem u) p j = Some e"
    then have e: "child (mem s) p j = Some e" using ch by simp
    have old: "dir_entry (mem s) p j \<and> p \<notin> tables l (mem s) e \<and> set ps \<inter> tables l (mem s) e = {} \<and>
        (\<forall>q\<in>tables l (mem s) e. page_ok s q)"
      using d(1) j(1) e unfolding dirs_ok_def by simp
    note k = keep [OF j(1) e]
    show "dir_entry (mem u) p j" "p \<notin> tables l (mem u) e" "pt_wf l (mem u) e" "pt_bare l (mem u) e"
      using old ch(2) [OF j(1)] k by auto
    show "set (us @ ps) \<inter> tables l (mem u) e = {}" using old k dis [OF j(1) e] us(2) by auto
    show "page_ok u q" if "q \<in> tables l (mem u) e" for q
      using old k that phys_frameD(2) [OF fu] by (simp add: page_ok_def)
    fix i' f assume i': "i' \<in> set is" "j \<noteq> i'" "child (mem u) p i' = Some f"
    then have f: "child (mem s) p i' = Some f" using ch by simp
    have "tables l (mem s) e \<inter> tables l (mem s) f = {}"
      using d(1) j(1) i'(1,2) e f unfolding dirs_ok_def by (meson list.set_intros(2))
    then show "tables l (mem u) e \<inter> tables l (mem u) f = {}" using k keep [OF i'(1) f] by simp
  qed (use d(1) in \<open>auto simp: dirs_ok_def\<close>)
qed

lemma freewalk_entries_frees:
  assumes f: "\<And>c (s :: 'a phys_scheme) ps. pt_wf l (mem s) c \<Longrightarrow> pt_bare l (mem s) c \<Longrightarrow> kmem_inv s ps \<Longrightarrow>
      L_kmem \<notin> set (held s) \<Longrightarrow> set ps \<inter> tables l (mem s) c = {} \<Longrightarrow>
      \<forall>q\<in>tables l (mem s) c. page_ok s q \<Longrightarrow>
      returns (f c s) (gave_back s ps (tables l (mem s) c) (tables l (mem s) c))"
    and "dirs_ok l s p ps is" "distinct is"
  shows "returns (freewalk_entries f p is s)
    (gave_back s ps (subtables l (mem s) p (set is)) (insert p (subtables l (mem s) p (set is))))"
  using assms(2,3)
proof (induction "is" arbitrary: s ps)
  case Nil
  then show ?case by (auto simp: gave_back_def dirs_ok_def)
next
  case (Cons i "is")
  show ?case
  proof (cases "child (mem s) p i")
    case None
    moreover have "dirs_ok l s p ps is" using Cons.prems(1) by (auto simp: dirs_ok_def)
    ultimately show ?thesis
      using Cons.IH [of s ps] Cons.prems(2) freewalk_entry_bare [OF None refl] by simp
  next
    case (Some c)
    have c: "dir_entry (mem s) p i" "pt_wf l (mem s) c" "pt_bare l (mem s) c" "set ps \<inter> tables l (mem s) c = {}"
      "\<forall>q\<in>tables l (mem s) c. page_ok s q" "kmem_inv s ps" "L_kmem \<notin> set (held s)"
      using Cons.prems(1) Some by (auto simp: dirs_ok_def)
    obtain t where t: "f c s = Ok t" "gave_back s ps (tables l (mem s) c) (tables l (mem s) c) t"
      using f [OF c(2,3,6,7,4,5)] by (auto elim: returnsE)
    then obtain us where us: "distinct us" "set us = tables l (mem s) c" "kmem_inv t (us @ ps)"
      by (auto elim: gave_backE)
    let ?u = "t\<lparr>mem := store64 (mem t) (slot p i) 0\<rparr>"
    have ni: "i \<notin> set is" using Cons.prems(2) by simp
    note st = dirs_ok_step [OF Cons.prems(1) ni Some t(2) us]
    have "returns (freewalk_entries f p is ?u) (gave_back ?u (us @ ps) (subtables l (mem s) p (set is))
        (insert p (subtables l (mem s) p (set is))))"
      using Cons.IH [OF st(1)] Cons.prems(2) unfolding st(2) by simp
    then show ?thesis
      unfolding freewalk_entry_dir [where f = f, OF Some c(1) t(1)]
    proof (rule returns_mono)
      fix v assume "gave_back ?u (us @ ps) (subtables l (mem s) p (set is)) (insert p (subtables l (mem s) p (set is))) v"
      then obtain vs where v: "phys_frame ?u v" "distinct vs" "set vs = subtables l (mem s) p (set is)"
        "kmem_inv v (vs @ us @ ps)"
        "\<forall>x. PGROUNDDOWN x \<notin> insert p (subtables l (mem s) p (set is)) \<longrightarrow> mem v x = mem ?u x"
        by (rule gave_backE)
      have "distinct (vs @ us @ ps)" using v(4) by (simp add: kmem_inv_def)
      then have "distinct (vs @ us)" by auto
      moreover have "mem v x = mem s x"
        if "PGROUNDDOWN x \<notin> insert p (subtables l (mem s) p (set (i # is)))" for x
        using v(5) st(4) [of x] that Some by auto
      ultimately show "gave_back s ps (subtables l (mem s) p (set (i # is)))
          (insert p (subtables l (mem s) p (set (i # is)))) v"
        using v us Some phys_frame_trans [OF st(3) v(1)] unfolding gave_back_def
        by (intro conjI exI [of _ "vs @ us"]) auto
    qed
  qed
qed

lemma freewalk_entries_bare:
  "\<forall>i\<in>set is. child (mem s) p i = None \<Longrightarrow> freewalk_entries f p is s = Ok s"
  by (induction "is") (auto simp: child_def Let_def split: if_splits)

lemma kfree_root:
  assumes "gave_back s ps T D t" "page_ok s p" "p \<notin> set ps" "p \<notin> T" "L_kmem \<notin> set (held s)"
  shows "returns (kfree p t) (gave_back s ps (insert p T) (insert p D))"
proof -
  obtain us where us: "phys_frame s t" "distinct us" "set us = T" "kmem_inv t (us @ ps)"
    "\<forall>x. PGROUNDDOWN x \<notin> D \<longrightarrow> mem t x = mem s x"
    using assms(1) by (rule gave_backE)
  have "page_ok t p" "L_kmem \<notin> set (held t)"
    using assms(2,5) phys_frameD [OF us(1)] by (auto simp: page_ok_def)
  note ok = this
  have "returns (kfree p t) (\<lambda>u. kmem_inv u (p # us @ ps) \<and> held u = held t \<and> kend u = kend t \<and>
      (\<forall>x. PGROUNDDOWN x \<noteq> p \<longrightarrow> mem u x = mem t x))"
    using us assms(3,4) ok by (intro kfree_inv) auto
  then obtain u where u: "kfree p t = Ok u" "kmem_inv u (p # us @ ps)"
    "\<forall>x. PGROUNDDOWN x \<noteq> p \<longrightarrow> mem u x = mem t x"
    by (auto elim: returnsE)
  have "phys_frame t u" using u(1) kfree_Ok [OF ok] by auto
  then have "phys_frame s u" by (rule phys_frame_trans [OF us(1)])
  moreover have "distinct (p # us)" using us assms(4) by simp
  moreover have "\<forall>x. PGROUNDDOWN x \<notin> insert p D \<longrightarrow> mem u x = mem s x" using us(5) u(3) by simp
  ultimately have "gave_back s ps (insert p T) (insert p D) u"
    using us(3) u(2) unfolding gave_back_def by (intro conjI exI [of _ "p # us"]) auto
  with u(1) show ?thesis by simp
qed

lemma freewalk_gives_back:
  assumes "pt_wf l (mem s) p" "pt_bare l (mem s) p" "kmem_inv s ps" "L_kmem \<notin> set (held s)"
    and "set ps \<inter> tables l (mem s) p = {}" "\<forall>q\<in>tables l (mem s) p. page_ok s q"
  shows "returns (freewalk (Suc l) p s) (gave_back s ps (tables l (mem s) p) (tables l (mem s) p))"
  using assms
proof (induction l arbitrary: p s ps)
  case 0
  have "freewalk_entries (freewalk 0) p [0..<512] s = Ok s"
  proof (rule freewalk_entries_bare, rule ballI)
    fix i assume "i \<in> set [0..<512]"
    then have "i < 512" unfolding set_upt by simp
    then show "child (mem s) p i = None" using "0.prems"(2) by simp
  qed
  moreover have "gave_back s ps {} {} s" using 0 by (auto simp: gave_back_def)
  from kfree_root [OF this, of p] 0 have "returns (kfree p s) (gave_back s ps {p} {p})" by auto
  ultimately show ?case by (simp only: freewalk.simps(2) rbind.simps tables.simps)
next
  case (Suc l)
  have wf: "page_aligned p" "p \<noteq> 0" using pt_wf_root [OF Suc.prems(1)] by auto
  have "p \<in> tables (Suc l) (mem s) p" by simp
  then have p: "p \<notin> set ps" "page_ok s p" using Suc.prems(5,6) by blast+
  have np: "p \<notin> subtables l (mem s) p {..<512}"
    using pt_wf_child [OF Suc.prems(1)] by (auto simp: subtables_def split: option.splits)
  have "dirs_ok l s p ps [0..<512]"
    unfolding dirs_ok_def
  proof (intro conjI ballI allI impI)
    fix i c assume i: "i \<in> set [0..<512]" "child (mem s) p i = Some c"
    then have i5: "i < 512" by simp
    note w = pt_wf_child [OF Suc.prems(1) i5 i(2)] and sub = tables_child [OF i5 i(2), of l]
    show "dir_entry (mem s) p i" "pt_wf l (mem s) c" "p \<notin> tables l (mem s) c" using w by auto
    show "pt_bare l (mem s) c" using Suc.prems(2) i5 i(2) by simp
    show "set ps \<inter> tables l (mem s) c = {}" using Suc.prems(5) sub by blast
    show "page_ok s q" if "q \<in> tables l (mem s) c" for q using Suc.prems(6) sub that by blast
    fix j d assume "j \<in> set [0..<512]" "i \<noteq> j" "child (mem s) p j = Some d"
    then show "tables l (mem s) c \<inter> tables l (mem s) d = {}"
      using pt_wf_disjoint [OF Suc.prems(1) i5 _ i(2)] by (auto simp: disjoint_iff)
  qed (use wf p Suc.prems in auto)
  note e = freewalk_entries_frees [where f = "freewalk (Suc l)", OF Suc.IH this distinct_upt,
      unfolded set_upt atLeast0LessThan]
  obtain t where t: "freewalk_entries (freewalk (Suc l)) p [0..<512] s = Ok t"
    "gave_back s ps (subtables l (mem s) p {..<512}) (insert p (subtables l (mem s) p {..<512})) t"
    using e by (rule returnsE)
  have "returns (kfree p t) (gave_back s ps (tables (Suc l) (mem s) p) (tables (Suc l) (mem s) p))"
    using kfree_root [OF t(2) p(2,1) np Suc.prems(4)] by (simp add: tables_subtables)
  with t(1) show ?case by (simp only: freewalk.simps rbind.simps)
qed

lemma PX_nat: "PX k va = unat va div 2 ^ (12 + 9 * k) mod 512"
proof -
  have "PX k va = take_bit 9 (unat (drop_bit (12 + 9 * k) va))"
    unfolding PX_take_bit PXSHIFT_def by (rule unsigned_take_bit_eq)
  also have "unat (drop_bit (12 + 9 * k) va) = unat va div 2 ^ (12 + 9 * k)"
    by (simp only: unat_drop_bit_eq drop_bit_nat_def)
  finally show ?thesis by (simp add: take_bit_nat_def)
qed

lemma PX_address:
  assumes "i < 512" "j < 512" "k < 512"
  defines "va \<equiv> of_nat (i * 2 ^ 30 + j * 2 ^ 21 + k * 2 ^ 12) :: u64"
  shows "sv39 va" "PX 2 va = i" "PX 1 va = j" "PX 0 va = k"
proof -
  let ?n = "i * 2 ^ 30 + j * 2 ^ 21 + k * 2 ^ 12"
  have n: "?n < 2 ^ 39" using assms(1-3) by simp
  then have u: "unat va = ?n" unfolding va_def by (intro unat_of_nat_small) simp
  show "sv39 va" using n by (simp add: sv39_def u)
  have 2: "?n div 2 ^ 30 = i" using assms(2,3) by (intro div_nat_eqI) auto
  have "?n div 2 ^ 21 = i * 512 + j" using assms(3) by (intro div_nat_eqI) auto
  then have 1: "?n div 2 ^ 21 mod 512 = j" using assms(2) by (metis mod_less mod_mult_self3)
  have "?n div 2 ^ 12 = (i * 512 + j) * 512 + k" by (intro div_nat_eqI) auto
  then have 0: "?n div 2 ^ 12 mod 512 = k" using assms(3) by (metis mod_less mod_mult_self3)
  show "PX 2 va = i" "PX 1 va = j" "PX 0 va = k"
    using 0 1 2 assms(1) by (simp_all add: PX_nat u)
qed

lemma lookup_2:
  "child m p (PX 2 va) = Some c \<Longrightarrow> child m c (PX 1 va) = Some d \<Longrightarrow>
   lookup 2 m p va = load64 m (slot d (PX 0 va))"
  by (simp add: numeral_2_eq_2)

lemma pt_bareI:
  assumes "\<And>va. sv39 va \<Longrightarrow> lookup 2 m p va AND PTE_V = 0"
  shows "pt_bare 2 m p"
proof -
  have "child m d k = None"
    if i: "i < 512" "child m p i = Some c" and j: "j < 512" "child m c j = Some d" and k: "k < 512" for i j k c d
  proof -
    obtain va where px: "sv39 va" "PX 2 va = i" "PX 1 va = j" "PX 0 va = k"
      using PX_address [OF i(1) j(1) k] by blast
    have "lookup 2 m p va = load64 m (slot d k)"
      using lookup_2 [of m p va c d] px i(2) j(2) by simp
    then have "load64 m (slot d k) AND PTE_V = 0" using assms [OF px(1)] by simp
    then show ?thesis by (simp add: child_def)
  qed
  then show ?thesis unfolding numeral_2_eq_2 pt_bare.simps by blast
qed

text \<open>An address space of \<open>n\<close> user pages from address 0 and nothing else, whose pages can
  all be given back.\<close>

definition uspace :: "'a phys_scheme \<Rightarrow> u64 \<Rightarrow> u64 list \<Rightarrow> nat \<Rightarrow> bool" where
  "uspace s p ps n \<longleftrightarrow> pt_ok s p ps \<and> 4096 * n \<le> unat MAXVA \<and>
     (\<forall>i<n. leaf_pte (lookup 2 (mem s) p (of_nat (4096 * i)))) \<and>
     (\<forall>va. sv39 va \<longrightarrow> lookup 2 (mem s) p va AND PTE_V \<noteq> 0 \<longrightarrow> in_pages 0 n va) \<and>
     returnable s p ps (frames (mem s) p 0 n) \<and>
     (\<forall>q\<in>tables 2 (mem s) p. page_ok s q)"

lemma PGROUNDUP_pages:
  assumes "unat sz \<le> unat MAXVA"
  shows "PGROUNDUP sz div PGSIZE = of_nat ((unat sz + 4095) div 4096)"
proof -
  have "unat (PGROUNDUP sz) = (unat sz + 4095) div 4096 * 4096"
    using assms by (intro unat_PGROUNDUP) (simp add: MAXVA_def)
  moreover have "(unat sz + 4095) div 4096 < 2 ^ 64" using unat_lt2p [of sz] by simp
  ultimately show ?thesis
    by (simp add: word_unat_eq_iff unat_div_distrib PGSIZE_def unat_of_nat take_bit_nat_eq_self)
qed

text \<open>C11. \<^verbatim>\<open>uvmfree\<close> leaks nothing: it returns, and afterwards the free list holds, each
  once, the pages that were free before, every user page of the address space and
  every page of its page table.\<close>

theorem uvmfree_gives_back:
  assumes "uspace s p ps ((unat sz + 4095) div 4096)" "unat sz \<le> unat MAXVA"
  shows "returns (uvmfree p sz s) (\<lambda>t. phys_frame s t \<and> (\<exists>qs. kmem_inv t qs \<and>
    set qs = set ps \<union> set (frames (mem s) p 0 ((unat sz + 4095) div 4096)) \<union> tables 2 (mem s) p))"
proof -
  define n where "n = (unat sz + 4095) div 4096"
  let ?fs = "frames (mem s) p 0 n"
  have u: "pt_ok s p ps" "4096 * n \<le> unat MAXVA" "\<forall>i<n. leaf_pte (lookup 2 (mem s) p (of_nat (4096 * i)))"
    "\<And>va. sv39 va \<Longrightarrow> lookup 2 (mem s) p va AND PTE_V \<noteq> 0 \<Longrightarrow> in_pages 0 n va" "returnable s p ps ?fs"
    "\<forall>q\<in>tables 2 (mem s) p. page_ok s q"
    using assms(1) unfolding uspace_def n_def [symmetric] by auto
  have "returns (if sz > 0 then uvmunmap p 0 (PGROUNDUP sz div PGSIZE) True s else Ok s) (unmapped p 0 n s ps ?fs)"
  proof (cases "sz > 0")
    case True
    then show ?thesis
      using uvmunmap_unmaps [OF u(1), of 0 n True] u PGROUNDUP_pages [OF assms(2)]
      by (simp add: page_aligned_unat n_def)
  next
    case False
    then have "n = 0" by (simp add: n_def word_gt_0)
    then show ?thesis using False u(1) by (simp add: unmapped_def)
  qed
  then obtain t where t: "(if sz > 0 then uvmunmap p 0 (PGROUNDUP sz div PGSIZE) True s else Ok s) = Ok t"
    "unmapped p 0 n s ps ?fs t" by (rule returnsE)
  have fr: "phys_frame s t" and tb: "tables 2 (mem t) p = tables 2 (mem s) p" and ok: "pt_ok t p (rev ?fs @ ps)"
    and lk: "\<And>va. sv39 va \<Longrightarrow> lookup 2 (mem t) p va = (if in_pages 0 n va then 0 else lookup 2 (mem s) p va)"
    using t(2) unfolding unmapped_def by auto
  have "pt_bare 2 (mem t) p"
    using lk u(4) by (intro pt_bareI) auto
  moreover have "\<forall>q\<in>tables 2 (mem t) p. page_ok t q"
    using u(6) phys_frameD [OF fr] by (simp add: tb page_ok_def)
  ultimately have "returns (freewalk (Suc 2) p t)
      (gave_back t (rev ?fs @ ps) (tables 2 (mem t) p) (tables 2 (mem t) p))"
    using ok by (intro freewalk_gives_back) (auto simp: pt_ok_def)
  then have "returns (uvmfree p sz s) (gave_back t (rev ?fs @ ps) (tables 2 (mem s) p) (tables 2 (mem s) p))"
    unfolding uvmfree_def t(1) tb by (simp add: numeral_3_eq_3 numeral_2_eq_2)
  then show ?thesis
  proof (rule returns_mono)
    fix v assume "gave_back t (rev ?fs @ ps) (tables 2 (mem s) p) (tables 2 (mem s) p) v"
    then obtain us where v: "phys_frame t v" "set us = tables 2 (mem s) p" "kmem_inv v (us @ rev ?fs @ ps)"
      by (rule gave_backE)
    have "set (us @ rev ?fs @ ps) = set ps \<union> set ?fs \<union> tables 2 (mem s) p" using v(2) by auto
    with v(3) phys_frame_trans [OF fr v(1)]
    show "phys_frame s v \<and> (\<exists>qs. kmem_inv v qs \<and>
      set qs = set ps \<union> set (frames (mem s) p 0 ((unat sz + 4095) div 4096)) \<union> tables 2 (mem s) p)"
      unfolding n_def by blast
  qed
qed

lemma demo_mem_state: "mem demo_state = demo_mem"
  by (simp add: demo_state_def)

theorem uvmfree_gives_back_witness:
  "\<exists>t. uvmfree 0x80102000 4096 demo_state = Ok t \<and> (\<exists>qs. kmem_inv t qs \<and> distinct qs \<and>
    set qs = {0x80100000, 0x80101000, 0x80102000, 0x80103000, 0x80104000, 0x80105000})"
proof -
  have l: "lookup 2 demo_mem 0x80102000 0 = PA2PTE 0x80105000 OR (PTE_R OR PTE_W OR PTE_U OR PTE_V)"
    using demo_lookup [of 0] by (simp add: sv39_def PGROUNDDOWN_def)
  then have f: "frames demo_mem 0x80102000 0 1 = [0x80105000]"
    by (simp add: frames_def pte_bits PA2PTE_def PTE2PA_def)
  have lp: "leaf_pte (lookup 2 demo_mem 0x80102000 0)"
    unfolding l by (simp add: leaf_pte_def pte_bits PA2PTE_def PTE_FLAGS_def)
  have ip: "in_pages 0 1 va" if "sv39 va" "lookup 2 demo_mem 0x80102000 va AND PTE_V \<noteq> 0" for va
    using that demo_lookup [OF that(1)] by (auto simp: in_pages_def split: if_splits)
  have "uspace demo_state 0x80102000 [0x80100000, 0x80101000] 1"
    unfolding uspace_def
    using demo_pt_ok f lp ip
    by (auto simp: demo_state_def MAXVA_def returnable_def demo_tables page_ok_def page_aligned_unat
        PHYSTOP_def KERNBASE_def)
  then have "returns (uvmfree 0x80102000 4096 demo_state) (\<lambda>t. phys_frame demo_state t \<and>
      (\<exists>qs. kmem_inv t qs \<and> set qs = set [0x80100000, 0x80101000] \<union> set [0x80105000] \<union> tables 2 demo_mem 0x80102000))"
    using uvmfree_gives_back [of demo_state "0x80102000" "[0x80100000, 0x80101000]" 4096] f
    by (simp add: demo_mem_state MAXVA_def del: set_simps)
  then show ?thesis
    unfolding demo_tables by (elim returnsE) (auto simp: kmem_inv_def insert_commute)
qed

end
