(* ===== verification/File.thy ===== *)
theory File
  imports Pipe
begin

text \<open>
  The file table (\<^verbatim>\<open>kernel/file.c\<close>, \<^verbatim>\<open>kernel/file.h\<close>) and \<^verbatim>\<open>pipealloc\<close> (\<^verbatim>\<open>kernel/pipe.c\<close>). An
  open file is named by its index in \<^verbatim>\<open>ftable\<close>. The only device with read and write
  routines is the console. In the view of one thread an operation that sleeps blocks.
\<close>

definition NFILE :: nat where [xv6_consts]: "NFILE = 100"
definition NDEV :: int where [xv6_consts]: "NDEV = 10"
definition CONSOLE :: int where [xv6_consts]: "CONSOLE = 1"

datatype fdtype = FD_NONE | FD_PIPE | FD_INODE | FD_DEVICE

record openfile =
  ftype :: fdtype
  fref :: int
  readable :: bool
  writable :: bool
  fpipe :: u64
  fip :: nat
  foff :: u32
  fmajor :: u16

record flst = ppst +
  files :: "openfile list"

definition fil :: "'a flst_scheme \<Rightarrow> nat \<Rightarrow> openfile" where
  "fil s f = files s ! f"

definition upd_file :: "nat \<Rightarrow> (openfile \<Rightarrow> openfile) \<Rightarrow> 'a flst_scheme \<Rightarrow> 'a flst_scheme" where
  "upd_file f g s = s\<lparr>files := (files s)[f := g (files s ! f)]\<rparr>"

definition await :: "'r turn \<times> 's \<Rightarrow> ('r \<times> 's) res" where
  "await x = (case x of (Done r, s) \<Rightarrow> Ok (r, s) | (Sleeping c, s) \<Rightarrow> Block c)"

definition filealloc :: "'a flst_scheme \<Rightarrow> (nat option \<times> 'a flst_scheme) res" where
  "filealloc s =
     rbind (acquire L_ftable s) (\<lambda>s.
     let r = find_idx (\<lambda>f. fref f = 0) (take NFILE (files s));
         s = (case r of None \<Rightarrow> s | Some f \<Rightarrow> upd_file f (\<lambda>x. x\<lparr>fref := 1\<rparr>) s)
     in rbind (release L_ftable s) (\<lambda>s. Ok (r, s)))"

definition filedup :: "nat \<Rightarrow> 'a flst_scheme \<Rightarrow> 'a flst_scheme res" where
  "filedup f s =
     rbind (acquire L_ftable s) (\<lambda>s.
       if fref (fil s f) < 1 then Panic ''filedup''
       else release L_ftable (upd_file f (\<lambda>x. x\<lparr>fref := fref x + 1\<rparr>) s))"

definition fileclose :: "nat \<Rightarrow> 'a flst_scheme \<Rightarrow> 'a flst_scheme res" where
  "fileclose f s =
     rbind (acquire L_ftable s) (\<lambda>s.
     if fref (fil s f) < 1 then Panic ''fileclose''
     else let s = upd_file f (\<lambda>x. x\<lparr>fref := fref x - 1\<rparr>) s in
     if fref (fil s f) > 0 then release L_ftable s
     else let ff = fil s f in
          rbind (release L_ftable (upd_file f (\<lambda>x. x\<lparr>fref := 0, ftype := FD_NONE\<rparr>) s)) (\<lambda>s.
          if ftype ff = FD_PIPE then pipeclose (fpipe ff) (writable ff) s
          else if ftype ff = FD_INODE \<or> ftype ff = FD_DEVICE
          then rbind (begin_op s) (\<lambda>s. rbind (iput (fip ff) s) end_op)
          else Ok s))"

text \<open>The four bytes of padding of \<^verbatim>\<open>struct stat\<close> are whatever the stack holds (\<open>pad\<close>).\<close>

definition filestat :: "bytes \<Rightarrow> nat \<Rightarrow> u64 \<Rightarrow> 'a flst_scheme \<Rightarrow> (int \<times> 'a flst_scheme) res" where
  "filestat pad f addr s = with_proc s (\<lambda>p.
     if ftype (fil s f) = FD_INODE \<or> ftype (fil s f) = FD_DEVICE
     then let i = fip (fil s f) in
          rbind (ilock i s) (\<lambda>s.
          let st = stati (ino s i) pad in
          rbind (iunlock i s) (\<lambda>s.
          rbind (copyout (pagetable (pr s p)) addr st s) (\<lambda>(r, s).
          if r < 0 then Ok (-1, s) else Ok (0, s))))
     else Ok (-1, s))"

definition fileread :: "nat \<Rightarrow> u64 \<Rightarrow> int \<Rightarrow> 'a flst_scheme \<Rightarrow> (int \<times> 'a flst_scheme) res" where
  "fileread f addr n s =
     (if \<not> readable (fil s f) then Ok (-1, s)
      else case ftype (fil s f) of
        FD_PIPE \<Rightarrow> rbind (piperead (fpipe (fil s f)) addr n s) await
      | FD_DEVICE \<Rightarrow>
          if sint (fmajor (fil s f)) < 0 \<or> sint (fmajor (fil s f)) \<ge> NDEV \<or> sint (fmajor (fil s f)) \<noteq> CONSOLE
          then Ok (-1, s)
          else rbind (consoleread True addr n s) (\<lambda>(r, _, s). await (r, s))
      | FD_INODE \<Rightarrow>
          let i = fip (fil s f) in
          rbind (ilock i s) (\<lambda>s.
          rbind (readi i (UserAt addr) (foff (fil s f)) (word_of_int n) s) (\<lambda>(r, _, s).
          let s = (if r > 0 then upd_file f (\<lambda>x. x\<lparr>foff := foff x + word_of_int r\<rparr>) s else s)
          in rbind (iunlock i s) (\<lambda>s. Ok (r, s))))
      | FD_NONE \<Rightarrow> Panic ''fileread'')"

text \<open>Writes to an inode go in chunks of three blocks, each in its own transaction; \<open>i\<close> is
  the number of bytes written so far.\<close>

definition write_max :: int where
  "write_max = (MAXOPBLOCKS - 1 - 1 - 2) div 2 * int BSIZE"

definition filewrite_chunk :: "nat \<Rightarrow> u64 \<Rightarrow> int \<Rightarrow> 'a flst_scheme \<Rightarrow> (int \<times> 'a flst_scheme) res" where
  "filewrite_chunk f addr n1 s =
     (let i = fip (fil s f) in
      rbind (begin_op s) (\<lambda>s.
      rbind (ilock i s) (\<lambda>s.
      rbind (writei i (UserAt addr) (foff (fil s f)) (word_of_int n1) s) (\<lambda>(r, s).
      let s = (if r > 0 then upd_file f (\<lambda>x. x\<lparr>foff := foff x + word_of_int r\<rparr>) s else s)
      in rbind (iunlock i s) (\<lambda>s. rbind (end_op s) (\<lambda>s. Ok (r, s)))))))"

function filewrite_loop ::
  "nat \<Rightarrow> u64 \<Rightarrow> int \<Rightarrow> int \<Rightarrow> 'a flst_scheme \<Rightarrow> (int \<times> 'a flst_scheme) res" where
  "filewrite_loop f addr n i s =
     (if i < n
      then let n1 = (if n - i > write_max then write_max else n - i)
           in rbind (filewrite_chunk f (addr + word_of_int i) n1 s) (\<lambda>(r, s).
                if r \<noteq> n1 then Ok (i, s) else filewrite_loop f addr n (i + r) s)
      else Ok (i, s))"
  by pat_completeness auto
termination
  by (relation "measure (\<lambda>(f, addr, n, i, s). nat (n - i))")
    (auto simp: write_max_def MAXOPBLOCKS_def BSIZE_def)

declare filewrite_loop.simps [simp del]

definition filewrite :: "nat \<Rightarrow> u64 \<Rightarrow> int \<Rightarrow> 'a flst_scheme \<Rightarrow> (int \<times> 'a flst_scheme) res" where
  "filewrite f addr n s =
     (if \<not> writable (fil s f) then Ok (-1, s)
      else case ftype (fil s f) of
        FD_PIPE \<Rightarrow> rbind (pipewrite (fpipe (fil s f)) addr n s) (\<lambda>(r, _, s). await (r, s))
      | FD_DEVICE \<Rightarrow>
          if sint (fmajor (fil s f)) < 0 \<or> sint (fmajor (fil s f)) \<ge> NDEV \<or> sint (fmajor (fil s f)) \<noteq> CONSOLE
          then Ok (-1, s)
          else consolewrite True addr n s
      | FD_INODE \<Rightarrow>
          rbind (filewrite_loop f addr n 0 s) (\<lambda>(i, s). Ok (if i = n then n else -1, s))
      | FD_NONE \<Rightarrow> Panic ''filewrite'')"

section \<open>Pipes as files\<close>

definition close_opt :: "nat option \<Rightarrow> 'a flst_scheme \<Rightarrow> 'a flst_scheme res" where
  "close_opt r s = (case r of None \<Rightarrow> Ok s | Some f \<Rightarrow> fileclose f s)"

text \<open>The result is the read and the write end, or \<open>None\<close> for the return value -1.\<close>

definition pipealloc :: "'a flst_scheme \<Rightarrow> ((nat \<times> nat) option \<times> 'a flst_scheme) res" where
  "pipealloc s =
     rbind (filealloc s) (\<lambda>(f0, s).
     rbind (case f0 of None \<Rightarrow> Ok (None, s) | Some _ \<Rightarrow> filealloc s) (\<lambda>(f1, s).
     case (f0, f1) of
       (Some a, Some b) \<Rightarrow>
         rbind (kalloc s) (\<lambda>(pi, s).
         if pi = 0 then rbind (close_opt f0 s) (\<lambda>s. rbind (close_opt f1 s) (\<lambda>s. Ok (None, s)))
         else
           let s = upd_pipe pi (\<lambda>_. \<lparr>pdata = replicate PIPESIZE 5, nread = 0, nwrite = 0,
                     readopen = True, writeopen = True\<rparr>) s;
               s = upd_file a (\<lambda>x. x\<lparr>ftype := FD_PIPE, readable := True, writable := False, fpipe := pi\<rparr>) s;
               s = upd_file b (\<lambda>x. x\<lparr>ftype := FD_PIPE, readable := False, writable := True, fpipe := pi\<rparr>) s
           in Ok (Some (a, b), s))
     | _ \<Rightarrow> rbind (close_opt f0 s) (\<lambda>s. rbind (close_opt f1 s) (\<lambda>s. Ok (None, s)))))"

end
