(* ===== verification/Proc_Life.thy ===== *)
theory Proc_Life
  imports File
begin

text \<open>
  The operations of \<^verbatim>\<open>kernel/proc.c\<close> that use the file system: the first process, fork,
  exit, and the first return of a new process. \<^verbatim>\<open>exit\<close> is modelled up to the switch to the
  scheduler, from which it never returns.
\<close>

section \<open>The first process\<close>

definition upd_tf :: "nat \<Rightarrow> (trapframe \<Rightarrow> trapframe) \<Rightarrow> 'a pst_scheme \<Rightarrow> 'a pst_scheme" where
  "upd_tf p f s = (let a = trapframe (pr s p) in s\<lparr>tframes := (tframes s)(a := f (tframes s a))\<rparr>)"

definition initcode :: bytes where
  "initcode = [0x17, 0x05, 0x00, 0x00, 0x13, 0x05, 0x45, 0x02, 0x97, 0x05, 0x00, 0x00, 0x93, 0x85, 0x35, 0x02,
     0x93, 0x08, 0x70, 0x00, 0x73, 0x00, 0x00, 0x00, 0x93, 0x08, 0x20, 0x00, 0x73, 0x00, 0x00, 0x00,
     0xef, 0xf0, 0x9f, 0xff, 0x2f, 0x69, 0x6e, 0x69, 0x74, 0x00, 0x00, 0x24, 0x00, 0x00, 0x00, 0x00,
     0x00, 0x00, 0x00, 0x00]"

definition userinit :: "'a flst_scheme \<Rightarrow> 'a flst_scheme res" where
  "userinit s =
     rbind (allocproc s) (\<lambda>(r, s).
     case r of None \<Rightarrow> Panic ''kerneltrap''
     | Some p \<Rightarrow>
       rbind (uvmfirst (pagetable (pr s p)) initcode (s\<lparr>initproc := Some p\<rparr>)) (\<lambda>s.
       let s = upd_proc p (\<lambda>q. q\<lparr>sz := PGSIZE\<rparr>) s;
           s = upd_tf p (\<lambda>t. t\<lparr>tf_epc := 0, tf_sp := PGSIZE\<rparr>) s;
           s = upd_proc p (\<lambda>q. q\<lparr>pname := safestrcpy (ascii ''initcode'') 16\<rparr>) s
       in rbind (namei [slash] s) (\<lambda>(d, s).
          let s = upd_proc p (\<lambda>q. q\<lparr>cwd := d, pstate := RUNNABLE\<rparr>) s
          in release (L_proc p) s)))"

section \<open>Fork\<close>

fun fork_files :: "nat \<Rightarrow> nat \<Rightarrow> nat list \<Rightarrow> 'a flst_scheme \<Rightarrow> 'a flst_scheme res" where
  "fork_files p np [] s = Ok s"
| "fork_files p np (i # is) s =
     (case ofile (pr s p) ! i of
        None \<Rightarrow> fork_files p np is s
      | Some f \<Rightarrow> rbind (filedup f s) (\<lambda>s.
          fork_files p np is (upd_proc np (\<lambda>q. q\<lparr>ofile := (ofile q)[i := Some f]\<rparr>) s)))"

definition fork :: "'a flst_scheme \<Rightarrow> (int \<times> 'a flst_scheme) res" where
  "fork s = with_proc s (\<lambda>p.
     rbind (allocproc s) (\<lambda>(r, s).
     case r of None \<Rightarrow> Ok (-1, s)
     | Some np \<Rightarrow>
       rbind (uvmcopy (pagetable (pr s p)) (pagetable (pr s np)) (sz (pr s p)) s) (\<lambda>(r, s).
       if r < 0
       then rbind (freeproc np s) (\<lambda>s. rbind (release (L_proc np) s) (\<lambda>s. Ok (-1, s)))
       else
       let s = upd_proc np (\<lambda>q. q\<lparr>sz := sz (pr s p)\<rparr>) s;
           s = upd_tf np (\<lambda>_. tframes s (trapframe (pr s p))) s;
           s = upd_tf np (\<lambda>t. t\<lparr>tf_a := (tf_a t)[0 := 0]\<rparr>) s
       in rbind (fork_files p np [0..<NOFILE] s) (\<lambda>s.
       rbind (case cwd (pr s p) of None \<Rightarrow> Panic ''kerneltrap'' | Some d \<Rightarrow> idup d s) (\<lambda>(d, s).
       let s = upd_proc np (\<lambda>q. q\<lparr>cwd := Some d, pname := safestrcpy (pname (pr s p)) 16\<rparr>) s;
           n = pid (pr s np)
       in rbind (release (L_proc np) s) (\<lambda>s.
       rbind (acquire L_wait s) (\<lambda>s.
       rbind (release L_wait (upd_proc np (\<lambda>q. q\<lparr>parent := Some p\<rparr>) s)) (\<lambda>s.
       rbind (acquire (L_proc np) s) (\<lambda>s.
       rbind (release (L_proc np) (upd_proc np (\<lambda>q. q\<lparr>pstate := RUNNABLE\<rparr>) s)) (\<lambda>s.
       Ok (n, s))))))))))) "

section \<open>Exit\<close>

fun exit_files :: "nat \<Rightarrow> nat list \<Rightarrow> 'a flst_scheme \<Rightarrow> 'a flst_scheme res" where
  "exit_files p [] s = Ok s"
| "exit_files p (fd # fds) s =
     (case ofile (pr s p) ! fd of
        None \<Rightarrow> exit_files p fds s
      | Some f \<Rightarrow> rbind (fileclose f s) (\<lambda>s.
          exit_files p fds (upd_proc p (\<lambda>q. q\<lparr>ofile := (ofile q)[fd := None]\<rparr>) s)))"

text \<open>The accounting of \<^verbatim>\<open>exit\<close> on one process, at the tick count \<open>now\<close>.\<close>

definition exit_times :: "u32 \<Rightarrow> proc \<Rightarrow> proc" where
  "exit_times now q =
     (let q = q\<lparr>finish_time := now\<rparr>;
          q = q\<lparr>turnaround_time := finish_time q - creation_time q\<rparr>
      in q\<lparr>waiting_time := turnaround_time q - run_time q\<rparr>)"

definition exit :: "int \<Rightarrow> 'a flst_scheme \<Rightarrow> 'a flst_scheme res" where
  "exit status s = with_proc s (\<lambda>p.
     if initproc s = Some p then Panic ''init exiting''
     else
     rbind (exit_files p [0..<NOFILE] s) (\<lambda>s.
     rbind (begin_op s) (\<lambda>s.
     rbind (case cwd (pr s p) of None \<Rightarrow> Panic ''kerneltrap'' | Some d \<Rightarrow> iput d s) (\<lambda>s.
     rbind (end_op s) (\<lambda>s.
     rbind (acquire L_wait (upd_proc p (\<lambda>q. q\<lparr>cwd := None\<rparr>) s)) (\<lambda>s.
     rbind (reparent p s) (\<lambda>s.
     rbind (case parent (pr s p) of None \<Rightarrow> Ok s | Some q \<Rightarrow> wakeup (Ch_proc q) s) (\<lambda>s.
     rbind (acquire (L_proc p) s) (\<lambda>s.
     rbind (release L_wait (upd_proc p (\<lambda>q. (exit_times (ticks s) q)\<lparr>xstate := status, pstate := ZOMBIE\<rparr>) s)) (\<lambda>s.
     rbind (sched_check s) (\<lambda>_. Ok s)))))))))))"

text \<open>\<^verbatim>\<open>forkret\<close> up to the return to user mode; \<open>first\<close> is its static variable.\<close>

definition forkret :: "bool \<Rightarrow> 'a flst_scheme \<Rightarrow> (bool \<times> 'a flst_scheme) res" where
  "forkret first s = with_proc s (\<lambda>p.
     rbind (release (L_proc p) s) (\<lambda>s.
       if first then rbind (fsinit ROOTDEV s) (\<lambda>s. Ok (False, s)) else Ok (first, s)))"

end
