(* ===== verification/Exec.thy ===== *)
theory Exec
  imports Proc_Life
begin

text \<open>
  Program loading (\<^verbatim>\<open>kernel/exec.c\<close>, \<^verbatim>\<open>kernel/elf.h\<close>). The argument vector is the list of the
  strings it points to, up to the null pointer.
\<close>

definition MAXARG :: nat where [xv6_consts]: "MAXARG = 32"
definition USERSTACK :: u64 where [xv6_consts]: "USERSTACK = 1"
definition ELF_MAGIC :: u32 where [xv6_consts]: "ELF_MAGIC = 0x464C457F"
definition ELF_PROG_LOAD :: u32 where [xv6_consts]: "ELF_PROG_LOAD = 1"

definition u64_at :: "nat \<Rightarrow> bytes \<Rightarrow> u64" where
  "u64_at off bs = word_of_bytes (bslice off 8 bs)"

record elfhdr =
  e_magic :: u32
  e_entry :: u64
  e_phoff :: u64
  e_phnum :: u16

definition elfhdr_of :: "bytes \<Rightarrow> elfhdr" where
  "elfhdr_of bs = \<lparr>e_magic = u32_at 0 bs, e_entry = u64_at 24 bs, e_phoff = u64_at 32 bs, e_phnum = u16_at 56 bs\<rparr>"

record proghdr =
  ph_type :: u32
  ph_flags :: u32
  ph_off :: u64
  ph_vaddr :: u64
  ph_filesz :: u64
  ph_memsz :: u64

definition proghdr_of :: "bytes \<Rightarrow> proghdr" where
  "proghdr_of bs = \<lparr>ph_type = u32_at 0 bs, ph_flags = u32_at 4 bs, ph_off = u64_at 8 bs,
     ph_vaddr = u64_at 16 bs, ph_filesz = u64_at 32 bs, ph_memsz = u64_at 40 bs\<rparr>"

definition flags2perm :: "u32 \<Rightarrow> u64" where
  "flags2perm flags = (if flags AND 1 \<noteq> 0 then PTE_X else 0) OR (if flags AND 2 \<noteq> 0 then PTE_W else 0)"

text \<open>The offsets \<open>is\<close> are the multiples of the page size below \<^verbatim>\<open>sz\<close>.\<close>

fun loadseg_loop ::
  "u64 \<Rightarrow> u64 \<Rightarrow> nat \<Rightarrow> u32 \<Rightarrow> nat \<Rightarrow> nat list \<Rightarrow> 'a flst_scheme \<Rightarrow> (int \<times> 'a flst_scheme) res" where
  "loadseg_loop pt va ip off n [] s = Ok (0, s)"
| "loadseg_loop pt va ip off n (i # is) s =
     rbind (walkaddr pt (va + of_nat i) s) (\<lambda>pa.
       if pa = 0 then Panic ''loadseg: address should exist''
       else let m = min (n - i) 4096
            in rbind (readi ip (KernAt pa) (off + of_nat i) (of_nat m) s) (\<lambda>(r, _, s).
                 if r \<noteq> int m then Ok (-1, s) else loadseg_loop pt va ip off n is s))"

definition loadseg ::
  "u64 \<Rightarrow> u64 \<Rightarrow> nat \<Rightarrow> u32 \<Rightarrow> u32 \<Rightarrow> 'a flst_scheme \<Rightarrow> (int \<times> 'a flst_scheme) res" where
  "loadseg pt va ip off n s =
     loadseg_loop pt va ip off (unat n) (map (\<lambda>k. k * 4096) [0..<(unat n + 4095) div 4096]) s"

text \<open>The loop over the program headers; the result says whether it ended, and \<^verbatim>\<open>sz\<close>.\<close>

fun exec_load ::
  "nat \<Rightarrow> u64 \<Rightarrow> nat \<Rightarrow> u32 \<Rightarrow> u64 \<Rightarrow> 'a flst_scheme \<Rightarrow> (bool \<times> u64 \<times> 'a flst_scheme) res" where
  "exec_load ip pt 0 off nsz s = Ok (True, nsz, s)"
| "exec_load ip pt (Suc k) off nsz s =
     rbind (readi ip (Local []) off 56 s) (\<lambda>(r, bs, s).
     if r \<noteq> 56 then Ok (False, nsz, s)
     else let ph = proghdr_of bs in
     if ph_type ph \<noteq> ELF_PROG_LOAD then exec_load ip pt k (off + 56) nsz s
     else if ph_memsz ph < ph_filesz ph \<or> ph_vaddr ph + ph_memsz ph < ph_vaddr ph \<or> ph_vaddr ph mod PGSIZE \<noteq> 0
     then Ok (False, nsz, s)
     else rbind (uvmalloc pt nsz (ph_vaddr ph + ph_memsz ph) (flags2perm (ph_flags ph)) s) (\<lambda>(sz1, s).
     if sz1 = 0 then Ok (False, nsz, s)
     else rbind (loadseg pt (ph_vaddr ph) ip (ucast (ph_off ph)) (ucast (ph_filesz ph)) s) (\<lambda>(r, s).
     if r < 0 then Ok (False, sz1, s) else exec_load ip pt k (off + 56) sz1 s)))"

text \<open>The loop that pushes the argument strings; the result is the stack pointer and the
  addresses of the strings, or \<open>None\<close> for a jump to \<^verbatim>\<open>bad\<close>.\<close>

fun exec_push ::
  "u64 \<Rightarrow> u64 \<Rightarrow> bytes list \<Rightarrow> u64 \<Rightarrow> u64 list \<Rightarrow> 'a phys_scheme \<Rightarrow>
    ((u64 \<times> u64 list) option \<times> 'a phys_scheme) res" where
  "exec_push pt stackbase [] sp ustack s = Ok (Some (sp, ustack), s)"
| "exec_push pt stackbase (a # as) sp ustack s =
     (if length ustack \<ge> MAXARG then Ok (None, s)
      else let sp = sp - of_nat (strlen a + 1); sp = sp - sp mod 16
           in if sp < stackbase then Ok (None, s)
              else rbind (copyout pt sp (take (strlen a) a @ [0]) s) (\<lambda>(r, s).
                   if r < 0 then Ok (None, s) else exec_push pt stackbase as sp (ustack @ [sp]) s))"

definition exec_bad :: "u64 \<Rightarrow> u64 \<Rightarrow> nat option \<Rightarrow> 'a flst_scheme \<Rightarrow> (int \<times> 'a flst_scheme) res" where
  "exec_bad pt nsz ip s =
     rbind (if pt \<noteq> 0 then proc_freepagetable pt nsz s else Ok s) (\<lambda>s.
     rbind (case ip of None \<Rightarrow> Ok s | Some i \<Rightarrow> rbind (iunlockput i s) end_op) (\<lambda>s. Ok (-1, s)))"

text \<open>The last path element, for the name of the process.\<close>

definition last_elem :: "bytes \<Rightarrow> bytes" where
  "last_elem path = rev (takeWhile (\<lambda>c. c \<noteq> slash) (rev path))"

definition exec_stack ::
  "bytes \<Rightarrow> bytes list \<Rightarrow> elfhdr \<Rightarrow> u64 \<Rightarrow> u64 \<Rightarrow> 'a flst_scheme \<Rightarrow> (int \<times> 'a flst_scheme) res" where
  "exec_stack path argv elf pt nsz s = with_proc s (\<lambda>p.
     let oldsz = sz (pr s p); nsz = PGROUNDUP nsz in
     rbind (uvmalloc pt nsz (nsz + (USERSTACK + 1) * PGSIZE) PTE_W s) (\<lambda>(sz1, s).
     if sz1 = 0 then exec_bad pt nsz None s
     else
     rbind (uvmclear pt (sz1 - (USERSTACK + 1) * PGSIZE) s) (\<lambda>s.
     let stackbase = sz1 - USERSTACK * PGSIZE in
     rbind (exec_push pt stackbase argv sz1 [] s) (\<lambda>(r, s).
     case r of None \<Rightarrow> exec_bad pt sz1 None s
     | Some (sp, ustack) \<Rightarrow>
       if length ustack \<ge> MAXARG then Panic ''undefined: ustack''
       else let argc = length ustack; sp = sp - of_nat ((argc + 1) * 8); sp = sp - sp mod 16 in
       if sp < stackbase then exec_bad pt sz1 None s
       else rbind (copyout pt sp (concat (map (bytes_of 8) (ustack @ [0]))) s) (\<lambda>(r, s).
       if r < 0 then exec_bad pt sz1 None s
       else
       let s = upd_tf p (\<lambda>t. t\<lparr>tf_a := (tf_a t)[1 := sp]\<rparr>) s;
           s = upd_proc p (\<lambda>q. q\<lparr>pname := safestrcpy (last_elem path) 16\<rparr>) s;
           oldpt = pagetable (pr s p);
           s = upd_proc p (\<lambda>q. q\<lparr>pagetable := pt, sz := sz1\<rparr>) s;
           s = upd_tf p (\<lambda>t. t\<lparr>tf_epc := e_entry elf, tf_sp := sp\<rparr>) s
       in rbind (proc_freepagetable oldpt oldsz s) (\<lambda>s. Ok (int argc, s)))))))"

definition exec :: "bytes \<Rightarrow> bytes list \<Rightarrow> 'a flst_scheme \<Rightarrow> (int \<times> 'a flst_scheme) res" where
  "exec path argv s = with_proc s (\<lambda>p.
     rbind (begin_op s) (\<lambda>s.
     rbind (namei path s) (\<lambda>(r, s).
     case r of None \<Rightarrow> rbind (end_op s) (\<lambda>s. Ok (-1, s))
     | Some ip \<Rightarrow>
       rbind (ilock ip s) (\<lambda>s.
       rbind (readi ip (Local []) 0 64 s) (\<lambda>(r, bs, s).
       let elf = elfhdr_of bs in
       if r \<noteq> 64 \<or> e_magic elf \<noteq> ELF_MAGIC then exec_bad 0 0 (Some ip) s
       else rbind (proc_pagetable p s) (\<lambda>(pt, s).
       if pt = 0 then exec_bad 0 0 (Some ip) s
       else rbind (exec_load ip pt (unat (e_phnum elf)) (ucast (e_phoff elf)) 0 s) (\<lambda>(ok, nsz, s).
       if \<not> ok then exec_bad pt nsz (Some ip) s
       else rbind (iunlockput ip s) (\<lambda>s.
            rbind (end_op s) (\<lambda>s. exec_stack path argv elf pt nsz s))))))))) "

end
