(* ===== verification/Sysfile.thy ===== *)
theory Sysfile
  imports Exec
begin

text \<open>
  System call arguments (\<^verbatim>\<open>kernel/syscall.c\<close>) and the file system calls
  (\<^verbatim>\<open>kernel/sysfile.c\<close>). A handler returns the 64-bit value that goes to register a0;
  a string fetched from user space is its bytes without the final NUL.
\<close>

definition MAXPATH :: nat where [xv6_consts]: "MAXPATH = 128"
definition O_WRONLY :: u32 where [xv6_consts]: "O_WRONLY = 1"
definition O_RDWR :: u32 where [xv6_consts]: "O_RDWR = 2"
definition O_CREATE :: u32 where [xv6_consts]: "O_CREATE = 0x200"
definition O_TRUNC :: u32 where [xv6_consts]: "O_TRUNC = 0x400"

section \<open>Arguments\<close>

definition fetchaddr :: "u64 \<Rightarrow> 'a pst_scheme \<Rightarrow> u64 option res" where
  "fetchaddr addr s = with_proc s (\<lambda>p.
     if addr \<ge> sz (pr s p) \<or> addr + 8 > sz (pr s p) then Ok None
     else rbind (copyin (pagetable (pr s p)) addr 8 s) (\<lambda>(r, bs).
       Ok (if r \<noteq> 0 then None else Some (word_of_bytes bs))))"

text \<open>The first component is what \<^verbatim>\<open>copyinstr\<close> has written to the buffer, the second the string,
  or \<open>None\<close> for the return value -1.\<close>

definition fetchstr :: "u64 \<Rightarrow> nat \<Rightarrow> 'a pst_scheme \<Rightarrow> (bytes \<times> bytes option) res" where
  "fetchstr addr mx s = with_proc s (\<lambda>p.
     rbind (copyinstr (pagetable (pr s p)) addr mx s) (\<lambda>(r, bs).
       Ok (bs, if r < 0 then None else Some (take (strlen bs) bs))))"

definition argraw :: "nat \<Rightarrow> 'a pst_scheme \<Rightarrow> u64 res" where
  "argraw n s = with_proc s (\<lambda>p.
     if n \<le> 5 then Ok (tf_a (tframes s (trapframe (pr s p))) ! n) else Panic ''argraw'')"

definition argint :: "nat \<Rightarrow> 'a pst_scheme \<Rightarrow> int res" where
  "argint n s = rbind (argraw n s) (\<lambda>w. Ok (sint (ucast w :: u32)))"

definition argaddr :: "nat \<Rightarrow> 'a pst_scheme \<Rightarrow> u64 res" where
  "argaddr n s = argraw n s"

definition argstr :: "nat \<Rightarrow> nat \<Rightarrow> 'a pst_scheme \<Rightarrow> bytes option res" where
  "argstr n mx s = rbind (argaddr n s) (\<lambda>a. rbind (fetchstr a mx s) (\<lambda>(_, r). Ok r))"

section \<open>Descriptors\<close>

text \<open>The descriptor and its file.\<close>

definition argfd :: "nat \<Rightarrow> 'a pst_scheme \<Rightarrow> (nat \<times> nat) option res" where
  "argfd n s = rbind (argint n s) (\<lambda>fd. with_proc s (\<lambda>p.
     Ok (if fd < 0 \<or> fd \<ge> int NOFILE then None
         else case ofile (pr s p) ! nat fd of None \<Rightarrow> None | Some f \<Rightarrow> Some (nat fd, f))))"

definition fdalloc :: "nat \<Rightarrow> 'a pst_scheme \<Rightarrow> (nat option \<times> 'a pst_scheme) res" where
  "fdalloc f s = with_proc s (\<lambda>p.
     case find_idx (\<lambda>x. x = None) (take NOFILE (ofile (pr s p))) of
       None \<Rightarrow> Ok (None, s)
     | Some fd \<Rightarrow> Ok (Some fd, upd_proc p (\<lambda>q. q\<lparr>ofile := (ofile q)[fd := Some f]\<rparr>) s))"

definition fdclear :: "nat \<Rightarrow> 'a pst_scheme \<Rightarrow> 'a pst_scheme res" where
  "fdclear fd s = with_proc s (\<lambda>p. Ok (upd_proc p (\<lambda>q. q\<lparr>ofile := (ofile q)[fd := None]\<rparr>) s))"

definition sys_dup :: "'a flst_scheme \<Rightarrow> (u64 \<times> 'a flst_scheme) res" where
  "sys_dup s = rbind (argfd 0 s) (\<lambda>r.
     case r of None \<Rightarrow> Ok (-1, s)
     | Some (_, f) \<Rightarrow> rbind (fdalloc f s) (\<lambda>(r, s).
         case r of None \<Rightarrow> Ok (-1, s) | Some fd \<Rightarrow> rbind (filedup f s) (\<lambda>s. Ok (of_nat fd, s))))"

definition sys_read :: "'a flst_scheme \<Rightarrow> (u64 \<times> 'a flst_scheme) res" where
  "sys_read s =
     rbind (argaddr 1 s) (\<lambda>a. rbind (argint 2 s) (\<lambda>n. rbind (argfd 0 s) (\<lambda>r.
     case r of None \<Rightarrow> Ok (-1, s)
     | Some (_, f) \<Rightarrow> rbind (fileread f a n s) (\<lambda>(r, s). Ok (word_of_int r, s)))))"

definition sys_write :: "'a flst_scheme \<Rightarrow> (u64 \<times> 'a flst_scheme) res" where
  "sys_write s =
     rbind (argaddr 1 s) (\<lambda>a. rbind (argint 2 s) (\<lambda>n. rbind (argfd 0 s) (\<lambda>r.
     case r of None \<Rightarrow> Ok (-1, s)
     | Some (_, f) \<Rightarrow> rbind (filewrite f a n s) (\<lambda>(r, s). Ok (word_of_int r, s)))))"

definition sys_close :: "'a flst_scheme \<Rightarrow> (u64 \<times> 'a flst_scheme) res" where
  "sys_close s = rbind (argfd 0 s) (\<lambda>r.
     case r of None \<Rightarrow> Ok (-1, s)
     | Some (fd, f) \<Rightarrow> rbind (fdclear fd s) (\<lambda>s. rbind (fileclose f s) (\<lambda>s. Ok (0, s))))"

definition sys_fstat :: "bytes \<Rightarrow> 'a flst_scheme \<Rightarrow> (u64 \<times> 'a flst_scheme) res" where
  "sys_fstat pad s =
     rbind (argaddr 1 s) (\<lambda>a. rbind (argfd 0 s) (\<lambda>r.
     case r of None \<Rightarrow> Ok (-1, s)
     | Some (_, f) \<Rightarrow> rbind (filestat pad f a s) (\<lambda>(r, s). Ok (word_of_int r, s))))"

section \<open>Links\<close>

text \<open>The end of a failing call, inside its transaction.\<close>

definition op_fail :: "'a flst_scheme \<Rightarrow> (u64 \<times> 'a flst_scheme) res" where
  "op_fail s = rbind (end_op s) (\<lambda>s. Ok (-1, s))"

definition put_fail :: "nat \<Rightarrow> 'a flst_scheme \<Rightarrow> (u64 \<times> 'a flst_scheme) res" where
  "put_fail ip s = rbind (iunlockput ip s) op_fail"

definition link_bad :: "nat \<Rightarrow> 'a flst_scheme \<Rightarrow> (u64 \<times> 'a flst_scheme) res" where
  "link_bad ip s =
     rbind (ilock ip s) (\<lambda>s.
     rbind (iupdate ip (upd_ino ip (\<lambda>x. x\<lparr>inlink := inlink x - 1\<rparr>) s)) (put_fail ip))"

definition sys_link :: "'a flst_scheme \<Rightarrow> (u64 \<times> 'a flst_scheme) res" where
  "sys_link s =
     rbind (argstr 0 MAXPATH s) (\<lambda>old.
     case old of None \<Rightarrow> Ok (-1, s) | Some old \<Rightarrow>
     rbind (argstr 1 MAXPATH s) (\<lambda>new.
     case new of None \<Rightarrow> Ok (-1, s) | Some new \<Rightarrow>
     rbind (begin_op s) (\<lambda>s.
     rbind (namei old s) (\<lambda>(r, s).
     case r of None \<Rightarrow> op_fail s | Some ip \<Rightarrow>
     rbind (ilock ip s) (\<lambda>s.
     if itype (ino s ip) = T_DIR then put_fail ip s
     else
     rbind (iupdate ip (upd_ino ip (\<lambda>x. x\<lparr>inlink := inlink x + 1\<rparr>) s)) (\<lambda>s.
     rbind (iunlock ip s) (\<lambda>s.
     rbind (nameiparent new s) (\<lambda>(r, name, s).
     case r of None \<Rightarrow> link_bad ip s | Some dp \<Rightarrow>
     rbind (ilock dp s) (\<lambda>s.
     rbind (if idev (ino s dp) \<noteq> idev (ino s ip) then Ok (-1, s)
            else dirlink dp name (inum (ino s ip)) s) (\<lambda>(r, s).
     rbind (iunlockput dp s) (\<lambda>s.
     if r < 0 then link_bad ip s
     else rbind (iput ip s) (\<lambda>s. rbind (end_op s) (\<lambda>s. Ok (0, s)))))))))))))) "

fun isdirempty_loop :: "nat \<Rightarrow> nat list \<Rightarrow> 'a fsst_scheme \<Rightarrow> (bool \<times> 'a fsst_scheme) res" where
  "isdirempty_loop dp [] s = Ok (True, s)"
| "isdirempty_loop dp (off # offs) s =
     rbind (readi dp (Local []) (of_nat off) 16 s) (\<lambda>(r, de, s).
       if r \<noteq> 16 then Panic ''isdirempty: readi''
       else if de_inum de \<noteq> 0 then Ok (False, s) else isdirempty_loop dp offs s)"

definition isdirempty :: "nat \<Rightarrow> 'a fsst_scheme \<Rightarrow> (bool \<times> 'a fsst_scheme) res" where
  "isdirempty dp s = isdirempty_loop dp (drop 2 (dir_offs (isize (ino s dp)))) s"

definition unlink_entry :: "nat \<Rightarrow> nat \<Rightarrow> u32 \<Rightarrow> 'a flst_scheme \<Rightarrow> (u64 \<times> 'a flst_scheme) res" where
  "unlink_entry dp ip off s =
     rbind (writei dp (Local (replicate 16 0)) off 16 s) (\<lambda>(r, s).
     if r \<noteq> 16 then Panic ''unlink: writei''
     else
     rbind (if itype (ino s ip) = T_DIR
            then iupdate dp (upd_ino dp (\<lambda>x. x\<lparr>inlink := inlink x - 1\<rparr>) s) else Ok s) (\<lambda>s.
     rbind (iunlockput dp s) (\<lambda>s.
     rbind (iupdate ip (upd_ino ip (\<lambda>x. x\<lparr>inlink := inlink x - 1\<rparr>) s)) (\<lambda>s.
     rbind (iunlockput ip s) (\<lambda>s.
     rbind (end_op s) (\<lambda>s. Ok (0, s)))))))"

definition sys_unlink :: "'a flst_scheme \<Rightarrow> (u64 \<times> 'a flst_scheme) res" where
  "sys_unlink s =
     rbind (argstr 0 MAXPATH s) (\<lambda>path.
     case path of None \<Rightarrow> Ok (-1, s) | Some path \<Rightarrow>
     rbind (begin_op s) (\<lambda>s.
     rbind (nameiparent path s) (\<lambda>(r, name, s).
     case r of None \<Rightarrow> op_fail s | Some dp \<Rightarrow>
     rbind (ilock dp s) (\<lambda>s.
     if namecmp name (ascii ''.'') = 0 \<or> namecmp name (ascii ''..'') = 0 then put_fail dp s
     else
     rbind (dirlookup dp name s) (\<lambda>(r, s).
     case r of None \<Rightarrow> put_fail dp s | Some (ip, off) \<Rightarrow>
     rbind (ilock ip s) (\<lambda>s.
     if sint (inlink (ino s ip)) < 1 then Panic ''unlink: nlink < 1''
     else
     rbind (if itype (ino s ip) = T_DIR then isdirempty ip s else Ok (True, s)) (\<lambda>(empty, s).
     if \<not> empty then rbind (iunlockput ip s) (put_fail dp)
     else unlink_entry dp ip off s)))))))"

section \<open>Creation and opening\<close>

definition create_fail :: "nat \<Rightarrow> nat \<Rightarrow> 'a fsst_scheme \<Rightarrow> (nat option \<times> 'a fsst_scheme) res" where
  "create_fail dp ip s =
     rbind (iupdate ip (upd_ino ip (\<lambda>x. x\<lparr>inlink := 0\<rparr>) s)) (\<lambda>s.
     rbind (iunlockput ip s) (\<lambda>s.
     rbind (iunlockput dp s) (\<lambda>s. Ok (None, s))))"

text \<open>The \<^verbatim>\<open>.\<close> and \<^verbatim>\<open>..\<close> entries of a new directory; the result says whether both were made.\<close>

definition create_dots :: "nat \<Rightarrow> nat \<Rightarrow> 'a fsst_scheme \<Rightarrow> (bool \<times> 'a fsst_scheme) res" where
  "create_dots dp ip s =
     rbind (dirlink ip (ascii ''.'') (inum (ino s ip)) s) (\<lambda>(r, s).
     if r < 0 then Ok (False, s)
     else rbind (dirlink ip (ascii ''..'') (inum (ino s dp)) s) (\<lambda>(r, s). Ok (\<not> r < 0, s)))"

definition create ::
  "bytes \<Rightarrow> u16 \<Rightarrow> u16 \<Rightarrow> u16 \<Rightarrow> 'a fsst_scheme \<Rightarrow> (nat option \<times> 'a fsst_scheme) res" where
  "create path type major minor s =
     rbind (nameiparent path s) (\<lambda>(r, name, s).
     case r of None \<Rightarrow> Ok (None, s) | Some dp \<Rightarrow>
     rbind (ilock dp s) (\<lambda>s.
     rbind (dirlookup dp name s) (\<lambda>(r, s).
     case r of
       Some (ip, _) \<Rightarrow>
         rbind (iunlockput dp s) (\<lambda>s.
         rbind (ilock ip s) (\<lambda>s.
         if type = T_FILE \<and> (itype (ino s ip) = T_FILE \<or> itype (ino s ip) = T_DEVICE) then Ok (Some ip, s)
         else rbind (iunlockput ip s) (\<lambda>s. Ok (None, s))))
     | None \<Rightarrow>
         rbind (ialloc (idev (ino s dp)) type s) (\<lambda>(r, s).
         case r of None \<Rightarrow> rbind (iunlockput dp s) (\<lambda>s. Ok (None, s)) | Some ip \<Rightarrow>
         rbind (ilock ip s) (\<lambda>s.
         rbind (iupdate ip (upd_ino ip (\<lambda>x. x\<lparr>imajor := major, iminor := minor, inlink := 1\<rparr>) s)) (\<lambda>s.
         rbind (if type = T_DIR then create_dots dp ip s else Ok (True, s)) (\<lambda>(ok, s).
         if \<not> ok then create_fail dp ip s
         else rbind (dirlink dp name (inum (ino s ip)) s) (\<lambda>(r, s).
         if r < 0 then create_fail dp ip s
         else
         rbind (if type = T_DIR then iupdate dp (upd_ino dp (\<lambda>x. x\<lparr>inlink := inlink x + 1\<rparr>) s) else Ok s) (\<lambda>s.
         rbind (iunlockput dp s) (\<lambda>s. Ok (Some ip, s)))))))))))"

text \<open>The inode \<^verbatim>\<open>sys_open\<close> opens, locked; \<open>None\<close> where it ends with -1.\<close>

definition open_inode :: "bytes \<Rightarrow> u32 \<Rightarrow> 'a flst_scheme \<Rightarrow> (nat option \<times> 'a flst_scheme) res" where
  "open_inode path omode s =
     (if omode AND O_CREATE \<noteq> 0 then create path T_FILE 0 0 s
      else rbind (namei path s) (\<lambda>(r, s).
        case r of None \<Rightarrow> Ok (None, s)
        | Some ip \<Rightarrow> rbind (ilock ip s) (\<lambda>s.
            if itype (ino s ip) = T_DIR \<and> omode \<noteq> 0
            then rbind (iunlockput ip s) (\<lambda>s. Ok (None, s)) else Ok (Some ip, s))))"

definition sys_open :: "'a flst_scheme \<Rightarrow> (u64 \<times> 'a flst_scheme) res" where
  "sys_open s =
     rbind (argint 1 s) (\<lambda>om. let omode = word_of_int om :: u32 in
     rbind (argstr 0 MAXPATH s) (\<lambda>path.
     case path of None \<Rightarrow> Ok (-1, s) | Some path \<Rightarrow>
     rbind (begin_op s) (\<lambda>s.
     rbind (open_inode path omode s) (\<lambda>(r, s).
     case r of None \<Rightarrow> op_fail s | Some ip \<Rightarrow>
     if itype (ino s ip) = T_DEVICE \<and> (sint (imajor (ino s ip)) < 0 \<or> sint (imajor (ino s ip)) \<ge> NDEV)
     then put_fail ip s
     else
     rbind (filealloc s) (\<lambda>(r, s).
     case r of None \<Rightarrow> put_fail ip s | Some f \<Rightarrow>
     rbind (fdalloc f s) (\<lambda>(r, s).
     case r of None \<Rightarrow> rbind (fileclose f s) (put_fail ip) | Some fd \<Rightarrow>
     let s = (if itype (ino s ip) = T_DEVICE
              then upd_file f (\<lambda>x. x\<lparr>ftype := FD_DEVICE, fmajor := imajor (ino s ip)\<rparr>) s
              else upd_file f (\<lambda>x. x\<lparr>ftype := FD_INODE, foff := 0\<rparr>) s);
         s = upd_file f (\<lambda>x. x\<lparr>fip := ip, readable := (omode AND O_WRONLY = 0),
               writable := (omode AND O_WRONLY \<noteq> 0 \<or> omode AND O_RDWR \<noteq> 0)\<rparr>) s
     in rbind (if omode AND O_TRUNC \<noteq> 0 \<and> itype (ino s ip) = T_FILE then itrunc ip s else Ok s) (\<lambda>s.
        rbind (iunlock ip s) (\<lambda>s.
        rbind (end_op s) (\<lambda>s. Ok (of_nat fd, s)))))))))) "

definition sys_mkdir :: "'a flst_scheme \<Rightarrow> (u64 \<times> 'a flst_scheme) res" where
  "sys_mkdir s =
     rbind (begin_op s) (\<lambda>s.
     rbind (argstr 0 MAXPATH s) (\<lambda>path.
     rbind (case path of None \<Rightarrow> Ok (None, s) | Some path \<Rightarrow> create path T_DIR 0 0 s) (\<lambda>(r, s).
     case r of None \<Rightarrow> op_fail s
     | Some ip \<Rightarrow> rbind (iunlockput ip s) (\<lambda>s. rbind (end_op s) (\<lambda>s. Ok (0, s))))))"

definition sys_mknod :: "'a flst_scheme \<Rightarrow> (u64 \<times> 'a flst_scheme) res" where
  "sys_mknod s =
     rbind (begin_op s) (\<lambda>s.
     rbind (argint 1 s) (\<lambda>major.
     rbind (argint 2 s) (\<lambda>minor.
     rbind (argstr 0 MAXPATH s) (\<lambda>path.
     rbind (case path of None \<Rightarrow> Ok (None, s)
            | Some path \<Rightarrow> create path T_DEVICE (word_of_int major) (word_of_int minor) s) (\<lambda>(r, s).
     case r of None \<Rightarrow> op_fail s
     | Some ip \<Rightarrow> rbind (iunlockput ip s) (\<lambda>s. rbind (end_op s) (\<lambda>s. Ok (0, s))))))))"

definition sys_chdir :: "'a flst_scheme \<Rightarrow> (u64 \<times> 'a flst_scheme) res" where
  "sys_chdir s = with_proc s (\<lambda>p.
     rbind (begin_op s) (\<lambda>s.
     rbind (argstr 0 MAXPATH s) (\<lambda>path.
     rbind (case path of None \<Rightarrow> Ok (None, s) | Some path \<Rightarrow> namei path s) (\<lambda>(r, s).
     case r of None \<Rightarrow> op_fail s
     | Some ip \<Rightarrow>
       rbind (ilock ip s) (\<lambda>s.
       if itype (ino s ip) \<noteq> T_DIR then put_fail ip s
       else
       rbind (iunlock ip s) (\<lambda>s.
       rbind (case cwd (pr s p) of None \<Rightarrow> Panic ''kerneltrap'' | Some d \<Rightarrow> iput d s) (\<lambda>s.
       rbind (end_op s) (\<lambda>s. Ok (0, upd_proc p (\<lambda>q. q\<lparr>cwd := Some ip\<rparr>) s))))))))) "

section \<open>Exec and pipe\<close>

text \<open>The loop of \<^verbatim>\<open>sys_exec\<close> over the argument pointers; \<open>k\<close> entries of \<^verbatim>\<open>argv\<close> are left. The
  result says whether it ended well, and has the pages and strings so far.\<close>

fun fetch_args ::
  "nat \<Rightarrow> u64 \<Rightarrow> u64 list \<Rightarrow> bytes list \<Rightarrow> 'a pst_scheme \<Rightarrow>
    (bool \<times> u64 list \<times> bytes list \<times> 'a pst_scheme) res" where
  "fetch_args 0 ua pages strs s = Ok (False, pages, strs, s)"
| "fetch_args (Suc k) ua pages strs s =
     rbind (fetchaddr ua s) (\<lambda>r.
     case r of None \<Rightarrow> Ok (False, pages, strs, s)
     | Some uarg \<Rightarrow>
       if uarg = 0 then Ok (True, pages, strs, s)
       else rbind (kalloc s) (\<lambda>(a, s).
         if a = 0 then Ok (False, pages, strs, s)
         else rbind (fetchstr uarg 4096 s) (\<lambda>(bs, r).
           let s = s\<lparr>mem := store_bytes (mem s) a bs\<rparr>
           in case r of None \<Rightarrow> Ok (False, pages @ [a], strs, s)
              | Some str \<Rightarrow> fetch_args k (ua + 8) (pages @ [a]) (strs @ [str]) s)))"

fun kfree_all :: "u64 list \<Rightarrow> 'a phys_scheme \<Rightarrow> 'a phys_scheme res" where
  "kfree_all [] s = Ok s"
| "kfree_all (a # as) s = rbind (kfree a s) (kfree_all as)"

definition sys_exec :: "'a flst_scheme \<Rightarrow> (u64 \<times> 'a flst_scheme) res" where
  "sys_exec s =
     rbind (argaddr 1 s) (\<lambda>uargv.
     rbind (argstr 0 MAXPATH s) (\<lambda>path.
     case path of None \<Rightarrow> Ok (-1, s) | Some path \<Rightarrow>
     rbind (fetch_args MAXARG uargv [] [] s) (\<lambda>(ok, pages, strs, s).
     if \<not> ok then rbind (kfree_all pages s) (\<lambda>s. Ok (-1, s))
     else rbind (exec path strs s) (\<lambda>(r, s).
          rbind (kfree_all pages s) (\<lambda>s. Ok (word_of_int r, s))))))"

definition pipe_fail :: "nat list \<Rightarrow> nat \<Rightarrow> nat \<Rightarrow> 'a flst_scheme \<Rightarrow> (u64 \<times> 'a flst_scheme) res" where
  "pipe_fail fds rf wrf s =
     rbind (foldr (\<lambda>fd m. rbind m (fdclear fd)) (rev fds) (Ok s)) (\<lambda>s.
     rbind (fileclose rf s) (\<lambda>s. rbind (fileclose wrf s) (\<lambda>s. Ok (-1, s))))"

definition sys_pipe :: "'a flst_scheme \<Rightarrow> (u64 \<times> 'a flst_scheme) res" where
  "sys_pipe s = with_proc s (\<lambda>p.
     rbind (argaddr 0 s) (\<lambda>fdarray.
     rbind (pipealloc s) (\<lambda>(r, s).
     case r of None \<Rightarrow> Ok (-1, s) | Some (rf, wrf) \<Rightarrow>
     rbind (fdalloc rf s) (\<lambda>(r, s).
     case r of None \<Rightarrow> pipe_fail [] rf wrf s | Some fd0 \<Rightarrow>
     rbind (fdalloc wrf s) (\<lambda>(r, s).
     case r of None \<Rightarrow> pipe_fail [fd0] rf wrf s | Some fd1 \<Rightarrow>
     let pt = pagetable (pr s p) in
     rbind (copyout pt fdarray (i32_bytes (int fd0)) s) (\<lambda>(r, s).
     rbind (if r < 0 then Ok (r, s) else copyout pt (fdarray + 4) (i32_bytes (int fd1)) s) (\<lambda>(r, s).
     if r < 0 then pipe_fail [fd0, fd1] rf wrf s else Ok (0, s))))))))"

end
