(* ===== verification/Virtio.thy ===== *)
theory Virtio
  imports File
begin

text \<open>
  The driver of the virtio disk (\<^verbatim>\<open>kernel/virtio_disk.c\<close>, \<^verbatim>\<open>kernel/virtio.h\<close>). The addresses in
  descriptors name the driver's objects: a command header, the data of a buffer, or a
  status byte. The device is not part of the program; a run of it is an argument where a
  theorem needs one.
\<close>

definition NUM :: nat where [xv6_consts]: "NUM = 8"

datatype daddr = A_null | A_op nat | A_data nat | A_status nat

record virtq_desc =
  d_addr :: daddr
  d_len :: u32
  d_flags :: u16
  d_next :: u16

definition VRING_DESC_F_NEXT :: u16 where [xv6_consts]: "VRING_DESC_F_NEXT = 1"
definition VRING_DESC_F_WRITE :: u16 where [xv6_consts]: "VRING_DESC_F_WRITE = 2"
definition VIRTIO_BLK_T_IN :: u32 where [xv6_consts]: "VIRTIO_BLK_T_IN = 0"
definition VIRTIO_BLK_T_OUT :: u32 where [xv6_consts]: "VIRTIO_BLK_T_OUT = 1"

record virtio_blk_req =
  rq_type :: u32
  rq_reserved :: u32
  rq_sector :: u64

text \<open>\<^verbatim>\<open>struct disk\<close>, with the rings it points to. \<open>v_regs\<close> are the memory-mapped registers as a
  read returns them, \<open>v_out\<close> the writes to them, oldest first.\<close>

record vdisk =
  v_desc :: "virtq_desc list"
  v_avail_idx :: u16
  v_avail :: "u16 list"
  v_used_ring_idx :: u16
  v_used :: "u32 list"
  v_free :: "bool list"
  v_used_idx :: u16
  v_info_b :: "nat option list"
  v_info_status :: "u8 list"
  v_ops :: "virtio_blk_req list"
  v_pages :: "u64 list"
  v_regs :: "nat \<Rightarrow> u32"
  v_out :: "(nat \<times> u32) list"

record vst = flst +
  vq :: vdisk

definition upd_vq :: "(vdisk \<Rightarrow> vdisk) \<Rightarrow> 'a vst_scheme \<Rightarrow> 'a vst_scheme" where
  "upd_vq f s = s\<lparr>vq := f (vq s)\<rparr>"

definition upd_desc :: "nat \<Rightarrow> (virtq_desc \<Rightarrow> virtq_desc) \<Rightarrow> 'a vst_scheme \<Rightarrow> 'a vst_scheme" where
  "upd_desc i f s = upd_vq (\<lambda>v. v\<lparr>v_desc := (v_desc v)[i := f (v_desc v ! i)]\<rparr>) s"

definition w_reg :: "nat \<Rightarrow> u32 \<Rightarrow> 'a vst_scheme \<Rightarrow> 'a vst_scheme" where
  "w_reg r x s = upd_vq (\<lambda>v. v\<lparr>v_out := v_out v @ [(r, x)]\<rparr>) s"

section \<open>Initialisation\<close>

text \<open>The feature bits the driver refuses.\<close>

definition refused_features :: u64 where
  "refused_features = push_bit 5 1 OR push_bit 7 1 OR push_bit 11 1 OR push_bit 12 1 OR
     push_bit 27 1 OR push_bit 29 1 OR push_bit 28 1"

definition set_queue :: "u64 \<Rightarrow> u64 \<Rightarrow> u64 \<Rightarrow> 'a vst_scheme \<Rightarrow> 'a vst_scheme" where
  "set_queue desc avail used s =
     (let s = w_reg 0x038 (of_nat NUM) s;
          s = w_reg 0x080 (ucast desc) s;
          s = w_reg 0x084 (ucast (drop_bit 32 desc)) s;
          s = w_reg 0x090 (ucast avail) s;
          s = w_reg 0x094 (ucast (drop_bit 32 avail)) s;
          s = w_reg 0x0a0 (ucast used) s;
          s = w_reg 0x0a4 (ucast (drop_bit 32 used)) s
      in w_reg 0x044 1 s)"

definition zero_queue :: "u64 list \<Rightarrow> 'a vst_scheme \<Rightarrow> 'a vst_scheme" where
  "zero_queue pages s =
     upd_vq (\<lambda>v. v\<lparr>v_desc := replicate NUM \<lparr>d_addr = A_null, d_len = 0, d_flags = 0, d_next = 0\<rparr>,
        v_avail_idx := 0, v_avail := replicate NUM 0, v_used_ring_idx := 0, v_used := replicate NUM 0,
        v_pages := pages\<rparr>) s"

definition virtio_disk_init :: "'a vst_scheme \<Rightarrow> 'a vst_scheme res" where
  "virtio_disk_init s =
     (let rd = v_regs (vq s) in
      if rd 0x000 \<noteq> 0x74726976 \<or> rd 0x004 \<noteq> 2 \<or> rd 0x008 \<noteq> 2 \<or> rd 0x00c \<noteq> 0x554d4551
      then Panic ''could not find virtio disk''
      else
      let s = w_reg 0x070 0 s;
          s = w_reg 0x070 1 s;
          s = w_reg 0x070 3 s;
          s = w_reg 0x020 (ucast (ucast (rd 0x010) AND NOT refused_features)) s;
          s = w_reg 0x070 11 s;
          status = rd 0x070
      in if status AND 8 = 0 then Panic ''virtio disk FEATURES_OK unset''
      else
      let s = w_reg 0x030 0 s in
      if rd 0x044 \<noteq> 0 then Panic ''virtio disk should not be ready''
      else if rd 0x034 = 0 then Panic ''virtio disk has no queue 0''
      else if rd 0x034 < of_nat NUM then Panic ''virtio disk max queue too short''
      else
      rbind (kalloc s) (\<lambda>(desc, s).
      rbind (kalloc s) (\<lambda>(avail, s).
      rbind (kalloc s) (\<lambda>(used, s).
      if desc = 0 \<or> avail = 0 \<or> used = 0 then Panic ''virtio disk kalloc''
      else
      let s = s\<lparr>mem := memset (memset (memset (mem s) desc 0 4096) avail 0 4096) used 0 4096\<rparr>;
          s = set_queue desc avail used (zero_queue [desc, avail, used] s);
          s = upd_vq (\<lambda>v. v\<lparr>v_free := replicate NUM True\<rparr>) s
      in Ok (w_reg 0x070 (status OR 4) s)))))"

section \<open>Descriptors\<close>

definition alloc_desc :: "'a vst_scheme \<Rightarrow> nat option \<times> 'a vst_scheme" where
  "alloc_desc s =
     (case find_idx (\<lambda>f. f) (take NUM (v_free (vq s))) of
        None \<Rightarrow> (None, s)
      | Some i \<Rightarrow> (Some i, upd_vq (\<lambda>v. v\<lparr>v_free := (v_free v)[i := False]\<rparr>) s))"

definition free_desc :: "nat \<Rightarrow> 'a vst_scheme \<Rightarrow> 'a vst_scheme res" where
  "free_desc i s =
     (if i \<ge> NUM then Panic ''free_desc 1''
      else if v_free (vq s) ! i then Panic ''free_desc 2''
      else let s = upd_desc i (\<lambda>_. \<lparr>d_addr = A_null, d_len = 0, d_flags = 0, d_next = 0\<rparr>) s;
               s = upd_vq (\<lambda>v. v\<lparr>v_free := (v_free v)[i := True]\<rparr>) s
           in wakeup Ch_disk_free s)"

text \<open>Each round frees a descriptor that was in use, so \<open>NUM\<close> rounds are enough.\<close>

fun free_chain :: "nat \<Rightarrow> nat \<Rightarrow> 'a vst_scheme \<Rightarrow> 'a vst_scheme res" where
  "free_chain 0 i s = NoFuel"
| "free_chain (Suc k) i s =
     (let flag = d_flags (v_desc (vq s) ! i); nxt = d_next (v_desc (vq s) ! i)
      in rbind (free_desc i s) (\<lambda>s.
           if flag AND VRING_DESC_F_NEXT \<noteq> 0 then free_chain k (unat nxt) s else Ok s))"

fun free_descs :: "nat list \<Rightarrow> 'a vst_scheme \<Rightarrow> 'a vst_scheme res" where
  "free_descs [] s = Ok s"
| "free_descs (i # is) s = rbind (free_desc i s) (free_descs is)"

text \<open>The loop of \<^verbatim>\<open>alloc3_desc\<close>: \<open>n\<close> descriptors are still wanted, \<open>got\<close> are allocated.\<close>

fun alloc_descs :: "nat \<Rightarrow> nat list \<Rightarrow> 'a vst_scheme \<Rightarrow> (nat list option \<times> 'a vst_scheme) res" where
  "alloc_descs 0 idx s = Ok (Some idx, s)"
| "alloc_descs (Suc n) idx s =
     (case alloc_desc s of
        (None, s) \<Rightarrow> rbind (free_descs idx s) (\<lambda>s. Ok (None, s))
      | (Some i, s) \<Rightarrow> alloc_descs n (idx @ [i]) s)"

definition alloc3_desc :: "'a vst_scheme \<Rightarrow> (nat list option \<times> 'a vst_scheme) res" where
  "alloc3_desc s = alloc_descs 3 [] s"

section \<open>Requests\<close>

text \<open>The three descriptors of a request for buffer \<open>b\<close>, and its entry in the available ring.\<close>

definition rw_format :: "nat \<Rightarrow> bool \<Rightarrow> nat \<Rightarrow> nat \<Rightarrow> nat \<Rightarrow> 'a vst_scheme \<Rightarrow> 'a vst_scheme" where
  "rw_format b wr i0 i1 i2 s =
     (let sector = ucast (blockno (bf s b) * 2) :: u64;
          s = upd_vq (\<lambda>v. v\<lparr>v_ops := (v_ops v)[i0 := \<lparr>rq_type = (if wr then VIRTIO_BLK_T_OUT else VIRTIO_BLK_T_IN),
                rq_reserved = 0, rq_sector = sector\<rparr>]\<rparr>) s;
          s = upd_desc i0 (\<lambda>_. \<lparr>d_addr = A_op i0, d_len = 16, d_flags = VRING_DESC_F_NEXT, d_next = of_nat i1\<rparr>) s;
          s = upd_desc i1 (\<lambda>_. \<lparr>d_addr = A_data b, d_len = of_nat BSIZE,
                d_flags = (if wr then 0 else VRING_DESC_F_WRITE) OR VRING_DESC_F_NEXT, d_next = of_nat i2\<rparr>) s;
          s = upd_vq (\<lambda>v. v\<lparr>v_info_status := (v_info_status v)[i0 := 0xff]\<rparr>) s;
          s = upd_desc i2 (\<lambda>_. \<lparr>d_addr = A_status i0, d_len = 1, d_flags = VRING_DESC_F_WRITE, d_next = 0\<rparr>) s;
          s = upd_buf b (\<lambda>x. x\<lparr>bdisk := True\<rparr>) s;
          s = upd_vq (\<lambda>v. v\<lparr>v_info_b := (v_info_b v)[i0 := Some b]\<rparr>) s;
          s = upd_vq (\<lambda>v. v\<lparr>v_avail := (v_avail v)[unat (v_avail_idx v) mod NUM := of_nat i0]\<rparr>) s;
          s = upd_vq (\<lambda>v. v\<lparr>v_avail_idx := v_avail_idx v + 1\<rparr>) s
      in w_reg 0x050 0 s)"

text \<open>The rounds of the two waiting loops of \<^verbatim>\<open>virtio_disk_rw\<close>; the first yields the head
  descriptor of the request it has made.\<close>

definition rw_start :: "nat \<Rightarrow> bool \<Rightarrow> 'a vst_scheme \<Rightarrow> (nat turn \<times> 'a vst_scheme) res" where
  "rw_start b wr s =
     rbind (alloc3_desc s) (\<lambda>(r, s).
     case r of
       Some [i0, i1, i2] \<Rightarrow> Ok (Done i0, rw_format b wr i0 i1 i2 s)
     | _ \<Rightarrow> rbind (sleep_enter Ch_disk_free L_vdisk s) (\<lambda>s. Ok (Sleeping Ch_disk_free, s)))"

definition rw_wait :: "nat \<Rightarrow> nat \<Rightarrow> 'a vst_scheme \<Rightarrow> (unit turn \<times> 'a vst_scheme) res" where
  "rw_wait b i0 s =
     (if bdisk (bf s b) then rbind (sleep_enter (Ch_buf b) L_vdisk s) (\<lambda>s. Ok (Sleeping (Ch_buf b), s))
      else rbind (free_chain NUM i0 (upd_vq (\<lambda>v. v\<lparr>v_info_b := (v_info_b v)[i0 := None]\<rparr>) s)) (\<lambda>s.
           rbind (release L_vdisk s) (\<lambda>s. Ok (Done (), s))))"

text \<open>\<^verbatim>\<open>virtio_disk_rw\<close> from its start to its first sleep.\<close>

definition virtio_disk_rw :: "nat \<Rightarrow> bool \<Rightarrow> 'a vst_scheme \<Rightarrow> (nat turn \<times> 'a vst_scheme) res" where
  "virtio_disk_rw b wr s =
     rbind (acquire L_vdisk s) (\<lambda>s.
     rbind (rw_start b wr s) (\<lambda>(r, s).
     case r of Sleeping c \<Rightarrow> Ok (Sleeping c, s)
     | Done i0 \<Rightarrow> rbind (rw_wait b i0 s) (\<lambda>(_, s). Ok (Done i0, s))))"

text \<open>The loop of \<^verbatim>\<open>virtio_disk_intr\<close> ends when it has caught up with the device.\<close>

fun intr_loop :: "nat \<Rightarrow> 'a vst_scheme \<Rightarrow> 'a vst_scheme res" where
  "intr_loop k s =
     (if v_used_idx (vq s) = v_used_ring_idx (vq s) then Ok s
      else case k of 0 \<Rightarrow> NoFuel
      | Suc k' \<Rightarrow>
        let ident = unat (v_used (vq s) ! (unat (v_used_idx (vq s)) mod NUM)) in
        if ident \<ge> NUM then Panic ''undefined: disk.info''
        else if v_info_status (vq s) ! ident \<noteq> 0 then Panic ''virtio_disk_intr status''
        else case v_info_b (vq s) ! ident of None \<Rightarrow> Panic ''kerneltrap''
        | Some b \<Rightarrow>
            rbind (wakeup (Ch_buf b) (upd_buf b (\<lambda>x. x\<lparr>bdisk := False\<rparr>) s)) (\<lambda>s.
            intr_loop k' (upd_vq (\<lambda>v. v\<lparr>v_used_idx := v_used_idx v + 1\<rparr>) s)))"

declare intr_loop.simps [simp del]

definition virtio_disk_intr :: "'a vst_scheme \<Rightarrow> 'a vst_scheme res" where
  "virtio_disk_intr s =
     rbind (acquire L_vdisk s) (\<lambda>s.
     let s = w_reg 0x064 (v_regs (vq s) 0x060 AND 3) s
     in rbind (intr_loop (unat (v_used_ring_idx (vq s) - v_used_idx (vq s))) s) (release L_vdisk))"

end
