(* ===== verification/Sysproc.thy ===== *)
theory Sysproc
  imports Sysfile Virtio
begin

text \<open>
  The system calls of \<^verbatim>\<open>kernel/sysproc.c\<close> and \<^verbatim>\<open>kernel/sysutil.c\<close>, and the dispatcher of
  \<^verbatim>\<open>kernel/syscall.c\<close>. \<open>mtime\<close> is the memory-mapped timer of the platform and
  \<open>test_dev\<close> the last value written to the device that powers the machine off.
\<close>

record sysst = vst +
  syscall_count :: u64
  sysproc_lcg_state :: u32
  lcg_state :: u32
  mtime :: u64
  test_dev :: "u32 option"

section \<open>Processes\<close>

text \<open>The result of a handler that has slept or does not return is the state at the switch.\<close>

definition sys_exit :: "'a flst_scheme \<Rightarrow> 'a flst_scheme res" where
  "sys_exit s = rbind (argint 0 s) (\<lambda>n. exit n s)"

definition sys_getpid :: "'a pst_scheme \<Rightarrow> u64 res" where
  "sys_getpid s = with_proc s (\<lambda>p. Ok (word_of_int (pid (pr s p))))"

definition sys_fork :: "'a flst_scheme \<Rightarrow> (u64 \<times> 'a flst_scheme) res" where
  "sys_fork s = rbind (fork s) (\<lambda>(r, s). Ok (word_of_int r, s))"

definition sys_wait :: "'a pst_scheme \<Rightarrow> (u64 \<times> 'a pst_scheme) res" where
  "sys_wait s = rbind (argaddr 0 s) (\<lambda>a.
     rbind (wait a s) (\<lambda>x. rbind (await x) (\<lambda>(r, s). Ok (word_of_int r, s))))"

definition sys_sbrk :: "'a pst_scheme \<Rightarrow> (u64 \<times> 'a pst_scheme) res" where
  "sys_sbrk s = rbind (argint 0 s) (\<lambda>n. with_proc s (\<lambda>p.
     let addr = sz (pr s p)
     in rbind (growproc n s) (\<lambda>(r, s). Ok (if r < 0 then -1 else addr, s))))"

text \<open>One round of the loop of \<^verbatim>\<open>sys_sleep\<close>, with \<^verbatim>\<open>tickslock\<close> held. The comparison of the
  unsigned difference with \<^verbatim>\<open>n\<close> is unsigned.\<close>

definition sleep_round :: "int \<Rightarrow> u32 \<Rightarrow> 'a pst_scheme \<Rightarrow> (u64 turn \<times> 'a pst_scheme) res" where
  "sleep_round n ticks0 s =
     (if ticks s - ticks0 < word_of_int n
      then with_proc s (\<lambda>p. rbind (killed p s) (\<lambda>(k, s).
             if k \<noteq> 0 then rbind (release L_ticks s) (\<lambda>s. Ok (Done (-1), s))
             else rbind (sleep_enter Ch_ticks L_ticks s) (\<lambda>s. Ok (Sleeping Ch_ticks, s))))
      else rbind (release L_ticks s) (\<lambda>s. Ok (Done 0, s)))"

definition sys_sleep :: "'a pst_scheme \<Rightarrow> (u64 turn \<times> 'a pst_scheme) res" where
  "sys_sleep s = rbind (argint 0 s) (\<lambda>n.
     let n = (if n < 0 then 0 else n)
     in rbind (acquire L_ticks s) (\<lambda>s. sleep_round n (ticks s) s))"

definition sys_sleep_resume :: "int \<Rightarrow> u32 \<Rightarrow> 'a pst_scheme \<Rightarrow> (u64 turn \<times> 'a pst_scheme) res" where
  "sys_sleep_resume n ticks0 s = rbind (sleep_leave L_ticks s) (sleep_round n ticks0)"

definition sys_kill :: "'a pst_scheme \<Rightarrow> (u64 \<times> 'a pst_scheme) res" where
  "sys_kill s = rbind (argint 0 s) (\<lambda>n. rbind (kill n s) (\<lambda>(r, s). Ok (word_of_int r, s)))"

definition sys_uptime :: "'a pst_scheme \<Rightarrow> (u64 \<times> 'a pst_scheme) res" where
  "sys_uptime s = rbind (acquire L_ticks s) (\<lambda>s.
     let xticks = ticks s in rbind (release L_ticks s) (\<lambda>s. Ok (ucast xticks, s)))"

definition sys_countsyscall :: "'a sysst_scheme \<Rightarrow> u64" where
  "sys_countsyscall s = syscall_count s"

definition sys_getppid :: "'a pst_scheme \<Rightarrow> u64 res" where
  "sys_getppid s = with_proc s (\<lambda>p.
     case parent (pr s p) of None \<Rightarrow> Panic ''kerneltrap'' | Some q \<Rightarrow> Ok (word_of_int (pid (pr s q))))"

definition sys_shutdown :: "'a sysst_scheme \<Rightarrow> (u64 \<times> 'a sysst_scheme) res" where
  "sys_shutdown s = rbind (printf (ascii ''shutting down '' @ [10]) [] s) (\<lambda>s.
     Ok (0, s\<lparr>test_dev := Some 0x5555\<rparr>))"

text \<open>The generator, and the seeding of its state at the first call.\<close>

definition lcg_seed :: "u32 \<Rightarrow> u32 \<Rightarrow> u32" where
  "lcg_seed now st = (if st = 1 then now + 1 else st)"

definition lcg_next :: "u32 \<Rightarrow> u32" where
  "lcg_next st = (1103515245 * st + 12345) AND 0x7fffffff"

definition sys_rand :: "'a sysst_scheme \<Rightarrow> u64 \<times> 'a sysst_scheme" where
  "sys_rand s = (let x = lcg_next (lcg_seed (ticks s) (sysproc_lcg_state s))
     in (ucast x, s\<lparr>sysproc_lcg_state := x\<rparr>))"

definition sys_getptable :: "bytes \<Rightarrow> 'a pst_scheme \<Rightarrow> (u64 \<times> 'a pst_scheme) res" where
  "sys_getptable pad s = rbind (argint 0 s) (\<lambda>nproc. rbind (argaddr 1 s) (\<lambda>buffer.
     rbind (getptable pad nproc buffer s) (\<lambda>(r, s). Ok (word_of_int r, s))))"

definition sys_set_sched :: "'a pst_scheme \<Rightarrow> (u64 \<times> 'a pst_scheme) res" where
  "sys_set_sched s = rbind (argint 0 s) (\<lambda>mode.
     Ok (if mode \<noteq> 0 \<and> mode \<noteq> 1 \<and> mode \<noteq> 2 then (-1, s) else (0, s\<lparr>sched_mode := mode\<rparr>)))"

definition sys_wait_sched :: "'a pst_scheme \<Rightarrow> (u64 \<times> 'a pst_scheme) res" where
  "sys_wait_sched s = rbind (argaddr 0 s) (\<lambda>a. rbind (argaddr 1 s) (\<lambda>tt. rbind (argaddr 2 s) (\<lambda>wt.
     rbind (wait_sched a tt wt s) (\<lambda>x. rbind (await x) (\<lambda>(r, s). Ok (word_of_int r, s))))))"

section \<open>Utilities\<close>

definition sys_random :: "'a sysst_scheme \<Rightarrow> u64 \<times> 'a sysst_scheme" where
  "sys_random s = (let x = lcg_next (lcg_seed (ticks s) (lcg_state s))
     in (ucast x, s\<lparr>lcg_state := x\<rparr>))"

definition BOOT_EPOCH :: u64 where [xv6_consts]: "BOOT_EPOCH = 1"
definition MTIME_FREQ :: u64 where [xv6_consts]: "MTIME_FREQ = 10000000"

record rtcdate =
  second :: int
  minute :: int
  hour :: int
  day :: int
  month :: int
  year :: int

text \<open>\<^verbatim>\<open>seconds_to_rtcdate\<close>. The 64-bit and unsigned intermediate values stay within their C
  types for every argument, so they are integers; the quotients are of non-negative
  numbers. The year is cut to 32 bits.\<close>

definition seconds_to_rtcdate :: "u64 \<Rightarrow> rtcdate" where
  "seconds_to_rtcdate secs =
     (let days = uint (secs div 86400);
          rest = uint (secs mod 86400);
          z = days + 719468;
          era = z div 146097;
          doe = z - era * 146097;
          yoe = (doe - doe div 1460 + doe div 36524 - doe div 146096) div 365;
          y = sint (word_of_int (yoe + era * 400) :: u32);
          doy = doe - (365 * yoe + yoe div 4 - yoe div 100);
          mp = (5 * doy + 2) div 153;
          d = doy - (153 * mp + 2) div 5 + 1;
          m = mp + (if mp < 10 then 3 else -9)
      in \<lparr>second = rest mod 3600 mod 60, minute = rest mod 3600 div 60, hour = rest div 3600,
          day = d, month = m, year = y + (if m \<le> 2 then 1 else 0)\<rparr>)"

definition rtcdate_bytes :: "rtcdate \<Rightarrow> bytes" where
  "rtcdate_bytes r = i32_bytes (second r) @ i32_bytes (minute r) @ i32_bytes (hour r) @
     i32_bytes (day r) @ i32_bytes (month r) @ i32_bytes (year r)"

definition sys_datetime :: "'a sysst_scheme \<Rightarrow> (u64 \<times> 'a sysst_scheme) res" where
  "sys_datetime s = rbind (argaddr 0 s) (\<lambda>a.
     let unix_secs = BOOT_EPOCH + mtime s div MTIME_FREQ + 7200;
         rd = seconds_to_rtcdate unix_secs
     in with_proc s (\<lambda>p. rbind (copyout (pagetable (pr s p)) a (rtcdate_bytes rd) s) (\<lambda>(r, s).
          Ok (if r < 0 then -1 else 0, s))))"

definition sys_kbdint :: "'a cst_scheme \<Rightarrow> u64" where
  "sys_kbdint s = word_of_int (keyboard_int_cnt s)"

section \<open>The dispatcher\<close>

text \<open>The table of handlers. \<open>pad\<close> is the padding of the structures copied out. \<^verbatim>\<open>sys_exit\<close> does
  not return.\<close>

definition sys_call :: "bytes \<Rightarrow> int \<Rightarrow> 'a sysst_scheme \<Rightarrow> (u64 \<times> 'a sysst_scheme) res" where
  "sys_call pad num s =
     (if num = 1 then sys_fork s
      else if num = 2 then rbind (sys_exit s) (\<lambda>_. NoFuel)
      else if num = 3 then sys_wait s
      else if num = 4 then sys_pipe s
      else if num = 5 then sys_read s
      else if num = 6 then sys_kill s
      else if num = 7 then sys_exec s
      else if num = 8 then sys_fstat pad s
      else if num = 9 then sys_chdir s
      else if num = 10 then sys_dup s
      else if num = 11 then rbind (sys_getpid s) (\<lambda>r. Ok (r, s))
      else if num = 12 then sys_sbrk s
      else if num = 13 then rbind (sys_sleep s) await
      else if num = 14 then sys_uptime s
      else if num = 15 then sys_open s
      else if num = 16 then sys_write s
      else if num = 17 then sys_mknod s
      else if num = 18 then sys_unlink s
      else if num = 19 then sys_link s
      else if num = 20 then sys_mkdir s
      else if num = 21 then sys_close s
      else if num = 22 then Ok (sys_kbdint s, s)
      else if num = 23 then Ok (sys_countsyscall s, s)
      else if num = 24 then rbind (sys_getppid s) (\<lambda>r. Ok (r, s))
      else if num = 25 then sys_shutdown s
      else if num = 26 then Ok (sys_random s)
      else if num = 27 then sys_getptable pad s
      else if num = 28 then sys_datetime s
      else if num = 29 then sys_set_sched s
      else sys_wait_sched s)"

definition NSYSCALL :: int where [xv6_consts]: "NSYSCALL = 31"

definition set_a0 :: "nat \<Rightarrow> u64 \<Rightarrow> 'a pst_scheme \<Rightarrow> 'a pst_scheme" where
  "set_a0 p x s = upd_tf p (\<lambda>t. t\<lparr>tf_a := (tf_a t)[0 := x]\<rparr>) s"

definition syscall :: "bytes \<Rightarrow> 'a sysst_scheme \<Rightarrow> 'a sysst_scheme res" where
  "syscall pad s = with_proc s (\<lambda>p.
     let num = sint (ucast (tf_a (tframes s (trapframe (pr s p))) ! 7) :: u32);
         s = s\<lparr>syscall_count := syscall_count s + 1\<rparr>
     in if num > 0 \<and> num < NSYSCALL
        then rbind (sys_call pad num s) (\<lambda>(r, s). Ok (set_a0 p r s))
        else rbind (printf (ascii ''%d %s: unknown sys call %d'' @ [10])
                 [PInt (word_of_int (pid (pr s p))), PStr (Some (pname (pr s p))), PInt (word_of_int num)] s) (\<lambda>s.
             Ok (set_a0 p (-1) s)))"

end
