(* ===== verification/Riscv.thy ===== *)
theory Riscv
  imports Xv6_Prelude
begin

text \<open>
  The control and status registers of a hart as \<^verbatim>\<open>kernel/riscv.h\<close> reads and writes them, and
  the code that runs in machine mode before \<^verbatim>\<open>main\<close> (\<^verbatim>\<open>kernel/start.c\<close>). Each register keeps the
  value last written to it.
\<close>

record csrs =
  c_mhartid :: u64
  c_mstatus :: u64
  c_sstatus :: u64
  c_sie :: u64
  c_mie :: u64
  c_sepc :: u64
  c_stvec :: u64
  c_menvcfg :: u64
  c_satp :: u64
  c_scause :: u64
  c_stval :: u64
  c_mcounteren :: u64
  c_time :: u64
  c_tp :: u64
  c_mepc :: u64
  c_medeleg :: u64
  c_mideleg :: u64
  c_stimecmp :: u64
  c_pmpcfg0 :: u64
  c_pmpaddr0 :: u64

section \<open>Reading and writing registers\<close>

definition r_mhartid :: "csrs \<Rightarrow> u64" where "r_mhartid c = c_mhartid c"
definition r_mstatus :: "csrs \<Rightarrow> u64" where "r_mstatus c = c_mstatus c"
definition r_sstatus :: "csrs \<Rightarrow> u64" where "r_sstatus c = c_sstatus c"
definition r_sie :: "csrs \<Rightarrow> u64" where "r_sie c = c_sie c"
definition r_mie :: "csrs \<Rightarrow> u64" where "r_mie c = c_mie c"
definition r_sepc :: "csrs \<Rightarrow> u64" where "r_sepc c = c_sepc c"
definition r_stvec :: "csrs \<Rightarrow> u64" where "r_stvec c = c_stvec c"
definition r_menvcfg :: "csrs \<Rightarrow> u64" where "r_menvcfg c = c_menvcfg c"
definition r_satp :: "csrs \<Rightarrow> u64" where "r_satp c = c_satp c"
definition r_scause :: "csrs \<Rightarrow> u64" where "r_scause c = c_scause c"
definition r_stval :: "csrs \<Rightarrow> u64" where "r_stval c = c_stval c"
definition r_mcounteren :: "csrs \<Rightarrow> u64" where "r_mcounteren c = c_mcounteren c"
definition r_time :: "csrs \<Rightarrow> u64" where "r_time c = c_time c"
definition r_tp :: "csrs \<Rightarrow> u64" where "r_tp c = c_tp c"

definition w_mstatus :: "u64 \<Rightarrow> csrs \<Rightarrow> csrs" where "w_mstatus x c = c\<lparr>c_mstatus := x\<rparr>"
definition w_mepc :: "u64 \<Rightarrow> csrs \<Rightarrow> csrs" where "w_mepc x c = c\<lparr>c_mepc := x\<rparr>"
definition w_sstatus :: "u64 \<Rightarrow> csrs \<Rightarrow> csrs" where "w_sstatus x c = c\<lparr>c_sstatus := x\<rparr>"
definition w_sie :: "u64 \<Rightarrow> csrs \<Rightarrow> csrs" where "w_sie x c = c\<lparr>c_sie := x\<rparr>"
definition w_mie :: "u64 \<Rightarrow> csrs \<Rightarrow> csrs" where "w_mie x c = c\<lparr>c_mie := x\<rparr>"
definition w_sepc :: "u64 \<Rightarrow> csrs \<Rightarrow> csrs" where "w_sepc x c = c\<lparr>c_sepc := x\<rparr>"
definition w_medeleg :: "u64 \<Rightarrow> csrs \<Rightarrow> csrs" where "w_medeleg x c = c\<lparr>c_medeleg := x\<rparr>"
definition w_mideleg :: "u64 \<Rightarrow> csrs \<Rightarrow> csrs" where "w_mideleg x c = c\<lparr>c_mideleg := x\<rparr>"
definition w_stvec :: "u64 \<Rightarrow> csrs \<Rightarrow> csrs" where "w_stvec x c = c\<lparr>c_stvec := x\<rparr>"
definition w_stimecmp :: "u64 \<Rightarrow> csrs \<Rightarrow> csrs" where "w_stimecmp x c = c\<lparr>c_stimecmp := x\<rparr>"
definition w_menvcfg :: "u64 \<Rightarrow> csrs \<Rightarrow> csrs" where "w_menvcfg x c = c\<lparr>c_menvcfg := x\<rparr>"
definition w_pmpcfg0 :: "u64 \<Rightarrow> csrs \<Rightarrow> csrs" where "w_pmpcfg0 x c = c\<lparr>c_pmpcfg0 := x\<rparr>"
definition w_pmpaddr0 :: "u64 \<Rightarrow> csrs \<Rightarrow> csrs" where "w_pmpaddr0 x c = c\<lparr>c_pmpaddr0 := x\<rparr>"
definition w_satp :: "u64 \<Rightarrow> csrs \<Rightarrow> csrs" where "w_satp x c = c\<lparr>c_satp := x\<rparr>"
definition w_mcounteren :: "u64 \<Rightarrow> csrs \<Rightarrow> csrs" where "w_mcounteren x c = c\<lparr>c_mcounteren := x\<rparr>"
definition w_tp :: "u64 \<Rightarrow> csrs \<Rightarrow> csrs" where "w_tp x c = c\<lparr>c_tp := x\<rparr>"

lemmas csr_defs = r_mhartid_def r_mstatus_def r_sstatus_def r_sie_def r_mie_def r_sepc_def r_stvec_def r_menvcfg_def r_satp_def r_scause_def r_stval_def r_mcounteren_def r_time_def r_tp_def
  w_mstatus_def w_mepc_def w_sstatus_def w_sie_def w_mie_def w_sepc_def w_medeleg_def w_mideleg_def w_stvec_def w_stimecmp_def w_menvcfg_def w_pmpcfg0_def w_pmpaddr0_def w_satp_def w_mcounteren_def w_tp_def

definition MSTATUS_MPP_MASK :: u64 where [xv6_consts]: "MSTATUS_MPP_MASK = push_bit 11 3"
definition MSTATUS_MPP_S :: u64 where [xv6_consts]: "MSTATUS_MPP_S = push_bit 11 1"
definition SSTATUS_SPP :: u64 where [xv6_consts]: "SSTATUS_SPP = push_bit 8 1"
definition SSTATUS_SPIE :: u64 where [xv6_consts]: "SSTATUS_SPIE = push_bit 5 1"
definition SSTATUS_SIE :: u64 where [xv6_consts]: "SSTATUS_SIE = push_bit 1 1"
definition SIE_SEIE :: u64 where [xv6_consts]: "SIE_SEIE = push_bit 9 1"
definition SIE_STIE :: u64 where [xv6_consts]: "SIE_STIE = push_bit 5 1"
definition SIE_SSIE :: u64 where [xv6_consts]: "SIE_SSIE = push_bit 1 1"
definition MIE_STIE :: u64 where [xv6_consts]: "MIE_STIE = push_bit 5 1"
definition SATP_SV39 :: u64 where [xv6_consts]: "SATP_SV39 = push_bit 60 8"

definition csr_intr_on :: "csrs \<Rightarrow> csrs" where
  "csr_intr_on c = w_sstatus (r_sstatus c OR SSTATUS_SIE) c"

definition csr_intr_off :: "csrs \<Rightarrow> csrs" where
  "csr_intr_off c = w_sstatus (r_sstatus c AND NOT SSTATUS_SIE) c"

definition csr_intr_get :: "csrs \<Rightarrow> bool" where
  "csr_intr_get c \<longleftrightarrow> r_sstatus c AND SSTATUS_SIE \<noteq> 0"

definition MAKE_SATP :: "u64 \<Rightarrow> u64" where
  "MAKE_SATP pagetable = SATP_SV39 OR drop_bit 12 pagetable"

section \<open>Machine mode\<close>

definition timerinit :: "csrs \<Rightarrow> csrs" where
  "timerinit c =
     (let c = w_mie (r_mie c OR MIE_STIE) c;
          c = w_menvcfg (r_menvcfg c OR push_bit 63 1) c;
          c = w_mcounteren (r_mcounteren c OR 2) c
      in w_stimecmp (r_time c + 1000000) c)"

text \<open>\<^verbatim>\<open>start\<close> up to \<^verbatim>\<open>mret\<close>; \<open>main\<close> is the address of the function of that name. The hart
  number is an \<^verbatim>\<open>int\<close>.\<close>

definition start :: "u64 \<Rightarrow> csrs \<Rightarrow> csrs" where
  "start main c =
     (let x = r_mstatus c AND NOT MSTATUS_MPP_MASK;
          x = x OR MSTATUS_MPP_S;
          c = w_mstatus x c;
          c = w_mepc main c;
          c = w_satp 0 c;
          c = w_medeleg 0xffff c;
          c = w_mideleg 0xffff c;
          c = w_sie (r_sie c OR SIE_SEIE OR SIE_STIE OR SIE_SSIE) c;
          c = w_pmpaddr0 0x3fffffffffffff c;
          c = w_pmpcfg0 0xf c;
          c = timerinit c
      in w_tp (scast (ucast (r_mhartid c) :: u32)) c)"

end
