(* ===== verification/Trap.thy ===== *)
theory Trap
  imports Sysproc Riscv
begin

text \<open>
  Traps (\<^verbatim>\<open>kernel/trap.c\<close>), the interrupt controller (\<^verbatim>\<open>kernel/plic.c\<close>) and the start of the
  kernel (\<^verbatim>\<open>kernel/main.c\<close>). The state has the registers of the running hart, the interrupts
  pending at the controller, the writes to its registers, and the addresses the linker
  fixes.
\<close>

record trst = sysst +
  csr :: csrs
  plic_pending :: "u32 list"
  plic_out :: "(u64 \<times> u32) list"
  kernelvec :: u64
  uservec :: u64
  userret :: u64
  usertrap_pc :: u64

definition upd_csr :: "(csrs \<Rightarrow> csrs) \<Rightarrow> 'a trst_scheme \<Rightarrow> 'a trst_scheme" where
  "upd_csr f s = s\<lparr>csr := f (csr s)\<rparr>"

definition cpuid :: "'a trst_scheme \<Rightarrow> int" where
  "cpuid s = sint (ucast (r_tp (csr s)) :: u32)"

section \<open>The interrupt controller\<close>

definition UART0_IRQ :: u32 where [xv6_consts]: "UART0_IRQ = 10"
definition VIRTIO0_IRQ :: u32 where [xv6_consts]: "VIRTIO0_IRQ = 1"

definition PLIC_SENABLE :: "int \<Rightarrow> u64" where
  "PLIC_SENABLE hart = PLIC + 0x2080 + word_of_int hart * 0x100"

definition PLIC_SPRIORITY :: "int \<Rightarrow> u64" where
  "PLIC_SPRIORITY hart = PLIC + 0x201000 + word_of_int hart * 0x2000"

definition PLIC_SCLAIM :: "int \<Rightarrow> u64" where
  "PLIC_SCLAIM hart = PLIC + 0x201004 + word_of_int hart * 0x2000"

definition w_plic :: "u64 \<Rightarrow> u32 \<Rightarrow> 'a trst_scheme \<Rightarrow> 'a trst_scheme" where
  "w_plic a x s = s\<lparr>plic_out := plic_out s @ [(a, x)]\<rparr>"

definition plicinit :: "'a trst_scheme \<Rightarrow> 'a trst_scheme" where
  "plicinit s = w_plic (PLIC + ucast VIRTIO0_IRQ * 4) 1 (w_plic (PLIC + ucast UART0_IRQ * 4) 1 s)"

definition plicinithart :: "'a trst_scheme \<Rightarrow> 'a trst_scheme" where
  "plicinithart s =
     (let hart = cpuid s
      in w_plic (PLIC_SPRIORITY hart) 0
           (w_plic (PLIC_SENABLE hart) (push_bit (unat UART0_IRQ) 1 OR push_bit (unat VIRTIO0_IRQ) 1) s))"

text \<open>Reading the claim register takes the first pending interrupt, or 0.\<close>

definition plic_claim :: "'a trst_scheme \<Rightarrow> int \<times> 'a trst_scheme" where
  "plic_claim s = (case plic_pending s of [] \<Rightarrow> (0, s)
     | irq # irqs \<Rightarrow> (sint irq, s\<lparr>plic_pending := irqs\<rparr>))"

definition plic_complete :: "int \<Rightarrow> 'a trst_scheme \<Rightarrow> 'a trst_scheme" where
  "plic_complete irq s = w_plic (PLIC_SCLAIM (cpuid s)) (word_of_int irq) s"

section \<open>Device interrupts\<close>

definition clockintr :: "'a trst_scheme \<Rightarrow> 'a trst_scheme res" where
  "clockintr s =
     rbind (if cpuid s = 0
            then rbind (acquire L_ticks s) (\<lambda>s.
                 rbind (update_time (s\<lparr>ticks := ticks s + 1\<rparr>)) (\<lambda>s.
                 rbind (wakeup Ch_ticks s) (\<lambda>s. release L_ticks s)))
            else Ok s) (\<lambda>s.
     Ok (upd_csr (\<lambda>c. w_stimecmp (r_time c + 1000000) c) s))"

definition external_intr :: "'a trst_scheme \<Rightarrow> 'a trst_scheme res" where
  "external_intr s =
     (let (irq, s) = plic_claim s
      in rbind (if irq = sint UART0_IRQ then uartintr s
                else if irq = sint VIRTIO0_IRQ then virtio_disk_intr s
                else if irq \<noteq> 0 then printf (ascii ''unexpected interrupt irq=%d'' @ [10]) [PInt (word_of_int irq)] s
                else Ok s) (\<lambda>s.
         Ok (if irq \<noteq> 0 then plic_complete irq s else s)))"

definition devintr :: "'a trst_scheme \<Rightarrow> (int \<times> 'a trst_scheme) res" where
  "devintr s =
     (let scause = r_scause (csr s)
      in if scause = 0x8000000000000009 then rbind (external_intr s) (\<lambda>s. Ok (1, s))
         else if scause = 0x8000000000000005 then rbind (clockintr s) (\<lambda>s. Ok (2, s))
         else Ok (0, s))"

section \<open>Traps from user space\<close>

text \<open>How a trap ends: in user space with the given page table register, in \<^verbatim>\<open>exit\<close>, or giving
  up the CPU, in which case the trap continues when the process runs again.\<close>

datatype trap_end = To_user u64 | Exited | Yielded

definition trapinithart :: "'a trst_scheme \<Rightarrow> 'a trst_scheme" where
  "trapinithart s = upd_csr (w_stvec (kernelvec s)) s"

definition usertrapret :: "'a trst_scheme \<Rightarrow> (trap_end \<times> 'a trst_scheme) res" where
  "usertrapret s = with_proc s (\<lambda>p.
     let s = upd_csr csr_intr_off s;
         s = upd_csr (w_stvec (TRAMPOLINE + (uservec s - trampoline s))) s;
         s = upd_tf p (\<lambda>t. t\<lparr>tf_kernel_satp := r_satp (csr s), tf_kernel_sp := kstack (pr s p) + PGSIZE,
               tf_kernel_trap := usertrap_pc s, tf_kernel_hartid := r_tp (csr s)\<rparr>) s;
         x = (r_sstatus (csr s) AND NOT SSTATUS_SPP) OR SSTATUS_SPIE;
         s = upd_csr (w_sstatus x) s;
         s = upd_csr (w_sepc (tf_epc (tframes s (trapframe (pr s p))))) s
     in Ok (To_user (MAKE_SATP (pagetable (pr s p))), s))"

definition exit_trap :: "'a trst_scheme \<Rightarrow> (trap_end \<times> 'a trst_scheme) res" where
  "exit_trap s = rbind (exit (-1) s) (\<lambda>s. Ok (Exited, s))"

text \<open>The end of \<^verbatim>\<open>usertrap\<close>, after the trap has been served.\<close>

definition usertrap_end :: "nat \<Rightarrow> int \<Rightarrow> 'a trst_scheme \<Rightarrow> (trap_end \<times> 'a trst_scheme) res" where
  "usertrap_end p which_dev s =
     rbind (killed p s) (\<lambda>(k, s).
     if k \<noteq> 0 then exit_trap s
     else if which_dev = 2 then rbind (yield_enter s) (\<lambda>s. Ok (Yielded, s))
     else usertrapret s)"

definition usertrap_resume :: "'a trst_scheme \<Rightarrow> (trap_end \<times> 'a trst_scheme) res" where
  "usertrap_resume s = rbind (yield_leave s) usertrapret"

definition usertrap :: "bytes \<Rightarrow> 'a trst_scheme \<Rightarrow> (trap_end \<times> 'a trst_scheme) res" where
  "usertrap pad s =
     (if r_sstatus (csr s) AND SSTATUS_SPP \<noteq> 0 then Panic ''usertrap: not from user mode''
      else with_proc s (\<lambda>p.
        let s = upd_csr (w_stvec (kernelvec s)) s;
            s = upd_tf p (\<lambda>t. t\<lparr>tf_epc := r_sepc (csr s)\<rparr>) s
        in if r_scause (csr s) = 8
           then rbind (killed p s) (\<lambda>(k, s).
                if k \<noteq> 0 then exit_trap s
                else let s = upd_tf p (\<lambda>t. t\<lparr>tf_epc := tf_epc t + 4\<rparr>) s;
                         s = upd_csr csr_intr_on s
                     in rbind (syscall pad s) (usertrap_end p 0))
           else rbind (devintr s) (\<lambda>(which_dev, s).
                if which_dev \<noteq> 0 then usertrap_end p which_dev s
                else
                rbind (printf (ascii ''usertrap(): unexpected scause 0x%lx pid=%d'' @ [10])
                         [PLong (r_scause (csr s)), PInt (word_of_int (pid (pr s p)))] s) (\<lambda>s.
                rbind (printf (ascii ''            sepc=0x%lx stval=0x%lx'' @ [10])
                         [PLong (r_sepc (csr s)), PLong (r_stval (csr s))] s) (\<lambda>s.
                rbind (setkilled p s) (usertrap_end p 0))))))"

section \<open>Traps from the kernel\<close>

definition kerneltrap_end :: "u64 \<Rightarrow> u64 \<Rightarrow> 'a trst_scheme \<Rightarrow> 'a trst_scheme" where
  "kerneltrap_end ksepc ksstatus s = upd_csr (w_sstatus ksstatus) (upd_csr (w_sepc ksepc) s)"

text \<open>The flag says whether the CPU was given up; then \<open>kerneltrap_resume\<close> is the rest.\<close>

definition kerneltrap :: "'a trst_scheme \<Rightarrow> (bool \<times> 'a trst_scheme) res" where
  "kerneltrap s =
     (let ksepc = r_sepc (csr s); ksstatus = r_sstatus (csr s); kscause = r_scause (csr s)
      in if ksstatus AND SSTATUS_SPP = 0 then Panic ''kerneltrap: not from supervisor mode''
         else if csr_intr_get (csr s) then Panic ''kerneltrap: interrupts enabled''
         else rbind (devintr s) (\<lambda>(which_dev, s).
           if which_dev = 0
           then rbind (printf (ascii ''scause=0x%lx sepc=0x%lx stval=0x%lx'' @ [10])
                    [PLong kscause, PLong (r_sepc (csr s)), PLong (r_stval (csr s))] s) (\<lambda>_. Panic ''kerneltrap'')
           else if which_dev = 2 \<and> myproc s \<noteq> None then rbind (yield_enter s) (\<lambda>s. Ok (True, s))
           else Ok (False, kerneltrap_end ksepc ksstatus s)))"

definition kerneltrap_resume :: "u64 \<Rightarrow> u64 \<Rightarrow> 'a trst_scheme \<Rightarrow> 'a trst_scheme res" where
  "kerneltrap_resume ksepc ksstatus s =
     rbind (yield_leave s) (\<lambda>s. Ok (kerneltrap_end ksepc ksstatus s))"

section \<open>The start of the kernel\<close>

definition kvminithart :: "'a trst_scheme \<Rightarrow> 'a trst_scheme" where
  "kvminithart s = upd_csr (w_satp (MAKE_SATP (kernel_pagetable s))) s"

text \<open>\<^verbatim>\<open>main\<close> on hart 0, up to the call of \<^verbatim>\<open>scheduler\<close>. The initialisation of spin locks
  leaves the state as it is.\<close>

definition main_boot :: "'a trst_scheme \<Rightarrow> 'a trst_scheme res" where
  "main_boot s =
     rbind (printf [10] [] (printfinit (consoleinit s))) (\<lambda>s.
     rbind (printf (ascii ''xv6 kernel is booting'' @ [10]) [] s) (\<lambda>s.
     rbind (printf [10] [] s) (\<lambda>s.
     rbind (kinit s) (\<lambda>s.
     rbind (kvminit s) (\<lambda>s.
     let s = procinit (kvminithart s);
         s = plicinithart (plicinit (trapinithart s));
         s = iinit (binit s)
     in rbind (virtio_disk_init s) userinit)))))"

text \<open>\<^verbatim>\<open>main\<close> on the other harts, once the first has set \<^verbatim>\<open>started\<close>.\<close>

definition main_hart :: "'a trst_scheme \<Rightarrow> 'a trst_scheme res" where
  "main_hart s =
     rbind (printf (ascii ''hart %d starting'' @ [10]) [PInt (word_of_int (cpuid s))] s) (\<lambda>s.
     Ok (plicinithart (trapinithart (kvminithart s))))"

end
