(* ===== verification/Datetime.thy ===== *)
theory Datetime
  imports Sysproc
begin

text \<open>
  The calendar computation of \<^verbatim>\<open>kernel/sysutil.c\<close> against the Gregorian calendar. The
  reference is the rule for the day after a given date; \<^verbatim>\<open>seconds_to_rtcdate\<close> uses closed
  formulas on years that begin in March. The proof goes through the number of days
  before a March year, \<open>march_start\<close>, and the date of a day of such a year, \<open>march_date\<close>.
\<close>

section \<open>The calendar\<close>

type_synonym date = "int \<times> int \<times> int"

definition leap_year :: "int \<Rightarrow> bool" where
  "leap_year y \<longleftrightarrow> y mod 4 = 0 \<and> (y mod 100 \<noteq> 0 \<or> y mod 400 = 0)"

definition month_days :: "int \<Rightarrow> int \<Rightarrow> int" where
  "month_days y m = (if m = 2 then if leap_year y then 29 else 28
     else if m = 4 \<or> m = 6 \<or> m = 9 \<or> m = 11 then 30 else 31)"

definition next_day :: "date \<Rightarrow> date" where
  "next_day = (\<lambda>(y, m, d).
     if d < month_days y m then (y, m, d + 1) else if m < 12 then (y, m + 1, 1) else (y + 1, 1, 1))"

definition valid_date :: "date \<Rightarrow> bool" where
  "valid_date = (\<lambda>(y, m, d). 1 \<le> m \<and> m \<le> 12 \<and> 1 \<le> d \<and> d \<le> month_days y m)"

definition date_of :: "rtcdate \<Rightarrow> date" where
  "date_of r = (year r, month r, day r)"

lemma next_day_valid: "valid_date x \<Longrightarrow> valid_date (next_day x)"
  by (auto simp: valid_date_def next_day_def month_days_def split: if_splits)

section \<open>Years that begin in March\<close>

definition march_start :: "int \<Rightarrow> int" where
  "march_start y = 365 * y + y div 4 - y div 100 + y div 400"

definition march_len :: "int \<Rightarrow> int" where
  "march_len y = (if leap_year (y + 1) then 366 else 365)"

definition month_day :: "int \<Rightarrow> int \<times> int" where
  "month_day doy = (let mp = (5 * doy + 2) div 153
     in (mp + (if mp < 10 then 3 else -9), doy - (153 * mp + 2) div 5 + 1))"

definition march_date :: "int \<Rightarrow> int \<Rightarrow> date" where
  "march_date y doy = (let (m, d) = month_day doy in (y + (if m \<le> 2 then 1 else 0), m, d))"

text \<open>A year is a place in the cycle of 400 years: century, leap cycle, year.\<close>

lemma div_rest:
  fixes x k :: int
  assumes "0 < k"
  obtains q r where "x = k * q + r" "0 \<le> r" "r < k"
  using assms that [of "x div k" "x mod k"] by simp

lemma year_split:
  fixes y :: int
  obtains e c q r where "y = 400 * e + 100 * c + 4 * q + r" "0 \<le> c" "c \<le> 3" "0 \<le> q" "q \<le> 24" "0 \<le> r" "r \<le> 3"
proof -
  obtain e w where w: "y = 400 * e + w" "0 \<le> w" "w < 400" by (rule div_rest [of 400 y]) simp
  obtain c v where v: "w = 100 * c + v" "0 \<le> v" "v < 100" by (rule div_rest [of 100 w]) simp
  obtain q r where r: "v = 4 * q + r" "0 \<le> r" "r < 4" by (rule div_rest [of 4 v]) simp
  show ?thesis by (rule that [of e c q r]) (use w v r in linarith)+
qed

lemma march_start_split:
  assumes "y = 400 * e + 100 * c + 4 * q + r" "0 \<le> c" "c \<le> 3" "0 \<le> q" "q \<le> 24" "0 \<le> r" "r \<le> (3::int)"
  shows "y div 4 = 100 * e + 25 * c + q" "y div 100 = 4 * e + c" "y div 400 = e"
    and "march_start y = 146097 * e + 36524 * c + 1461 * q + 365 * r"
    and "leap_year (y + 1) \<longleftrightarrow> r = 3 \<and> (q < 24 \<or> c = 3)"
proof -
  show d: "y div 4 = 100 * e + 25 * c + q" by (rule int_div_pos_eq [of _ _ _ r]) (use assms in auto)+
  show d': "y div 100 = 4 * e + c" by (rule int_div_pos_eq [of _ _ _ "4 * q + r"]) (use assms in auto)+
  show d'': "y div 400 = e" by (rule int_div_pos_eq [of _ _ _ "100 * c + 4 * q + r"]) (use assms in auto)+
  show "march_start y = 146097 * e + 36524 * c + 1461 * q + 365 * r" unfolding march_start_def d d' d'' using assms(1) by simp
  have m: "(y + 1) mod k = 0 \<longleftrightarrow> b" if "y = k * z + x" "0 \<le> x" "x < k" "x + 1 = k \<longleftrightarrow> b" for k z x :: int and b
  proof -
    have "(y + 1) mod k = (x + 1) mod k" using that(1) by (simp add: add.assoc)
    then show ?thesis using that(2-4) by (cases "x + 1 = k") (auto simp: mod_pos_pos_trivial)
  qed
  have m4: "(y + 1) mod 4 = 0 \<longleftrightarrow> r = 3" by (rule m [of _ "100 * e + 25 * c + q" r]) (use assms in auto)
  have b: "4 * q + r + 1 = 100 \<longleftrightarrow> r = 3 \<and> q = 24" "100 * c + 4 * q + r + 1 = 400 \<longleftrightarrow> r = 3 \<and> q = 24 \<and> c = 3"
    using assms(2-) by (intro iffI conjI; linarith)+
  have m100: "(y + 1) mod 100 = 0 \<longleftrightarrow> r = 3 \<and> q = 24" by (rule m [OF _ _ _ b(1), of "4 * e + c"]) (use assms in auto)
  have m400: "(y + 1) mod 400 = 0 \<longleftrightarrow> r = 3 \<and> q = 24 \<and> c = 3"
    by (rule m [OF _ _ _ b(2), of e]) (use assms in auto)
  have "q < 24 \<longleftrightarrow> q \<noteq> 24" using assms(5) by auto
  then show "leap_year (y + 1) \<longleftrightarrow> r = 3 \<and> (q < 24 \<or> c = 3)"
    unfolding leap_year_def m4 m100 m400 by blast
qed

lemma march_start_Suc: "march_start (y + 1) = march_start y + march_len y"
proof -
  obtain e c q r where y: "y = 400 * e + 100 * c + 4 * q + r" "0 \<le> c" "c \<le> 3" "0 \<le> q" "q \<le> 24" "0 \<le> r" "r \<le> 3"
    by (rule year_split)
  consider "r < 3" | "r = 3" "q < 24" | "r = 3" "q = 24" "c < 3" | "r = 3" "q = 24" "c = 3" using y by linarith
  then show ?thesis
    unfolding march_len_def march_start_split(4,5) [OF y]
    using y march_start_split(4) [of "y + 1" e c q "r + 1"] march_start_split(4) [of "y + 1" e c "q + 1" 0]
      march_start_split(4) [of "y + 1" e "c + 1" 0 0] march_start_split(4) [of "y + 1" "e + 1" 0 0 0]
    by cases simp_all
qed

text \<open>The day after a day of a March year.\<close>

lemma month_day_eq:
  assumes "153 * k \<le> 5 * doy + 2" "5 * doy + 2 < 153 * (k + 1)"
  shows "month_day doy = (k + (if k < 10 then 3 else -9), doy - (153 * k + 2) div 5 + 1)"
proof -
  have "(5 * doy + 2) div 153 = k" by (rule int_div_pos_eq [of _ _ _ "5 * doy + 2 - 153 * k"]) (use assms in auto)
  then show ?thesis by (simp add: month_day_def)
qed

lemma month_day_next:
  assumes "0 \<le> doy" "doy < 364"
  obtains k where "k \<in> {0, 1, 2, 3, 4, 5, 6, 7, 8, 9, 10, 11}" "153 * k \<le> 5 * doy + 2" "5 * doy + 2 < 153 * (k + 1)"
    "month_day doy = (k + (if k < 10 then 3 else -9), doy - (153 * k + 2) div 5 + 1)"
    "month_day (doy + 1) = (if 5 * doy + 7 < 153 * (k + 1)
       then (k + (if k < 10 then 3 else -9), doy + 1 - (153 * k + 2) div 5 + 1)
       else (k + 1 + (if k + 1 < 10 then 3 else -9), doy + 1 - (153 * (k + 1) + 2) div 5 + 1))"
proof -
  obtain k r where "5 * doy + 2 = 153 * k + r" "0 \<le> r" "r < 153" by (rule div_rest [of 153 "5 * doy + 2"]) simp
  then have k: "153 * k \<le> 5 * doy + 2" "5 * doy + 2 < 153 * (k + 1)" "5 * doy + 2 < 153 * k + 153" by simp_all
  have "0 \<le> k" "k \<le> 11" using k(1,3) assms by linarith+
  then have "k \<in> {0, 1, 2, 3, 4, 5, 6, 7, 8, 9, 10, 11}" by (simp, presburger)
  then show ?thesis
    using k month_day_eq [of k "doy + 1"] month_day_eq [of "k + 1" "doy + 1"] by (intro that [of k] month_day_eq) auto
qed

lemma month_day_ends: "month_day 0 = (3, 1)" "month_day 364 = (2, 28)" "month_day 365 = (2, 29)"
  by (simp_all add: month_day_def)

lemma march_date_next:
  assumes "0 \<le> doy" "doy < march_len y"
  shows "next_day (march_date y doy) = (if doy + 1 < march_len y then march_date y (doy + 1) else march_date (y + 1) 0)"
proof (cases "doy < 364")
  case True
  from month_day_next [OF assms(1) True] obtain k where k: "k \<in> {0, 1, 2, 3, 4, 5, 6, 7, 8, 9, 10, 11}" "153 * k \<le> 5 * doy + 2"
      "5 * doy + 2 < 153 * (k + 1)" and md: "month_day doy = (k + (if k < 10 then 3 else -9), doy - (153 * k + 2) div 5 + 1)"
      "month_day (doy + 1) = (if 5 * doy + 7 < 153 * (k + 1)
         then (k + (if k < 10 then 3 else -9), doy + 1 - (153 * k + 2) div 5 + 1)
         else (k + 1 + (if k + 1 < 10 then 3 else -9), doy + 1 - (153 * (k + 1) + 2) div 5 + 1))" .
  have "doy + 1 < march_len y" using True by (simp add: march_len_def)
  then show ?thesis
    using k True unfolding march_date_def md Let_def next_day_def month_days_def
    by (elim insertE emptyE; cases "5 * doy + 7 < 153 * (k + 1)") simp_all
next
  case False
  then have "doy = 364 \<or> doy = 365" using assms(2) by (auto simp: march_len_def split: if_splits)
  with assms(2) show ?thesis
    by (auto simp: march_date_def month_day_ends next_day_def month_days_def march_len_def split: if_splits)
qed

lemma march_year_exists:
  "\<exists>y doy. 0 \<le> y \<and> 0 \<le> doy \<and> doy < march_len y \<and> int n = march_start y + doy"
proof (induction n)
  case 0
  have "0 < march_len 0 \<and> int 0 = march_start 0 + 0" by (simp add: march_start_def march_len_def)
  then show ?case by blast
next
  case (Suc n)
  then obtain y doy where y: "0 \<le> y" "0 \<le> doy" "doy < march_len y" "int n = march_start y + doy" by blast
  show ?case
  proof (cases "doy + 1 < march_len y")
    case True
    with y show ?thesis by (intro exI [of _ y] exI [of _ "doy + 1"]) simp
  next
    case False
    moreover have "0 < march_len (y + 1)" by (simp add: march_len_def)
    ultimately show ?thesis using y march_start_Suc [of y] by (intro exI [of _ "y + 1"] exI [of _ 0]) simp
  qed
qed

section \<open>The formulas of the source\<close>

definition civil :: "int \<Rightarrow> int \<times> int" where
  "civil z = (let era = z div 146097; doe = z - era * 146097;
     yoe = (doe - doe div 1460 + doe div 36524 - doe div 146096) div 365
     in (yoe + era * 400, doe - (365 * yoe + yoe div 4 - yoe div 100)))"

lemma civil_march:
  assumes "0 \<le> doy" "doy < march_len y"
  shows "civil (march_start y + doy) = (y, doy)"
proof -
  obtain e c q r where y: "y = 400 * e + 100 * c + 4 * q + r" "0 \<le> c" "c \<le> 3" "0 \<le> q" "q \<le> 24" "0 \<le> r" "r \<le> 3"
    by (rule year_split)
  note s = march_start_split [OF y]
  define doe where "doe = 36524 * c + 1461 * q + 365 * r + doy"
  have doy: "doy \<le> 364 \<or> doy = 365 \<and> r = 3 \<and> (q < 24 \<or> c = 3)"
    using assms by (auto simp: march_len_def s(5) split: if_splits)
  have b: "0 \<le> doe" "doe < 146097" using doy y assms(1) unfolding doe_def by linarith+
  have z: "march_start y + doy = 146097 * e + doe" by (simp add: s(4) doe_def)
  have era: "(march_start y + doy) div 146097 = e" by (rule int_div_pos_eq [OF z b])
  have cent: "doe div 36524 - doe div 146096 = c"
  proof (cases "1461 * q + 365 * r + doy < 36524")
    case True
    have "doe div 36524 = c"
      by (rule int_div_pos_eq [of _ _ _ "1461 * q + 365 * r + doy"]) (use True y assms(1) in \<open>simp_all add: doe_def\<close>)
    moreover have "doe div 146096 = 0" by (rule div_pos_pos_trivial) (use True y(3) b(1) in \<open>simp_all add: doe_def\<close>)
    ultimately show ?thesis by simp
  next
    case False
    then have "q = 24" "r = 3" "doy = 365" "c = 3" using doy y by linarith+
    then show ?thesis by (simp add: doe_def)
  qed
  have "doe = (24 * c + q + 365 * r + doy) + (25 * c + q) * 1460" by (simp add: doe_def)
  then have cyc: "doe div 1460 = 25 * c + q + (24 * c + q + 365 * r + doy) div 1460" by simp
  have e01: "(24 * c + q + 365 * r + doy) div 1460 = (if 1460 \<le> 24 * c + q + 365 * r + doy then 1 else 0)"
    by (rule int_div_pos_eq [of _ _ _ "24 * c + q + 365 * r + doy - (if 1460 \<le> 24 * c + q + 365 * r + doy then 1460 else 0)"])
      (use doy y assms(1) in auto)
  define yoe where "yoe = (doe - doe div 1460 + doe div 36524 - doe div 146096) div 365"
  have "doe - doe div 1460 + doe div 36524 - doe div 146096 = doe - doe div 1460 + c" using cent by simp
  also have "\<dots> = 365 * (100 * c + 4 * q + r) + (doy - (24 * c + q + 365 * r + doy) div 1460)"
    unfolding cyc by (simp add: doe_def)
  finally have yoe: "yoe = 100 * c + 4 * q + r"
    unfolding yoe_def by (rule int_div_pos_eq) (use doy y assms(1) e01 in \<open>auto split: if_splits\<close>)
  have "yoe div 4 = 25 * c + q" "yoe div 100 = c"
    unfolding yoe by (rule int_div_pos_eq [of _ _ _ r] int_div_pos_eq [of _ _ _ "4 * q + r"]; use y in simp)+
  then have doy': "doe - (365 * yoe + yoe div 4 - yoe div 100) = doy" by (simp add: yoe doe_def)
  have doe: "march_start y + doy - e * 146097 = doe" using z by simp
  have "civil (march_start y + doy) = (yoe + e * 400, doe - (365 * yoe + yoe div 4 - yoe div 100))"
    unfolding civil_def Let_def era doe yoe_def by (rule refl)
  then show ?thesis using yoe y(1) doy' by simp
qed

lemma civil_next_day:
  assumes "march_start 0 \<le> z"
  shows "case_prod march_date (civil (z + 1)) = next_day (case_prod march_date (civil z))"
proof -
  obtain y doy where y: "0 \<le> doy" "doy < march_len y" "z = march_start y + doy"
    using march_year_exists [of "nat z"] assms by (auto simp: march_start_def)
  show ?thesis
  proof (cases "doy + 1 < march_len y")
    case True
    with y civil_march [of doy y] civil_march [of "doy + 1" y] show ?thesis by (simp add: march_date_next add.assoc)
  next
    case False
    then have "z + 1 = march_start (y + 1) + 0" using y by (simp add: march_start_Suc)
    moreover have "0 < march_len (y + 1)" by (simp add: march_len_def)
    ultimately show ?thesis
      using False y civil_march [of doy y] civil_march [of 0 "y + 1"] by (simp add: march_date_next)
  qed
qed

lemma civil_iterate:
  "case_prod march_date (civil (int n + 719468)) = (next_day ^^ n) (1970, 1, 1)"
proof (induction n)
  case 0
  then show ?case by (simp add: civil_def Let_def march_date_def month_day_def)
next
  case (Suc n)
  have "int (Suc n) + 719468 = int n + 719468 + 1" by simp
  then show ?case using Suc civil_next_day [of "int n + 719468"] by (simp add: march_start_def)
qed

text \<open>The year is at most the day number, so it fits 31 bits for all but absurd times.\<close>

lemma civil_year_bounds:
  assumes "0 \<le> z" "z < 2 ^ 39"
  shows "0 \<le> fst (civil z)" "fst (civil z) < 2 ^ 31 - 1"
proof -
  obtain y doy where y: "0 \<le> y" "0 \<le> doy" "doy < march_len y" "z = march_start y + doy"
    using march_year_exists [of "nat z"] assms by auto
  have "365 * y \<le> march_start y"
    using y(1) zdiv_mono2 [of y 4 100] by (simp add: march_start_def pos_imp_zdiv_nonneg_iff)
  then have "365 * y < 2 ^ 39" using y assms by linarith
  then show "0 \<le> fst (civil z)" "fst (civil z) < 2 ^ 31 - 1" using y civil_march [of doy y] by auto
qed

lemma seconds_to_rtcdate_civil:
  assumes "secs < 0x80000000000000"
  shows "date_of (seconds_to_rtcdate secs) = case_prod march_date (civil (uint (secs div 86400) + 719468))"
proof -
  let ?z = "uint (secs div 86400) + 719468"
  have "uint secs < 2 ^ 55" using assms by (simp add: word_less_def)
  then have "uint (secs div 86400) < 2 ^ 39 - 719468" by (simp add: uint_div)
  then have "0 \<le> fst (civil ?z)" "fst (civil ?z) < 2 ^ 31 - 1" by (intro civil_year_bounds; simp)+
  then have "sint (word_of_int (fst (civil ?z)) :: u32) = fst (civil ?z)"
    by (simp add: signed_of_int signed_take_bit_int_eq_self)
  moreover have "date_of (seconds_to_rtcdate secs) =
      march_date (sint (word_of_int (fst (civil ?z)) :: u32)) (snd (civil ?z))"
    by (simp only: date_of_def seconds_to_rtcdate_def civil_def Let_def march_date_def month_day_def
      rtcdate.select_convs fst_conv snd_conv prod.case)
  ultimately show ?thesis by (simp only: case_prod_beta)
qed

section \<open>Dates\<close>

definition clock_ok :: "rtcdate \<Rightarrow> nat \<Rightarrow> bool" where
  "clock_ok r n \<longleftrightarrow> 0 \<le> second r \<and> second r < 60 \<and> 0 \<le> minute r \<and> minute r < 60 \<and> 0 \<le> hour r \<and> hour r < 24 \<and>
     hour r * 3600 + minute r * 60 + second r = int n"

lemma seconds_clock: "clock_ok (seconds_to_rtcdate secs) (unat secs mod 86400)"
proof -
  define x where "x = int (unat secs mod 86400)"
  have "x = uint secs mod 86400" unfolding x_def by (simp add: of_nat_mod)
  then have x: "uint (secs mod 86400) = x" "0 \<le> x" "x < 86400" by (simp_all add: uint_mod)
  have f: "second (seconds_to_rtcdate secs) = x mod 3600 mod 60" "minute (seconds_to_rtcdate secs) = x mod 3600 div 60"
    "hour (seconds_to_rtcdate secs) = x div 3600" by (simp_all only: seconds_to_rtcdate_def Let_def x(1) rtcdate.select_convs)
  obtain h r where h: "x = 3600 * h + r" "0 \<le> r" "r < 3600" by (rule div_rest [of 3600 x]) simp
  obtain m v where m: "r = 60 * m + v" "0 \<le> v" "v < 60" by (rule div_rest [of 60 r]) simp
  have q: "x div 3600 = h" "r div 60 = m" by (rule int_div_pos_eq [OF h]) (rule int_div_pos_eq [OF m])
  have "x mod 3600 = r" "r mod 60 = v" by (rule int_mod_pos_eq [OF h]) (rule int_mod_pos_eq [OF m])
  then have "second (seconds_to_rtcdate secs) = v" "minute (seconds_to_rtcdate secs) = m" "hour (seconds_to_rtcdate secs) = h"
    using f q by (simp_all only:)
  moreover have "0 \<le> h" "h < 24" "0 \<le> m" "m < 60" using h m x by linarith+
  moreover have "h * 3600 + m * 60 + v = x" using h(1) m(1) by linarith
  ultimately show ?thesis using m(2,3) unfolding clock_ok_def x_def [symmetric] by (simp only:)
qed

text \<open>C25. The conversion of seconds to a date gives the Gregorian date of the day: day
  after day from the first of January 1970, with the lengths of months and leap years of
  the calendar. The clock fields are in range and spell the second of the day.\<close>

theorem datetime_calendar:
  assumes "secs < 0x80000000000000"
  shows "date_of (seconds_to_rtcdate secs) = (next_day ^^ (unat secs div 86400)) (1970, 1, 1) \<and>
     valid_date (date_of (seconds_to_rtcdate secs)) \<and>
     clock_ok (seconds_to_rtcdate secs) (unat secs mod 86400)"
proof -
  have "uint (secs div 86400) = int (unat secs div 86400)" by (simp add: uint_div of_nat_div)
  then have d: "date_of (seconds_to_rtcdate secs) = (next_day ^^ (unat secs div 86400)) (1970, 1, 1)"
    using seconds_to_rtcdate_civil [OF assms] civil_iterate [of "unat secs div 86400"] by simp
  have "valid_date ((next_day ^^ n) (1970, 1, 1))" for n
    by (induction n) (simp_all add: next_day_valid, simp add: valid_date_def month_days_def)
  then show ?thesis using d seconds_clock by simp
qed

theorem datetime_calendar_witness:
  "date_of (seconds_to_rtcdate (59 * 86400 + 5)) = (1970, 3, 1) \<and> clock_ok (seconds_to_rtcdate (59 * 86400 + 5)) 5"
proof -
  have "(next_day ^^ 59) (1970, 1, 1) = (1970, 3, 1)"
    by (simp add: numeral_eq_Suc next_day_def month_days_def leap_year_def)
  then show ?thesis using datetime_calendar [of "59 * 86400 + 5"] by simp
qed

end
