(* ===== verification/Virtio_Desc.thy ===== *)
theory Virtio_Desc
  imports Virtio Pipe_Fifo
begin

text \<open>
  The descriptors of the virtio disk: allocation of the three descriptors of a request,
  the chain a request makes of them, and its release.
\<close>

definition vq_ok :: "vdisk \<Rightarrow> bool" where
  "vq_ok v \<longleftrightarrow> length (v_desc v) = NUM \<and> length (v_free v) = NUM \<and> length (v_avail v) = NUM \<and>
     length (v_ops v) = NUM \<and> length (v_info_b v) = NUM \<and> length (v_info_status v) = NUM"

definition zero_desc :: virtq_desc where
  "zero_desc = \<lparr>d_addr = A_null, d_len = 0, d_flags = 0, d_next = 0\<rparr>"

text \<open>A chain: every descriptor but the last has the next flag and the index of its successor.\<close>

fun desc_chain :: "vdisk \<Rightarrow> nat list \<Rightarrow> bool" where
  "desc_chain v [] \<longleftrightarrow> False"
| "desc_chain v [i] \<longleftrightarrow> d_flags (v_desc v ! i) AND VRING_DESC_F_NEXT = 0"
| "desc_chain v (i # j # is) \<longleftrightarrow> d_flags (v_desc v ! i) AND VRING_DESC_F_NEXT \<noteq> 0 \<and>
     unat (d_next (v_desc v ! i)) = j \<and> desc_chain v (j # is)"

definition desc_freed :: "nat \<Rightarrow> vdisk \<Rightarrow> vdisk" where
  "desc_freed i v = v\<lparr>v_desc := (v_desc v)[i := zero_desc], v_free := (v_free v)[i := True]\<rparr>"

lemma desc_freed_sels [simp]:
  "v_desc (desc_freed i v) = (v_desc v)[i := zero_desc]" "v_free (desc_freed i v) = (v_free v)[i := True]"
  by (simp_all add: desc_freed_def)

lemma vq_ok_freed [simp]: "vq_ok (desc_freed i v) \<longleftrightarrow> vq_ok v"
  by (simp add: vq_ok_def desc_freed_def)

lemma vq_ok_fold_freed: "vq_ok (fold desc_freed is v) \<longleftrightarrow> vq_ok v"
  by (induction "is" arbitrary: v) simp_all

lemma fold_freed_free:
  "vq_ok v \<Longrightarrow> j < NUM \<Longrightarrow> v_free (fold desc_freed is v) ! j \<longleftrightarrow> j \<in> set is \<or> v_free v ! j"
proof (induction "is" arbitrary: v)
  case (Cons i "is")
  have "length (v_free v) = NUM" using Cons.prems(1) by (simp add: vq_ok_def)
  then show ?case using Cons.IH [of "desc_freed i v"] Cons.prems by (auto simp: nth_upd)
qed simp

lemma desc_chain_freed: "i \<notin> set is \<Longrightarrow> desc_chain (desc_freed i v) is \<longleftrightarrow> desc_chain v is"
  by (induction v "is" rule: desc_chain.induct) (auto simp: nth_upd)

lemma free_desc_frees:
  assumes "table_ok s" "i < NUM" "\<not> v_free (vq s) ! i"
  obtains ps where "free_desc i s = Ok (s\<lparr>vq := desc_freed i (vq s), procs := ps\<rparr>)" "woken (curproc s) (procs s) ps"
proof -
  let ?s = "s\<lparr>vq := desc_freed i (vq s)\<rparr>"
  have "table_ok ?s" using assms(1) by (simp add: table_ok_def unlocked_def)
  then obtain ps where "wakeup Ch_disk_free ?s = Ok (?s\<lparr>procs := ps\<rparr>)" "woken (curproc ?s) (procs ?s) ps" by (rule wakeup_woken)
  then show ?thesis
    using assms(2,3) by (intro that [of ps]) (simp_all add: free_desc_def upd_desc_def upd_vq_def desc_freed_def zero_desc_def Let_def)
qed

lemma table_ok_frame: "table_ok s \<Longrightarrow> woken (curproc s) (procs s) ps \<Longrightarrow> table_ok (s\<lparr>vq := v, procs := ps\<rparr>)"
  using woken_length by (fastforce simp: table_ok_def unlocked_def)

lemma free_chain_loop:
  assumes "table_ok s" "vq_ok (vq s)" "desc_chain (vq s) is" "distinct is" "\<forall>i\<in>set is. i < NUM \<and> \<not> v_free (vq s) ! i"
    and "length is \<le> k"
  shows "\<exists>ps. free_chain k (hd is) s = Ok (s\<lparr>vq := fold desc_freed is (vq s), procs := ps\<rparr>) \<and> woken (curproc s) (procs s) ps"
  using assms
proof (induction "is" arbitrary: s k)
  case (Cons i "is")
  obtain k' where k: "k = Suc k'" using Cons.prems(6) by (cases k) auto
  obtain ps where ps: "free_desc i s = Ok (s\<lparr>vq := desc_freed i (vq s), procs := ps\<rparr>)" "woken (curproc s) (procs s) ps"
    using Cons.prems(1,5) by (elim free_desc_frees [of s i]) auto
  let ?t = "s\<lparr>vq := desc_freed i (vq s), procs := ps\<rparr>"
  show ?case
  proof (cases "is")
    case Nil
    then show ?thesis using Cons.prems(3) ps k by (auto simp: Let_def)
  next
    case (Cons j js)
    have "\<exists>qs. free_chain k' (hd is) ?t = Ok (?t\<lparr>vq := fold desc_freed is (vq ?t), procs := qs\<rparr>) \<and> woken (curproc ?t) (procs ?t) qs"
    proof (rule Cons.IH)
      show "table_ok ?t" by (rule table_ok_frame [OF Cons.prems(1) ps(2)])
      show "desc_chain (vq ?t) is" using Cons.prems(3,4) Cons desc_chain_freed [of i "is" "vq s"] by simp
      show "\<forall>i\<in>set is. i < NUM \<and> \<not> v_free (vq ?t) ! i" using Cons.prems(4,5) by (auto simp: nth_upd)
    qed (use Cons.prems k in auto)
    then show ?thesis
      using Cons.prems(3) Cons ps k by (auto simp: Let_def dest: woken_trans)
  qed
qed simp

section \<open>Allocation\<close>

definition free_list :: "vdisk \<Rightarrow> nat list" where
  "free_list v = filter (\<lambda>i. v_free v ! i) [0..<NUM]"

definition taken :: "nat list \<Rightarrow> vdisk \<Rightarrow> vdisk" where
  "taken is v = v\<lparr>v_free := fold (\<lambda>i f. f[i := False]) is (v_free v)\<rparr>"

lemma find_idx_filter: "find_idx P xs = (case filter (\<lambda>i. P (xs ! i)) [0..<length xs] of [] \<Rightarrow> None | i # is \<Rightarrow> Some i)"
proof (induction xs)
  case (Cons x xs)
  have "[0..<length (x # xs)] = 0 # map Suc [0..<length xs]" by (simp add: upt_conv_Cons map_Suc_upt del: upt_Suc)
  then show ?case using Cons by (auto simp: filter_map o_def split: list.splits)
qed simp

lemma alloc_desc_eq:
  assumes "vq_ok (vq s)"
  shows "alloc_desc s = (case free_list (vq s) of [] \<Rightarrow> (None, s) | i # is \<Rightarrow> (Some i, s\<lparr>vq := taken [i] (vq s)\<rparr>))"
  using assms by (simp add: alloc_desc_def find_idx_filter vq_ok_def free_list_def upd_vq_def taken_def split: list.split)

lemma free_list_taken:
  assumes "free_list v = i # is" "vq_ok v"
  shows "free_list (taken [i] v) = is" "i < NUM" "v_free v ! i" "i \<notin> set is"
proof -
  have "distinct (free_list v)" by (simp add: free_list_def)
  then have i: "i \<in> set (free_list v)" "distinct (i # is)" unfolding assms(1) by simp_all
  then show "i < NUM" "v_free v ! i" "i \<notin> set is" by (simp_all add: free_list_def)
  have "free_list (taken [i] v) = filter (\<lambda>j. j \<noteq> i) (free_list v)"
    by (auto simp: free_list_def taken_def nth_upd intro!: filter_cong) (use assms(2) in \<open>simp add: vq_ok_def\<close>)
  then show "free_list (taken [i] v) = is" using assms(1) i(2) by (auto simp: filter_id_conv)
qed

lemma vq_ok_taken [simp]: "vq_ok (taken [i] v) \<longleftrightarrow> vq_ok v"
  by (simp add: vq_ok_def taken_def)

lemma alloc_descs_Some:
  "vq_ok (vq s) \<Longrightarrow> n \<le> length (free_list (vq s)) \<Longrightarrow>
   alloc_descs n idx s = Ok (Some (idx @ take n (free_list (vq s))), s\<lparr>vq := taken (take n (free_list (vq s))) (vq s)\<rparr>)"
proof (induction n arbitrary: idx s)
  case 0
  then show ?case by (simp add: taken_def)
next
  case (Suc n)
  obtain i "is" where f: "free_list (vq s) = i # is" using Suc.prems(2) by (cases "free_list (vq s)") auto
  let ?t = "s\<lparr>vq := taken [i] (vq s)\<rparr>"
  have "alloc_descs n (idx @ [i]) ?t = Ok (Some ((idx @ [i]) @ take n (free_list (vq ?t))), ?t\<lparr>vq := taken (take n (free_list (vq ?t))) (vq ?t)\<rparr>)"
    using Suc.prems free_list_taken(1) [OF f Suc.prems(1)] f by (intro Suc.IH) simp_all
  then show ?case using free_list_taken(1) [OF f Suc.prems(1)] f alloc_desc_eq [OF Suc.prems(1)] by (simp add: taken_def)
qed

lemma free_descs_frees:
  assumes "table_ok s" "vq_ok (vq s)" "distinct is" "\<forall>i\<in>set is. i < NUM \<and> \<not> v_free (vq s) ! i"
  shows "\<exists>ps. free_descs is s = Ok (s\<lparr>vq := fold desc_freed is (vq s), procs := ps\<rparr>) \<and> woken (curproc s) (procs s) ps"
  using assms
proof (induction "is" arbitrary: s)
  case Nil
  then show ?case by (auto intro!: exI [of _ "procs s"])
next
  case (Cons i "is")
  obtain ps where ps: "free_desc i s = Ok (s\<lparr>vq := desc_freed i (vq s), procs := ps\<rparr>)" "woken (curproc s) (procs s) ps"
    using Cons.prems by (elim free_desc_frees [of s i]) auto
  let ?t = "s\<lparr>vq := desc_freed i (vq s), procs := ps\<rparr>"
  have "\<exists>qs. free_descs is ?t = Ok (?t\<lparr>vq := fold desc_freed is (vq ?t), procs := qs\<rparr>) \<and> woken (curproc ?t) (procs ?t) qs"
    using Cons.prems table_ok_frame [OF Cons.prems(1) ps(2)] by (intro Cons.IH) (auto simp: nth_upd)
  then show ?case using ps by (auto dest: woken_trans)
qed

lemma alloc_descs_None:
  assumes "vq_ok (vq s)" "table_ok s" "length (free_list (vq s)) < n" "distinct idx" "\<forall>i\<in>set idx. i < NUM \<and> \<not> v_free (vq s) ! i"
  shows "\<exists>v ps. alloc_descs n idx s = Ok (None, s\<lparr>vq := v, procs := ps\<rparr>) \<and> vq_ok v \<and> woken (curproc s) (procs s) ps \<and>
    (\<forall>j<NUM. v_free v ! j \<longleftrightarrow> j \<in> set idx \<or> v_free (vq s) ! j)"
  using assms
proof (induction n arbitrary: idx s)
  case (Suc n)
  show ?case
  proof (cases "free_list (vq s)")
    case Nil
    obtain ps where "free_descs idx s = Ok (s\<lparr>vq := fold desc_freed idx (vq s), procs := ps\<rparr>)" "woken (curproc s) (procs s) ps"
      using free_descs_frees [OF Suc.prems(2,1,4,5)] by auto
    then show ?thesis
      using Nil alloc_desc_eq [OF Suc.prems(1)] fold_freed_free [OF Suc.prems(1)] vq_ok_fold_freed Suc.prems(1)
      by (auto intro!: exI [of _ "fold desc_freed idx (vq s)"] exI [of _ ps])
  next
    case (Cons i "is")
    let ?t = "s\<lparr>vq := taken [i] (vq s)\<rparr>"
    note f = free_list_taken [OF Cons Suc.prems(1)]
    have len: "length (v_free (vq s)) = NUM" using Suc.prems(1) by (simp add: vq_ok_def)
    have "\<exists>v ps. alloc_descs n (idx @ [i]) ?t = Ok (None, ?t\<lparr>vq := v, procs := ps\<rparr>) \<and> vq_ok v \<and> woken (curproc ?t) (procs ?t) ps \<and>
      (\<forall>j<NUM. v_free v ! j \<longleftrightarrow> j \<in> set (idx @ [i]) \<or> v_free (vq ?t) ! j)"
      using Suc.prems Cons f len by (intro Suc.IH) (auto simp: table_ok_def unlocked_def taken_def nth_upd vq_ok_def)
    then obtain v ps where v: "alloc_descs n (idx @ [i]) ?t = Ok (None, s\<lparr>vq := v, procs := ps\<rparr>)" "vq_ok v" "woken (curproc s) (procs s) ps"
        "\<forall>j<NUM. v_free v ! j \<longleftrightarrow> j \<in> set (idx @ [i]) \<or> v_free (vq ?t) ! j" by auto
    have "\<forall>j<NUM. v_free v ! j \<longleftrightarrow> j \<in> set idx \<or> v_free (vq s) ! j" using v(4) f(3) by (auto simp: taken_def nth_upd)
    moreover have "alloc_descs (Suc n) idx s = Ok (None, s\<lparr>vq := v, procs := ps\<rparr>)" using Cons alloc_desc_eq [OF Suc.prems(1)] v(1) by simp
    ultimately show ?thesis using v(2,3) by blast
  qed
qed simp

section \<open>Requests\<close>

text \<open>The request for buffer \<open>b\<close> that the device finds at the head descriptor \<open>i0\<close>.\<close>

definition request_at :: "nat \<Rightarrow> bool \<Rightarrow> nat \<Rightarrow> nat \<Rightarrow> nat \<Rightarrow> 'a vst_scheme \<Rightarrow> bool" where
  "request_at b wr i0 i1 i2 t \<longleftrightarrow> (let v = vq t in
     desc_chain v [i0, i1, i2] \<and>
     d_addr (v_desc v ! i0) = A_op i0 \<and> d_len (v_desc v ! i0) = 16 \<and> d_flags (v_desc v ! i0) AND VRING_DESC_F_WRITE = 0 \<and>
     v_ops v ! i0 = \<lparr>rq_type = (if wr then VIRTIO_BLK_T_OUT else VIRTIO_BLK_T_IN), rq_reserved = 0,
       rq_sector = ucast (blockno (bf t b) * 2)\<rparr> \<and>
     d_addr (v_desc v ! i1) = A_data b \<and> d_len (v_desc v ! i1) = of_nat BSIZE \<and>
     (d_flags (v_desc v ! i1) AND VRING_DESC_F_WRITE \<noteq> 0 \<longleftrightarrow> \<not> wr) \<and>
     d_addr (v_desc v ! i2) = A_status i0 \<and> d_len (v_desc v ! i2) = 1 \<and> d_flags (v_desc v ! i2) AND VRING_DESC_F_WRITE \<noteq> 0 \<and>
     v_info_status v ! i0 = 0xff \<and> v_info_b v ! i0 = Some b \<and> bdisk (bf t b))"

lemma rw_format_request:
  assumes "vq_ok (vq s)" "b < length (bufs s)" "distinct [i0, i1, i2]" "i0 < NUM" "i1 < NUM" "i2 < NUM"
  shows "request_at b wr i0 i1 i2 (rw_format b wr i0 i1 i2 s)"
    and "v_free (vq (rw_format b wr i0 i1 i2 s)) = v_free (vq s)"
    and "v_avail (vq (rw_format b wr i0 i1 i2 s)) = (v_avail (vq s))[unat (v_avail_idx (vq s)) mod NUM := of_nat i0]"
    and "v_avail_idx (vq (rw_format b wr i0 i1 i2 s)) = v_avail_idx (vq s) + 1"
    and "vq_ok (vq (rw_format b wr i0 i1 i2 s))"
proof -
  have u: "unat (of_nat i :: u16) = i" if "i < NUM" for i using that by (simp add: NUM_def unsigned_of_nat take_bit_eq_mod)
  have len: "length (v_desc (vq s)) = NUM" "length (v_ops (vq s)) = NUM" "length (v_info_b (vq s)) = NUM"
    "length (v_info_status (vq s)) = NUM" using assms(1) by (simp_all add: vq_ok_def)
  have fl: "(2 OR 1 :: u16) AND 1 \<noteq> 0" "(2 OR 1 :: u16) AND 2 \<noteq> 0" "(1::u16) AND 2 = 0" "(2::u16) AND 1 = 0" by simp_all
  show "request_at b wr i0 i1 i2 (rw_format b wr i0 i1 i2 s)"
    using assms(2-) len u fl
    by (auto simp: request_at_def rw_format_def upd_desc_def upd_vq_def w_reg_def upd_buf_def bf_def Let_def nth_list_update
        VRING_DESC_F_NEXT_def VRING_DESC_F_WRITE_def)
  show "v_free (vq (rw_format b wr i0 i1 i2 s)) = v_free (vq s)" "v_avail_idx (vq (rw_format b wr i0 i1 i2 s)) = v_avail_idx (vq s) + 1"
    "v_avail (vq (rw_format b wr i0 i1 i2 s)) = (v_avail (vq s))[unat (v_avail_idx (vq s)) mod NUM := of_nat i0]"
    by (simp_all add: rw_format_def upd_desc_def upd_vq_def w_reg_def upd_buf_def Let_def)
  show "vq_ok (vq (rw_format b wr i0 i1 i2 s))"
    using assms(1) by (simp add: vq_ok_def rw_format_def upd_desc_def upd_vq_def w_reg_def upd_buf_def Let_def)
qed

text \<open>C31. \<^verbatim>\<open>virtio_disk_rw\<close> takes three free descriptors, or sleeps when there are fewer and leaves
  the free ones as they were. The request it leaves for the device is a chain of the three:
  the command with the sector of the block, the data of the buffer, writable for the device
  exactly on a read, and the status byte; its head is the new entry of the available ring.\<close>

theorem rw_start_requests:
  assumes "vq_ok (vq s)" "b < length (bufs s)" "held s = [L_vdisk]" "length (procs s) = NPROC" "curproc s = Some p" "p < NPROC"
    "pstate (pr s p) = RUNNING"
  shows "returns (rw_start b wr s) (\<lambda>(r, t). case r of
     Sleeping c \<Rightarrow> c = Ch_disk_free \<and> length (free_list (vq s)) < 3 \<and> free_list (vq t) = free_list (vq s)
   | Done i0 \<Rightarrow> \<exists>i1 i2 rest. free_list (vq s) = i0 # i1 # i2 # rest \<and> free_list (vq t) = rest \<and> request_at b wr i0 i1 i2 t \<and>
       v_avail (vq t) = (v_avail (vq s))[unat (v_avail_idx (vq s)) mod NUM := of_nat i0] \<and> v_avail_idx (vq t) = v_avail_idx (vq s) + 1)"
proof (cases "length (free_list (vq s)) < 3")
  case True
  have t: "table_ok s" using assms(3,4) by (simp add: table_ok_def unlocked_def)
  obtain v ps where v: "alloc_descs 3 [] s = Ok (None, s\<lparr>vq := v, procs := ps\<rparr>)" "woken (curproc s) (procs s) ps"
      "\<forall>j<NUM. v_free v ! j \<longleftrightarrow> v_free (vq s) ! j"
    using alloc_descs_None [OF assms(1) t True, of "[]"] by auto
  have "ps ! p = procs s ! p" "length ps = NPROC" using v(2) assms(4-6) by (auto simp: woken_def)
  then have "\<exists>u. sleep_enter Ch_disk_free L_vdisk (s\<lparr>vq := v, procs := ps\<rparr>) = Ok u \<and> vq u = v"
    using assms(3,5-7) by (simp add: sleep_enter_def with_proc_def myproc_def sched_check_def pr_def upd_proc_def Let_def)
  moreover have "free_list v = free_list (vq s)" using v(3) by (auto simp: free_list_def intro!: filter_cong)
  ultimately show ?thesis using True v(1) by (auto simp: rw_start_def alloc3_desc_def)
next
  case False
  obtain i0 i1 i2 rest where f: "free_list (vq s) = i0 # i1 # i2 # rest"
  proof -
    obtain i0 r0 where 0: "free_list (vq s) = i0 # r0" using False by (cases "free_list (vq s)") auto
    obtain i1 r1 where 1: "r0 = i1 # r1" using False 0 by (cases r0) auto
    obtain i2 r2 where "r1 = i2 # r2" using False 0 1 by (cases r1) auto
    with 0 1 that show ?thesis by simp
  qed
  let ?v0 = "taken [i0] (vq s)" let ?v1 = "taken [i1] ?v0" let ?v2 = "taken [i0, i1, i2] (vq s)"
  note f0 = free_list_taken [OF f assms(1)]
  have ok: "vq_ok ?v0" "vq_ok ?v1" using assms(1) by simp_all
  note f1 = free_list_taken [OF f0(1) ok(1)]
  note f2 = free_list_taken [OF f1(1) ok(2)]
  have v2: "?v2 = taken [i2] ?v1" by (simp add: taken_def)
  let ?s = "s\<lparr>vq := ?v2\<rparr>"
  have ok2: "vq_ok (vq ?s)" using ok(2) by (simp add: v2)
  have "alloc_descs 3 [] s = Ok (Some [i0, i1, i2], ?s)" using alloc_descs_Some [OF assms(1), of 3 "[]"] f by simp
  then have run: "rw_start b wr s = Ok (Done i0, rw_format b wr i0 i1 i2 ?s)" by (simp add: rw_start_def alloc3_desc_def)
  have d: "distinct [i0, i1, i2]" using f0(4) f1(4) by auto
  note r = rw_format_request [OF ok2 _ d f0(2) f1(2) f2(2), of b wr]
  have "free_list (vq (rw_format b wr i0 i1 i2 ?s)) = rest" using r(2) assms(2) f2(1) by (simp add: free_list_def v2)
  moreover have "v_avail ?v2 = v_avail (vq s)" "v_avail_idx ?v2 = v_avail_idx (vq s)" by (simp_all add: taken_def)
  ultimately show ?thesis using run f r assms(2) by simp
qed

text \<open>C32. \<^verbatim>\<open>free_chain\<close> terminates on every chain of used descriptors and frees exactly its members,
  so that after the three of a request all descriptors are free again that were before.\<close>

theorem free_chain_frees:
  assumes "table_ok s" "vq_ok (vq s)" "desc_chain (vq s) is" "distinct is" "\<forall>i\<in>set is. i < NUM \<and> \<not> v_free (vq s) ! i"
  shows "returns (free_chain NUM (hd is) s) (\<lambda>t. vq_ok (vq t) \<and> table_ok t \<and>
     (\<forall>j<NUM. v_free (vq t) ! j \<longleftrightarrow> j \<in> set is \<or> v_free (vq s) ! j) \<and> (\<forall>i\<in>set is. v_desc (vq t) ! i = zero_desc))"
proof -
  have "set is \<subseteq> {..<NUM}" using assms(5) by auto
  then have "length is \<le> NUM" using distinct_card [OF assms(4)] card_mono [of "{..<NUM}" "set is"] by simp
  then obtain ps where ps: "free_chain NUM (hd is) s = Ok (s\<lparr>vq := fold desc_freed is (vq s), procs := ps\<rparr>)"
      "woken (curproc s) (procs s) ps" using free_chain_loop [OF assms] by auto
  have "v_desc (fold desc_freed is v) ! i = zero_desc" if "i \<in> set is \<or> v_desc v ! i = zero_desc" "i < NUM" "vq_ok v" for i v
    using that
  proof (induction "is" arbitrary: v)
    case (Cons k "is")
    have "length (v_desc v) = NUM" using Cons.prems(3) by (simp add: vq_ok_def)
    then show ?case using Cons by (auto simp: nth_upd)
  qed simp
  then show ?thesis
    using ps assms fold_freed_free [OF assms(2)] vq_ok_fold_freed table_ok_frame [OF assms(1) ps(2)] by auto
qed

section \<open>Examples\<close>

definition demo_desc :: "nat \<Rightarrow> virtq_desc" where
  "demo_desc i = zero_desc\<lparr>d_flags := (if i < 2 then VRING_DESC_F_NEXT else 0), d_next := of_nat (Suc i)\<rparr>"

definition demo_vq :: "bool \<Rightarrow> vdisk" where
  "demo_vq busy = \<lparr>v_desc = map demo_desc [0..<8], v_avail_idx = 0, v_avail = replicate 8 0, v_used_ring_idx = 0,
     v_used = replicate 8 0, v_free = [\<not> busy, \<not> busy, \<not> busy, True, True, True, True, True], v_used_idx = 0,
     v_info_b = replicate 8 None, v_info_status = replicate 8 0, v_ops = replicate 8 \<lparr>rq_type = 0, rq_reserved = 0, rq_sector = 0\<rparr>,
     v_pages = [], v_regs = (\<lambda>_. 0), v_out = []\<rparr>"

definition demo_vst :: "bool \<Rightarrow> vst" where
  "demo_vst busy = (demo_pp demo_mem empty_pipe (flst_ext [] (vst_ext (demo_vq busy) ())))\<lparr>held := [L_vdisk]\<rparr>"

lemma demo_vst_sels:
  "vq (demo_vst busy) = demo_vq busy" "held (demo_vst busy) = [L_vdisk]" "procs (demo_vst busy) = user_procs"
  "curproc (demo_vst busy) = Some 0" "length (bufs (demo_vst busy)) = Suc NBUF"
  by (simp_all add: demo_vst_def demo_pp_def)

lemma demo_vq_ok: "vq_ok (demo_vq busy)"
  by (simp add: vq_ok_def demo_vq_def NUM_def)

theorem rw_start_requests_witness:
  "returns (rw_start 1 False (demo_vst False)) (\<lambda>(r, t). r = Done 0 \<and> request_at 1 False 0 1 2 t \<and> free_list (vq t) = [3, 4, 5, 6, 7])"
proof -
  have f: "free_list (demo_vq False) = [0, 1, 2, 3, 4, 5, 6, 7]" by (simp add: free_list_def demo_vq_def NUM_def upt_rec)
  have p: "length user_procs = NPROC" "pstate (user_procs ! 0) = RUNNING" by (simp_all add: user_procs_def run_procs_def NPROC_def)
  have pre: "vq_ok (vq (demo_vst False))" "1 < length (bufs (demo_vst False))" "held (demo_vst False) = [L_vdisk]"
    "length (procs (demo_vst False)) = NPROC" "curproc (demo_vst False) = Some 0" "0 < NPROC" "pstate (pr (demo_vst False) 0) = RUNNING"
    by (simp_all add: demo_vst_sels demo_vq_ok p pr_def NBUF_def) (simp add: NPROC_def)
  show ?thesis
  proof (rule returns_mono [OF rw_start_requests [OF pre, of False]], clarify, goal_cases)
    case (1 r t)
    then show ?case by (cases r) (auto simp: demo_vst_sels f)
  qed
qed

theorem free_chain_frees_witness:
  "returns (free_chain NUM 0 (demo_vst True)) (\<lambda>t. free_list (vq t) = [0, 1, 2, 3, 4, 5, 6, 7])"
proof -
  have "table_ok (demo_vst True)" by (simp add: table_ok_def unlocked_def demo_vst_sels user_procs_def run_procs_def NPROC_def)
  moreover have "desc_chain (demo_vq True) [0, 1, 2]"
    by (simp add: demo_vq_def demo_desc_def zero_desc_def VRING_DESC_F_NEXT_def upt_rec)
  moreover have "\<forall>i\<in>set [0, 1, 2]. i < NUM \<and> \<not> v_free (demo_vq True) ! i" by (simp add: demo_vq_def NUM_def)
  ultimately have "returns (free_chain NUM (hd [0, 1, 2]) (demo_vst True)) (\<lambda>t. vq_ok (vq t) \<and> table_ok t \<and>
     (\<forall>j<NUM. v_free (vq t) ! j \<longleftrightarrow> j \<in> set [0, 1, 2] \<or> v_free (vq (demo_vst True)) ! j) \<and>
     (\<forall>i\<in>set [0, 1, 2]. v_desc (vq t) ! i = zero_desc))"
    by (intro free_chain_frees) (simp_all add: demo_vst_sels demo_vq_ok)
  then show ?thesis
    unfolding list.sel by (rule returns_mono) (auto simp: free_list_def demo_vst_sels demo_vq_def NUM_def upt_rec)
qed

end
