(* ===== verification/Time_Slices.thy ===== *)
theory Time_Slices
  imports Trap Virtio_Desc
begin

text \<open>
  Time slices: the scheduler switches to a process, the process runs until the timer
  interrupt, and gives the CPU back. \<open>slice\<close> composes \<^verbatim>\<open>scheduler\<close> (\<^verbatim>\<open>proc.c\<close>), the return from its
  switch in \<^verbatim>\<open>yield\<close>, \<^verbatim>\<open>clockintr\<close> (\<^verbatim>\<open>trap.c\<close>) and \<^verbatim>\<open>yield\<close> for a process that only computes. No
  policy reads or changes anything a slice changes, so none of them shares the CPU.
\<close>

definition slice :: "'a trst_scheme \<Rightarrow> (nat option \<times> 'a trst_scheme) res" where
  "slice s =
     rbind (scheduler_enter s) (\<lambda>(r, s).
     case r of None \<Rightarrow> Ok (None, s)
     | Some p \<Rightarrow>
       rbind (yield_leave s) (\<lambda>s.
       rbind (clockintr s) (\<lambda>s.
       rbind (yield_enter s) (\<lambda>s.
       rbind (scheduler_leave p s) (\<lambda>s. Ok (Some p, s))))))"

fun slices :: "nat \<Rightarrow> 'a trst_scheme \<Rightarrow> (nat option list \<times> 'a trst_scheme) res" where
  "slices 0 s = Ok ([], s)"
| "slices (Suc n) s = rbind (slice s) (\<lambda>(r, s). rbind (slices n s) (\<lambda>(rs, s). Ok (r # rs, s)))"

text \<open>A CPU in its scheduler, the first one, with no process running and none waiting for the clock.\<close>

definition in_scheduler :: "'a trst_scheme \<Rightarrow> bool" where
  "in_scheduler s \<longleftrightarrow> held s = [] \<and> curproc s = None \<and> length (procs s) = NPROC \<and> cpuid s = 0 \<and>
     (\<forall>i<NPROC. pstate (pr s i) \<noteq> RUNNING \<and> \<not> (pstate (pr s i) = SLEEPING \<and> pchan (pr s i) = Some Ch_ticks))"

text \<open>The state after a slice of \<open>q\<close>.\<close>

definition sliced :: "nat \<Rightarrow> 'a trst_scheme \<Rightarrow> 'a trst_scheme" where
  "sliced q s = upd_csr (\<lambda>c. w_stimecmp (r_time c + 1000000) c)
     (s\<lparr>procs := (procs s)[q := (pr s q)\<lparr>run_time := run_time (pr s q) + 1\<rparr>], ticks := ticks s + 1\<rparr>)"

lemma update_time_one:
  assumes "table_ok s" "q < NPROC" "pstate (pr s q) = RUNNING" "\<And>i. i < NPROC \<Longrightarrow> i \<noteq> q \<Longrightarrow> pstate (pr s i) \<noteq> RUNNING"
  shows "update_time s = Ok (s\<lparr>procs := (procs s)[q := (pr s q)\<lparr>run_time := run_time (pr s q) + 1\<rparr>]\<rparr>)"
proof -
  have "map (\<lambda>i. tick_step (curproc s) i (pr s i)) [0..<NPROC] = (procs s)[q := (pr s q)\<lparr>run_time := run_time (pr s q) + 1\<rparr>]"
    using assms by (intro nth_equalityI) (auto simp: table_ok_def tick_step_def nth_upd pr_def)
  then show ?thesis unfolding update_time_def using tick_sweep.sweep [OF assms(1)] by simp
qed

lemma wakeup_nobody:
  assumes "table_ok s" "\<And>i. i < NPROC \<Longrightarrow> \<not> (pstate (pr s i) = SLEEPING \<and> pchan (pr s i) = Some c)"
  shows "wakeup c s = Ok s"
proof -
  have "map (\<lambda>i. wake_step c (curproc s) i (pr s i)) [0..<NPROC] = procs s"
    using assms by (intro nth_equalityI) (auto simp: table_ok_def wake_step_def pr_def)
  then show ?thesis unfolding wakeup_def using wakeup_sweep.sweep [OF assms(1)] by simp
qed


lemma slice_runs:
  fixes s :: "'a trst_scheme"
  assumes "in_scheduler s" "prio_ok s" "mode_ok s" "picks (policy (sched_mode s)) s (Some q)"
  shows "slice s = Ok (Some q, sliced q s)"
proof -
  have s: "held s = []" "curproc s = None" "length (procs s) = NPROC" "cpuid s = 0" using assms(1) by (auto simp: in_scheduler_def)
  have q: "q < NPROC" "pstate (procs s ! q) = RUNNABLE" using assms(4) by (auto simp: picks_def runnable_def pr_def)
  have st: "pstate (procs s ! i) \<noteq> RUNNING" "\<not> (pstate (procs s ! i) = SLEEPING \<and> pchan (procs s ! i) = Some Ch_ticks)"
    if "i < NPROC" for i using assms(1) that by (auto simp: in_scheduler_def pr_def)
  let ?run = "s\<lparr>held := [], procs := (procs s)[q := (pr s q)\<lparr>pstate := RUNNING\<rparr>], curproc := Some q\<rparr>"
  let ?tick = "?run\<lparr>held := [L_ticks], ticks := ticks s + 1\<rparr>"
  let ?timed = "?tick\<lparr>procs := (procs s)[q := (pr s q)\<lparr>pstate := RUNNING, run_time := run_time (pr s q) + 1\<rparr>]\<rparr>"
  have "scheduler_enter s = Ok (Some q, ?run\<lparr>held := [L_proc q]\<rparr>)"
    using scheduler_enter_picks [OF _ assms(2-4)] s by (simp add: table_ok_def unlocked_def)
  moreover have "yield_leave (?run\<lparr>held := [L_proc q]\<rparr>) = Ok ?run"
    by (simp add: yield_leave_def with_proc_def myproc_def)
  moreover have "update_time ?tick = Ok ?timed"
    using s q st by (subst update_time_one [of _ q]) (auto simp: table_ok_def unlocked_def pr_def nth_upd)
  moreover have "wakeup Ch_ticks ?timed = Ok ?timed"
    using s st by (intro wakeup_nobody) (auto simp: table_ok_def unlocked_def pr_def nth_upd)
  moreover have again: "(procs s ! q)\<lparr>run_time := n, pstate := RUNNABLE\<rparr> = (procs s ! q)\<lparr>run_time := n\<rparr>" for n
    using q(2) by (cases "procs s ! q") simp
  ultimately have "slice s = Ok (Some q, sliced q (s\<lparr>held := [], curproc := None\<rparr>))"
    using s q by (simp add: slice_def clockintr_def cpuid_def yield_enter_def with_proc_def myproc_def upd_csr_def
        upd_proc_def sched_check_def pr_def scheduler_leave_def sliced_def nth_upd again)
  moreover have "s\<lparr>held := [], curproc := None\<rparr> = s" using s(1,2) by simp
  ultimately show ?thesis by simp
qed

lemma sliced_keeps:
  fixes s :: "'a trst_scheme"
  assumes "in_scheduler s" "prio_ok s" "mode_ok s" "picks (policy (sched_mode s)) s (Some q)"
  shows "in_scheduler (sliced q s)" "prio_ok (sliced q s)" "mode_ok (sliced q s)"
    "picks (policy (sched_mode (sliced q s))) (sliced q s) (Some q)"
proof -
  have l: "length (procs s) = NPROC" using assms(1) by (simp add: in_scheduler_def)
  have p: "pr (sliced q s) i = (if i = q \<and> q < NPROC then (pr s q)\<lparr>run_time := run_time (pr s q) + 1\<rparr> else pr s i)" for i
    using l by (simp add: sliced_def upd_csr_def pr_def nth_upd)
  have r: "runnable (sliced q s) i = runnable s i" for i by (simp add: runnable_def p)
  have m: "sched_mode (sliced q s) = sched_mode s" by (simp add: sliced_def upd_csr_def)
  have "policy md x (y\<lparr>run_time := n\<rparr>) = policy md x y" "policy md (x\<lparr>run_time := n\<rparr>) y = policy md x y" for md x y n
    by (simp_all add: policy_def older_def higher_def)
  with assms(4) show "picks (policy (sched_mode (sliced q s))) (sliced q s) (Some q)" by (simp add: picks_def r m p)
  show "prio_ok (sliced q s)" "mode_ok (sliced q s)" using assms(2,3) by (simp_all add: prio_ok_def mode_ok_def r m p)
  show "in_scheduler (sliced q s)"
    using assms(1) by (auto simp: in_scheduler_def p) (simp_all add: sliced_def upd_csr_def cpuid_def r_tp_def w_stimecmp_def)
qed

text \<open>C14. No scheduling mode shares the CPU among processes that compute: the process that
  the policy picks keeps every time slice. However many slices pass, each one runs that
  process and adds a tick to its run time, and every other process, runnable or not, is
  exactly as it was. This holds of the mode named round robin as of the two others.\<close>

theorem slices_never_rotate:
  fixes s :: "'a trst_scheme"
  assumes "in_scheduler s" "prio_ok s" "mode_ok s" "picks (policy (sched_mode s)) s (Some q)"
  shows "returns (slices n s) (\<lambda>(rs, t). rs = replicate n (Some q) \<and> ticks t = ticks s + of_nat n \<and>
    procs t = (procs s)[q := (pr s q)\<lparr>run_time := run_time (pr s q) + of_nat n\<rparr>])"
  using assms
proof (induction n arbitrary: s)
  case 0
  then show ?case by (simp add: pr_def)
next
  case (Suc n)
  have "q < length (procs s)" using Suc.prems by (auto simp: in_scheduler_def picks_def runnable_def)
  then have "procs (sliced q s) = (procs s)[q := (pr s q)\<lparr>run_time := run_time (pr s q) + 1\<rparr>]"
    "pr (sliced q s) q = (pr s q)\<lparr>run_time := run_time (pr s q) + 1\<rparr>" "ticks (sliced q s) = ticks s + 1"
    by (simp_all add: sliced_def upd_csr_def pr_def)
  with Suc.IH [OF sliced_keeps [OF Suc.prems]] show ?case
    by (simp add: slice_runs [OF Suc.prems] split_def algebra_simps)
qed


text \<open>The machine of the witnesses: registers at zero, the processes and the mode given.\<close>

definition zero_csrs :: csrs where
  "zero_csrs = \<lparr>c_mhartid = 0, c_mstatus = 0, c_sstatus = 0, c_sie = 0, c_mie = 0, c_sepc = 0, c_stvec = 0, c_menvcfg = 0,
     c_satp = 0, c_scause = 0, c_stval = 0, c_mcounteren = 0, c_time = 0, c_tp = 0, c_mepc = 0, c_medeleg = 0,
     c_mideleg = 0, c_stimecmp = 0, c_pmpcfg0 = 0, c_pmpaddr0 = 0\<rparr>"

definition demo_tr :: "proc list \<Rightarrow> nat option \<Rightarrow> trst" where
  "demo_tr ps c = (demo_pp (\<lambda>_. 0) empty_pipe (flst_ext [] (vst_ext (demo_vq False)
     (sysst_ext 0 1 1 0 None (trst_ext zero_csrs [] [] 0 0 0 0 ())))))\<lparr>procs := ps, curproc := c\<rparr>"

theorem slices_never_rotate_witness:
  "returns (slices 1000 (demo_tr demo_procs None)) (\<lambda>(rs, t). rs = replicate 1000 (Some 2) \<and> run_time (pr t 2) = 1000 \<and>
     pstate (pr t 5) = RUNNABLE \<and> run_time (pr t 5) = 0)"
proof -
  let ?s = "demo_tr demo_procs None"
  have r: "runnable ?s i \<longleftrightarrow> i = 2 \<or> i = 5" for i
    by (auto simp: runnable_def demo_tr_def demo_procs_def pr_def NPROC_def nth_list_update idle_proc_def)
  have "in_scheduler ?s"
    by (auto simp: in_scheduler_def demo_tr_def demo_pp_def demo_procs_def pr_def NPROC_def nth_list_update idle_proc_def
        cpuid_def r_tp_def zero_csrs_def)
  moreover have "prio_ok ?s" unfolding prio_ok_def r by (auto simp: demo_tr_def demo_procs_def pr_def)
  moreover have "mode_ok ?s" "policy (sched_mode ?s) = (\<lambda>_ _. False)"
    by (simp_all add: mode_ok_def policy_def demo_tr_def demo_pp_def sched_modes fun_eq_iff)
  moreover have "picks (\<lambda>_ _. False) ?s (Some 2)" by (auto simp: picks_def r)
  ultimately have "returns (slices 1000 ?s) (\<lambda>(rs, t). rs = replicate 1000 (Some 2) \<and> ticks t = ticks ?s + of_nat 1000 \<and>
    procs t = (procs ?s)[2 := (pr ?s 2)\<lparr>run_time := run_time (pr ?s 2) + of_nat 1000\<rparr>])"
    by (intro slices_never_rotate) simp_all
  then show ?thesis by (rule returns_mono) (auto simp: pr_def demo_tr_def demo_procs_def idle_proc_def)
qed

end
