(* ===== verification/Random_Numbers.thy ===== *)
theory Random_Numbers
  imports Time_Slices
begin

text \<open>
  The numbers that \<^verbatim>\<open>sys_random\<close> (\<^verbatim>\<open>kernel/sysutil.c\<close>) returns in successive calls. The generator is
  linear congruential with modulus \<open>2 ^ 31\<close>; its full period is shown by doubling: \<open>2 ^ m\<close> steps
  are an affine map whose factor is 1 modulo \<open>2 ^ (m + 2)\<close> and whose offset is an odd multiple of
  \<open>2 ^ m\<close>.
\<close>

text \<open>Calls at the given tick counts; other calls of the kernel do not touch the state.\<close>

fun random_calls :: "u32 list \<Rightarrow> 'a sysst_scheme \<Rightarrow> u64 list \<times> 'a sysst_scheme" where
  "random_calls [] s = ([], s)"
| "random_calls (now # ts) s =
     (let (x, s) = sys_random (s\<lparr>ticks := now\<rparr>); (xs, s) = random_calls ts s in (x # xs, s))"

section \<open>The period\<close>

definition lcg_step :: "int \<Rightarrow> int" where
  "lcg_step x = 1103515245 * x + 12345"

lemma lcg_doubled:
  "\<exists>k q. odd q \<and> (\<forall>x. (lcg_step ^^ (2 ^ m)) x = (1 + 2 ^ (m + 2) * k) * x + 2 ^ m * q)"
proof (induction m)
  case 0
  show ?case by (intro exI [of _ 275878811] exI [of _ 12345]) (simp add: lcg_step_def)
next
  case (Suc m)
  then obtain k q where q: "odd q" and step: "\<And>x. (lcg_step ^^ (2 ^ m)) x = (1 + 2 ^ (m + 2) * k) * x + 2 ^ m * q" by blast
  let ?k = "k + 2 ^ (m + 1) * k ^ 2" and ?q = "q * (1 + 2 ^ (m + 1) * k)"
  have "(lcg_step ^^ (2 ^ Suc m)) x = (1 + 2 ^ (Suc m + 2) * ?k) * x + 2 ^ Suc m * ?q" for x
  proof -
    have "(lcg_step ^^ (2 ^ Suc m)) x = (lcg_step ^^ (2 ^ m)) ((lcg_step ^^ (2 ^ m)) x)"
      by (simp add: mult_2 funpow_add)
    then show ?thesis unfolding step by (simp add: algebra_simps power2_eq_square)
  qed
  moreover have "odd ?q" using q by simp
  ultimately show ?case by blast
qed

lemma affine_iterate:
  fixes h :: "int \<Rightarrow> int"
  assumes "\<And>x. M dvd h x - (x + c)"
  shows "M dvd (h ^^ n) x - (x + int n * c)"
proof (induction n)
  case (Suc n)
  have "(h ^^ Suc n) x - (x + int (Suc n) * c) = (h ((h ^^ n) x) - ((h ^^ n) x + c)) + ((h ^^ n) x - (x + int n * c))"
    by (simp add: algebra_simps)
  then show ?case using Suc assms [of "(h ^^ n) x"] by (metis dvd_add)
qed simp

lemma odd_part: "0 < (d :: nat) \<Longrightarrow> \<exists>m r. d = 2 ^ m * r \<and> odd r"
proof (induction d rule: less_induct)
  case (less d)
  show ?case
  proof (cases "even d")
    case True
    then obtain e where e: "d = 2 * e" by blast
    then have "e < d" "0 < e" using less.prems by simp_all
    from less.IH [OF this] obtain m r where r: "e = 2 ^ m * r" "odd r" by blast
    then have "d = 2 ^ Suc m * r" using e by simp
    with r(2) show ?thesis by blast
  next
    case False
    then show ?thesis by (intro exI [of _ 0] exI [of _ d]) simp
  qed
qed

lemma lcg_period:
  assumes "0 < d" "d < 2 ^ 31"
  shows "\<not> 2 ^ 31 dvd (lcg_step ^^ d) x - x"
proof
  assume *: "2 ^ 31 dvd (lcg_step ^^ d) x - x"
  obtain m r where d: "d = 2 ^ m * r" "odd r"
    using odd_part [OF assms(1)] by blast
  obtain k q where q: "odd q" and step: "\<And>x. (lcg_step ^^ (2 ^ m)) x = (1 + 2 ^ (m + 2) * k) * x + 2 ^ m * q"
    using lcg_doubled by blast
  have "2 ^ m \<le> d" using d by (cases r) auto
  then have "(2 :: nat) ^ m < 2 ^ 31" using assms(2) by linarith
  then have "m < 31" by (rule power_less_imp_less_exp [rotated]) simp
  then have m: "m + 1 \<le> 31" by simp
  have "2 ^ (m + 1) dvd (lcg_step ^^ (2 ^ m)) y - (y + 2 ^ m * q)" for y
  proof -
    have "(lcg_step ^^ (2 ^ m)) y - (y + 2 ^ m * q) = 2 ^ (m + 1) * (2 * k * y)" unfolding step by (simp add: algebra_simps)
    then show ?thesis by simp
  qed
  then have "2 ^ (m + 1) dvd ((lcg_step ^^ (2 ^ m)) ^^ r) x - (x + int r * (2 ^ m * q))" by (rule affine_iterate)
  moreover have "(lcg_step ^^ (2 ^ m)) ^^ r = lcg_step ^^ d" by (simp add: d(1) funpow_mult)
  moreover have "2 ^ (m + 1) dvd (lcg_step ^^ d) x - x" using * m by (meson dvd_trans le_imp_power_dvd)
  ultimately have "2 ^ (m + 1) dvd ((lcg_step ^^ d) x - x) - ((lcg_step ^^ d) x - (x + int r * (2 ^ m * q)))"
    by (metis dvd_diff)
  then have "2 ^ m * 2 dvd 2 ^ m * (int r * q)" by (simp add: algebra_simps)
  then show False using q d(2) by simp
qed

section \<open>Calls\<close>

lemma uint_lcg_next: "uint (lcg_next x) = (1103515245 * uint x + 12345) mod 2147483648"
proof -
  have "lcg_next x = take_bit 31 (1103515245 * x + 12345)"
    by (simp add: lcg_next_def take_bit_eq_mask mask_eq_exp_minus_1)
  then have "uint (lcg_next x) = take_bit 31 (uint (1103515245 * x + 12345))" by (simp add: unsigned_take_bit_eq)
  also have "\<dots> = take_bit 31 (1103515245 * uint x + 12345)"
    by (simp add: uint_word_ariths take_bit_eq_mod mod_mod_cancel mod_simps)
  finally show ?thesis by (simp add: take_bit_eq_mod)
qed



lemma sys_random_call:
  fixes s :: "'a sysst_scheme"
  obtains x where "sys_random s = (x, s\<lparr>lcg_state := ucast x\<rparr>)" "uint x < 2147483648" "uint (ucast x :: u32) = uint x"
    "lcg_state s \<noteq> 1 \<Longrightarrow> uint x = lcg_step (uint (lcg_state s)) mod 2147483648"
proof -
  let ?y = "lcg_next (lcg_seed (ticks s) (lcg_state s))"
  have u: "uint (ucast ?y :: u64) = uint ?y"
    using uint_lt2p [of ?y] by (simp add: unsigned_ucast_eq take_bit_int_eq_self)
  have "(ucast (ucast ?y :: u64) :: u32) = ?y" by (simp add: unsigned_ucast_eq take_bit_word_eq_self)
  with u show ?thesis
    by (intro that [of "ucast ?y"]) (simp_all add: sys_random_def Let_def uint_lcg_next lcg_seed_def lcg_step_def)
qed

text \<open>After a result other than 1 the next result is its successor.\<close>

lemma random_calls_chain:
  fixes s :: "'a sysst_scheme"
  assumes "fst (random_calls ts s) = xs"
  shows "length xs = length ts \<and> (\<forall>x\<in>set xs. uint x < 2147483648) \<and>
    (\<forall>k. k < length xs \<longrightarrow> (0 < k \<longrightarrow> xs ! (k - 1) \<noteq> 1) \<longrightarrow> (k = 0 \<longrightarrow> lcg_state s \<noteq> 1) \<longrightarrow>
      uint (xs ! k) = lcg_step (if k = 0 then uint (lcg_state s) else uint (xs ! (k - 1))) mod 2147483648)"
  using assms
proof (induction ts arbitrary: s xs)
  case (Cons now ts)
  let ?s = "s\<lparr>ticks := now\<rparr>"
  obtain x where x: "sys_random ?s = (x, ?s\<lparr>lcg_state := ucast x\<rparr>)" "uint x < 2147483648" "uint (ucast x :: u32) = uint x"
    "lcg_state s \<noteq> 1 \<Longrightarrow> uint x = lcg_step (uint (lcg_state s)) mod 2147483648"
    by (rule sys_random_call [of ?s]) simp
  obtain ys u where ys: "random_calls ts (?s\<lparr>lcg_state := ucast x\<rparr>) = (ys, u)" by (cases "random_calls ts (?s\<lparr>lcg_state := ucast x\<rparr>)")
  have xs: "xs = x # ys" using Cons.prems x(1) ys by simp
  have "ucast x = (1 :: u32) \<longleftrightarrow> x = 1" using x(3) by (metis word_uint_eq_iff uint_1)
  note one = this and IH = Cons.IH [of "?s\<lparr>lcg_state := ucast x\<rparr>" ys]
  have "uint (xs ! k) = lcg_step (if k = 0 then uint (lcg_state s) else uint (xs ! (k - 1))) mod 2147483648"
    if k: "k < length xs" "0 < k \<longrightarrow> xs ! (k - 1) \<noteq> 1" "k = 0 \<longrightarrow> lcg_state s \<noteq> 1" for k
  proof (cases k)
    case 0
    with k x(4) show ?thesis by (simp add: xs)
  next
    case (Suc j)
    with k have "0 < j \<longrightarrow> ys ! (j - 1) \<noteq> 1" "j = 0 \<longrightarrow> ucast x \<noteq> (1 :: u32)" "j < length ys"
      by (auto simp: xs one nth_Cons')
    with IH ys have "uint (ys ! j) = lcg_step (if j = 0 then uint (ucast x :: u32) else uint (ys ! (j - 1))) mod 2147483648"
      by simp
    with Suc x(3) show ?thesis by (simp add: xs nth_Cons')
  qed
  with IH ys x(2) show ?case by (simp add: xs)
qed simp


lemma lcg_mod: "lcg_step (y mod M) mod M = lcg_step y mod M"
  unfolding lcg_step_def by (metis mod_add_left_eq mod_mult_right_eq)

lemma chain_iterate:
  assumes "\<And>k. i \<le> k \<Longrightarrow> k < i + n \<Longrightarrow> uint (xs ! Suc k) = lcg_step (uint (xs ! k)) mod M"
    and "uint (xs ! i) < M" "0 \<le> uint (xs ! i)"
  shows "uint (xs ! (i + n)) = (lcg_step ^^ n) (uint (xs ! i)) mod M"
  using assms(1)
proof (induction n)
  case 0
  then show ?case using assms(2) by simp
next
  case (Suc n)
  then have "uint (xs ! (i + Suc n)) = lcg_step ((lcg_step ^^ n) (uint (xs ! i)) mod M) mod M" by simp
  then show ?case by (simp add: lcg_mod)
qed

text \<open>C26. Successive results of \<^verbatim>\<open>sys_random\<close>, whatever the clock shows at each call: they are below
  \<open>2 ^ 31\<close>; as long as none of the earlier ones is 1, which makes the next call take a new seed
  from the clock, no number comes twice in \<open>2 ^ 31\<close> calls, and odd and even numbers alternate.\<close>

theorem random_no_repeat:
  fixes s :: "'a sysst_scheme"
  assumes run: "fst (random_calls ts s) = xs" and one: "1 \<notin> set (butlast xs)" and len: "length ts \<le> 2147483648"
  shows "distinct xs \<and> (\<forall>x\<in>set xs. x < 0x80000000) \<and>
    (\<forall>k. Suc k < length xs \<longrightarrow> (odd (uint (xs ! Suc k)) \<longleftrightarrow> even (uint (xs ! k))))"
proof -
  note c = random_calls_chain [OF run]
  have n1: "xs ! k \<noteq> 1" if "Suc k < length xs" for k
  proof -
    have "butlast xs ! k \<in> set (butlast xs)" using that by (intro nth_mem) simp
    then show ?thesis using one that by (auto simp: nth_butlast)
  qed
  have step: "uint (xs ! Suc k) = lcg_step (uint (xs ! k)) mod 2147483648" if "Suc k < length xs" for k
    using c [THEN conjunct2, THEN conjunct2, THEN spec, of "Suc k"] n1 [OF that] that by simp
  have "xs ! i \<noteq> xs ! j" if "i < j" "j < length xs" for i j
  proof
    assume e: "xs ! i = xs ! j"
    let ?d = "j - i"
    have "uint (xs ! (i + ?d)) = (lcg_step ^^ ?d) (uint (xs ! i)) mod 2147483648"
      using that c by (intro chain_iterate step) (auto simp: nth_mem)
    moreover have "uint (xs ! i) mod 2147483648 = uint (xs ! i)" using c that by (simp add: nth_mem)
    ultimately have "(lcg_step ^^ ?d) (uint (xs ! i)) mod 2147483648 = uint (xs ! i) mod 2147483648"
      using that e by simp
    then have "2 ^ 31 dvd (lcg_step ^^ ?d) (uint (xs ! i)) - uint (xs ! i)" by (simp add: mod_eq_dvd_iff)
    then show False using lcg_period [of ?d] that len c by simp
  qed
  then have "distinct xs" unfolding distinct_conv_nth by (metis linorder_neqE_nat)
  moreover have "odd (uint (xs ! Suc k)) \<longleftrightarrow> even (uint (xs ! k))" if "Suc k < length xs" for k
    unfolding step [OF that] by (simp add: lcg_step_def dvd_mod_iff)
  ultimately show ?thesis using c by (simp add: word_less_def)
qed

theorem random_no_repeat_witness:
  "fst (random_calls [7, 7, 8] (demo_tr demo_procs None)) = [238199713, 1760618950, 720506247] \<and>
   distinct [238199713, 1760618950, 720506247 :: u64]"
proof -
  have r: "fst (random_calls [7, 7, 8] (demo_tr demo_procs None)) = [238199713, 1760618950, 720506247]"
    by (simp add: sys_random_def lcg_next_def lcg_seed_def demo_tr_def demo_pp_def Let_def)
  from random_no_repeat [OF this] r show ?thesis by simp
qed

end
