(* ===== verification/Uart_Stream.thy ===== *)
theory Uart_Stream
  imports Uart Ring Pipe_Fifo
begin

text \<open>
  The output of the serial port as one stream: the bytes the device has sent followed by
  the bytes in the transmit buffer. \<^verbatim>\<open>uartputc\<close> appends to it and \<^verbatim>\<open>uartstart\<close> moves bytes from
  the buffer to the device without changing it.
\<close>

definition tx_ok :: "'a ust_scheme \<Rightarrow> bool" where
  "tx_ok s \<longleftrightarrow> ring_ok UART_TX_BUF_SIZE (uart_tx_buf s) (uart_tx_r s) (uart_tx_w s)"

definition tx_bytes :: "'a ust_scheme \<Rightarrow> bytes" where
  "tx_bytes s = ring_list UART_TX_BUF_SIZE (uart_tx_buf s) (uart_tx_r s) (uart_tx_w s)"

definition tx_stream :: "'a ust_scheme \<Rightarrow> bytes" where
  "tx_stream s = u_tx s @ tx_bytes s"

interpretation tx_fifo: fifo tx_ok tx_bytes UART_TX_BUF_SIZE tx_put tx_get tx_full tx_empty
proof unfold_locales
  fix s :: "'a ust_scheme" and c
  assume ok: "tx_ok s"
  show f: "tx_full s \<longleftrightarrow> length (tx_bytes s) = UART_TX_BUF_SIZE"
    using ring_full ok by (simp add: tx_full_def tx_bytes_def tx_ok_def)
  show b: "length (tx_bytes s) \<le> UART_TX_BUF_SIZE" using ok by (simp add: tx_ok_def tx_bytes_def ring_ok_def)
  show "tx_empty s \<longleftrightarrow> tx_bytes s = []" by (auto simp: tx_empty_def tx_bytes_def)
  show "\<not> tx_full s \<Longrightarrow> tx_ok (tx_put c s) \<and> tx_bytes (tx_put c s) = tx_bytes s @ [c]"
    using ring_put [of UART_TX_BUF_SIZE "uart_tx_buf s" "uart_tx_r s" "uart_tx_w s"] ok f b
    by (simp add: tx_put_def tx_ok_def tx_bytes_def)
  show "\<not> tx_empty s \<Longrightarrow> tx_ok (snd (tx_get s)) \<and> tx_bytes s = fst (tx_get s) # tx_bytes (snd (tx_get s))"
    using ring_get [of UART_TX_BUF_SIZE "uart_tx_buf s" "uart_tx_r s" "uart_tx_w s"] ok
    by (auto simp: tx_get_def tx_ok_def tx_bytes_def tx_empty_def)
qed

text \<open>The port is set up and the driver may run: the divisor latch is closed and the process
  table can be locked.\<close>

definition uart_ready :: "'a ust_scheme \<Rightarrow> bool" where
  "uart_ready s \<longleftrightarrow> tx_ok s \<and> \<not> bit (u_regs s 3) 7 \<and> table_ok s"

text \<open>Only the fields of the transmitter and the process table change.\<close>

definition uart_frame :: "'a ust_scheme \<Rightarrow> 'a ust_scheme \<Rightarrow> bool" where
  "uart_frame s t \<longleftrightarrow> (\<exists>buf w r x b ps. t = s\<lparr>uart_tx_buf := buf, uart_tx_w := w, uart_tx_r := r, u_tx := x, u_busy := b, procs := ps\<rparr>)"

lemma uart_frameI [simp]:
  "uart_frame s (s\<lparr>uart_tx_buf := buf, uart_tx_w := w, uart_tx_r := r, u_tx := x, u_busy := b, procs := ps\<rparr>)"
  unfolding uart_frame_def by blast

lemma uart_frameE:
  assumes "uart_frame s t"
  obtains buf w r x b ps where "t = s\<lparr>uart_tx_buf := buf, uart_tx_w := w, uart_tx_r := r, u_tx := x, u_busy := b, procs := ps\<rparr>"
  using assms unfolding uart_frame_def by blast

lemma uart_frame_by:
  assumes "t = s\<lparr>uart_tx_buf := uart_tx_buf t, uart_tx_w := uart_tx_w t, uart_tx_r := uart_tx_r t, u_tx := u_tx t, u_busy := u_busy t, procs := procs t\<rparr>"
  shows "uart_frame s t"
  by (subst assms) (rule uart_frameI)

lemma uart_frame_refl [simp]: "uart_frame s s"
  by (rule uart_frame_by) simp

lemma uart_frame_trans: "uart_frame s t \<Longrightarrow> uart_frame t u \<Longrightarrow> uart_frame s u"
  by (elim uart_frameE) simp

text \<open>What the driver leaves behind: the stream with \<open>bs\<close> appended, of which a prefix has
  been sent, at least one byte of it if the device was idle and there was one to send.\<close>

definition uart_sent :: "bytes \<Rightarrow> 'a ust_scheme \<Rightarrow> 'a ust_scheme \<Rightarrow> bool" where
  "uart_sent bs s t \<longleftrightarrow> uart_ready t \<and> tx_stream t = tx_stream s @ bs \<and>
     (\<exists>k. u_tx t = u_tx s @ take k (tx_bytes s @ bs) \<and> (u_busy s = 0 \<longrightarrow> 0 < k)) \<and>
     held t = held s \<and> curproc t = curproc s \<and> panicked t = panicked s \<and> woken (curproc s) (procs s) (procs t) \<and> uart_frame s t"

lemma tx_cong:
  assumes "uart_tx_buf t = uart_tx_buf s" "uart_tx_r t = uart_tx_r s" "uart_tx_w t = uart_tx_w s"
  shows "tx_ok t = tx_ok s" "tx_bytes t = tx_bytes s" "tx_empty t = tx_empty s"
  using assms by (simp_all add: tx_ok_def tx_bytes_def tx_empty_def)

lemma tx_get_sels:
  "u_tx (snd (tx_get s)) = u_tx s" "u_regs (snd (tx_get s)) = u_regs s" "held (snd (tx_get s)) = held s"
  "curproc (snd (tx_get s)) = curproc s" "procs (snd (tx_get s)) = procs s" "panicked (snd (tx_get s)) = panicked s"
  by (simp_all add: tx_get_def)

text \<open>One round: a byte leaves the buffer for the device.\<close>

lemma uart_round:
  assumes "uart_ready s" "\<not> tx_empty s"
  obtains t where "wakeup Ch_uart_tx_r (snd (tx_get s)) = Ok t" "uart_ready (WriteReg 0 (fst (tx_get s)) t)"
    "u_tx (WriteReg 0 (fst (tx_get s)) t) = u_tx s @ [fst (tx_get s)]"
    "tx_bytes s = fst (tx_get s) # tx_bytes (WriteReg 0 (fst (tx_get s)) t)"
    "held (WriteReg 0 (fst (tx_get s)) t) = held s" "curproc (WriteReg 0 (fst (tx_get s)) t) = curproc s"
    "panicked (WriteReg 0 (fst (tx_get s)) t) = panicked s"
    "woken (curproc s) (procs s) (procs (WriteReg 0 (fst (tx_get s)) t))" "uart_frame s (WriteReg 0 (fst (tx_get s)) t)"
proof -
  let ?g = "snd (tx_get s)"
  have ok: "tx_ok s" "\<not> bit (u_regs s 3) 7" "table_ok s" using assms(1) by (simp_all add: uart_ready_def)
  have g: "tx_ok ?g" "tx_bytes s = fst (tx_get s) # tx_bytes ?g" using tx_fifo.get_law [OF ok(1) assms(2)] by simp_all
  have "table_ok ?g" using ok(3) by (simp add: table_ok_def unlocked_def tx_get_sels)
  then obtain ps where ps: "wakeup Ch_uart_tx_r ?g = Ok (?g\<lparr>procs := ps\<rparr>)" "woken (curproc s) (procs s) ps"
    by (rule wakeup_woken [of ?g Ch_uart_tx_r]) (simp add: tx_get_sels)
  let ?t = "WriteReg 0 (fst (tx_get s)) (?g\<lparr>procs := ps\<rparr>)"
  have w: "?t = ?g\<lparr>procs := ps, u_tx := u_tx s @ [fst (tx_get s)], u_busy := u_delay s (length (u_tx s))\<rparr>"
    using ok(2) by (simp add: WriteReg_def tx_get_def)
  have c: "tx_ok ?t = tx_ok ?g" "tx_bytes ?t = tx_bytes ?g" unfolding w by (rule tx_cong; simp)+
  have "uart_ready ?t" unfolding uart_ready_def c(1) using g(1) ok woken_length [OF ps(2)]
    by (simp add: w tx_get_sels table_ok_def unlocked_def)
  moreover have "uart_frame s ?t" by (rule uart_frame_by, unfold w) (simp add: tx_get_def)
  ultimately show ?thesis using ps g c(2) by (intro that [OF ps(1)]) (simp_all add: w tx_get_sels)
qed

lemma uart_sent_step:
  assumes "uart_sent [] w u" "u_tx w = u_tx s @ [c]" "tx_bytes s = c # tx_bytes w" "held w = held s" "curproc w = curproc s"
    "panicked w = panicked s" "woken (curproc s) (procs s) (procs w)" "uart_frame s w"
  shows "uart_sent [] s u"
proof -
  obtain j where "u_tx u = u_tx w @ take j (tx_bytes w)" using assms(1) by (auto simp: uart_sent_def)
  then have "\<exists>k. u_tx u = u_tx s @ take k (tx_bytes s @ []) \<and> (u_busy s = 0 \<longrightarrow> 0 < k)"
    by (intro exI [of _ "Suc j"]) (simp add: assms(2,3))
  moreover have "woken (curproc s) (procs s) (procs u)"
    using assms(1,5,7) woken_trans by (auto simp: uart_sent_def)
  moreover have "uart_frame s u" using assms(1,8) uart_frame_trans by (auto simp: uart_sent_def)
  ultimately show ?thesis using assms(1-6) by (simp add: uart_sent_def tx_stream_def)
qed

lemma uartstart_loop_sends:
  "uart_ready s \<Longrightarrow> length (tx_bytes s) \<le> k \<Longrightarrow> returns (uartstart_loop k s) (uart_sent [] s)"
proof (induction k arbitrary: s)
  case (Suc k)
  show ?case
  proof (cases "tx_empty s")
    case True
    with Suc.prems show ?thesis
      by (subst uartstart_loop.simps) (auto simp: uart_sent_def tx_fifo.vacant_law uart_ready_def)
  next
    case ne: False
    let ?b = "s\<lparr>u_busy := u_busy s - 1\<rparr>"
    have b: "uart_ready ?b" "\<not> tx_empty ?b" "tx_bytes ?b = tx_bytes s" "u_tx ?b = u_tx s"
      using Suc.prems(1) ne tx_cong [of ?b s] by (simp_all add: uart_ready_def table_ok_def unlocked_def)
    show ?thesis
    proof (cases "u_busy s = 0")
      case False
      have "uart_frame s ?b" by (rule uart_frame_by) simp
      then have "uart_sent [] s ?b" using b False by (auto simp: uart_sent_def tx_stream_def intro: exI [of _ 0])
      then show ?thesis using ne False by (subst uartstart_loop.simps) (simp add: read_tx_idle_def)
    next
      case True
      from uart_round [OF b(1,2)] obtain t where t: "wakeup Ch_uart_tx_r (snd (tx_get ?b)) = Ok t"
          "uart_ready (WriteReg 0 (fst (tx_get ?b)) t)" "u_tx (WriteReg 0 (fst (tx_get ?b)) t) = u_tx ?b @ [fst (tx_get ?b)]"
          "tx_bytes ?b = fst (tx_get ?b) # tx_bytes (WriteReg 0 (fst (tx_get ?b)) t)"
          "held (WriteReg 0 (fst (tx_get ?b)) t) = held ?b" "curproc (WriteReg 0 (fst (tx_get ?b)) t) = curproc ?b"
          "panicked (WriteReg 0 (fst (tx_get ?b)) t) = panicked ?b"
          "woken (curproc ?b) (procs ?b) (procs (WriteReg 0 (fst (tx_get ?b)) t))"
          "uart_frame ?b (WriteReg 0 (fst (tx_get ?b)) t)" .
      have fr: "uart_frame s (WriteReg 0 (fst (tx_get ?b)) t)" by (rule uart_frame_trans [OF _ t(9)]) (rule uart_frame_by, simp)
      let ?w = "WriteReg 0 (fst (tx_get ?b)) t"
      have w: "tx_bytes s = fst (tx_get ?b) # tx_bytes ?w" using t(4) unfolding b(3) .
      then have "length (tx_bytes s) = Suc (length (tx_bytes ?w))" by (metis length_Cons)
      then have "returns (uartstart_loop k ?w) (uart_sent [] ?w)" using Suc.prems(2) t(2) by (intro Suc.IH) simp_all
      moreover have "uart_sent [] s u" if u: "uart_sent [] ?w u" for u
        by (rule uart_sent_step [OF u _ w]) (use t(3,5-8) fr in simp_all)
      moreover have "uartstart_loop (Suc k) s = uartstart_loop k ?w"
        using ne True t(1) by (subst uartstart_loop.simps) (simp add: read_tx_idle_def split_beta)
      ultimately show ?thesis by (auto elim: returns_mono)
    qed
  qed
qed (subst uartstart_loop.simps, auto simp: uart_sent_def tx_fifo.vacant_law uart_ready_def)

lemma uartstart_sends: "uart_ready s \<Longrightarrow> returns (uartstart s) (uart_sent [] s)"
  unfolding uartstart_def by (rule uartstart_loop_sends) (simp_all add: tx_bytes_def)

text \<open>C29. \<^verbatim>\<open>uartputc\<close> sleeps exactly when the transmit buffer is full, and otherwise appends its
  byte to the output stream: no byte is lost, repeated or overtaken, whatever the device
  does, and the loop of \<^verbatim>\<open>uartstart\<close> ends.\<close>

theorem uartputc_queues:
  assumes "uart_ready s" "calm s" "\<not> panicked s" "pstate (pr s (the (curproc s))) = RUNNING"
  shows "if tx_full s then uartputc c s = Block Ch_uart_tx_r else returns (uartputc c s) (uart_sent [c] s)"
proof (cases "tx_full s")
  case True
  then show ?thesis
    using assms by (auto simp: uartputc_def calm_def tx_full_def sleep_def sleep_enter_def with_proc_def myproc_def
        sched_check_def pr_upd_proc)
next
  case False
  let ?l = "s\<lparr>held := [L_uart_tx]\<rparr>"
  let ?p = "tx_put c ?l"
  have h: "held s = []" using assms(2) by (simp add: calm_def)
  have l: "tx_ok ?l" "\<not> tx_full ?l" "tx_bytes ?l = tx_bytes s"
    using assms(1) False by (simp_all add: uart_ready_def tx_ok_def tx_full_def tx_bytes_def)
  have p: "tx_ok ?p" "tx_bytes ?p = tx_bytes s @ [c]" using tx_fifo.put_law [OF l(1,2), of c] l(3) by simp_all
  have f: "u_tx ?p = u_tx s" "u_busy ?p = u_busy s" "held ?p = [L_uart_tx]" "curproc ?p = curproc s" "procs ?p = procs s"
    "panicked ?p = panicked s" "u_regs ?p = u_regs s" by (simp_all add: tx_put_def)
  have "uart_ready ?p" using assms(1) p(1) f by (simp add: uart_ready_def table_ok_def unlocked_def)
  then have "returns (uartstart ?p) (uart_sent [] ?p)" by (rule uartstart_sends)
  moreover have "uart_frame s (t\<lparr>held := []\<rparr>)" if "uart_frame ?p t" for t
    by (rule uart_frame_by, rule uart_frameE [OF that]) (simp add: tx_put_def h)
  then have "uart_sent [c] s (t\<lparr>held := []\<rparr>)" if "uart_sent [] ?p t" for t
    using that h tx_cong [of "t\<lparr>held := []\<rparr>" t] unfolding uart_sent_def f p(2) tx_stream_def uart_ready_def
    by (auto simp: table_ok_def unlocked_def)
  moreover have "uartputc c s = rbind (uartstart ?p) (release L_uart_tx)"
    using False assms(3) h l(2) by (simp add: uartputc_def)
  ultimately show ?thesis using False
    by (auto simp: uart_sent_def f elim!: returnsE)
qed

theorem uartputc_queues_witness:
  "returns (uartputc 65 (demo_pp demo_mem empty_pipe ())) (\<lambda>t. u_tx t = [65] \<and> tx_bytes t = [])"
proof -
  let ?s = "demo_pp demo_mem empty_pipe ()"
  have r: "uart_ready ?s" "\<not> tx_full ?s" "tx_bytes ?s = []" "u_tx ?s = []" "u_busy ?s = 0"
    by (simp_all add: uart_ready_def tx_ok_def tx_bytes_def tx_full_def demo_pp_def ring_ok_def UART_TX_BUF_SIZE_def
        table_ok_def unlocked_def user_procs_def run_procs_def NPROC_def)
  have c: "calm ?s" "\<not> panicked ?s" "pstate (pr ?s (the (curproc ?s))) = RUNNING"
    by (simp_all add: calm_def demo_pp_def user_procs_def run_procs_def NPROC_def pr_def)
  have "returns (uartputc 65 ?s) (uart_sent [65] ?s)" using uartputc_queues [OF r(1) c, of 65] r(2) by simp
  then show ?thesis by (rule returns_mono) (auto simp: uart_sent_def tx_stream_def r gr0_conv_Suc)
qed

end
