(* ===== verification/Printf_Digits.thy ===== *)
theory Printf_Digits
  imports Printf
begin

text \<open>
  The numbers \<^verbatim>\<open>printf\<close> prints. \<open>read_number\<close> reads a printed number back, as a reference;
  \<^verbatim>\<open>printint\<close> and \<^verbatim>\<open>printptr\<close> are shown to be inverse to it, and the numbers that do not fit
  the 16-byte buffer of \<^verbatim>\<open>printint\<close> are determined.
\<close>

definition digit_val :: "u8 \<Rightarrow> nat" where
  "digit_val c = (if c < 58 then unat c - 48 else unat c - 87)"

definition read_digits :: "nat \<Rightarrow> bytes \<Rightarrow> nat" where
  "read_digits base bs = fold (\<lambda>c n. n * base + digit_val c) bs 0"

definition read_number :: "nat \<Rightarrow> bytes \<Rightarrow> int" where
  "read_number base bs = (if ch bs = 45 then - int (read_digits base (tl bs)) else int (read_digits base bs))"

lemma digit_cases:
  assumes "d < (16::nat)"
  shows "d \<in> {0, 1, 2, 3, 4, 5, 6, 7, 8, 9, 10, 11, 12, 13, 14, 15}"
  using assms by (simp, presburger)

lemma digit_val_digit:
  assumes "d < 16"
  shows "digit_val (digit d) = d" "digit d \<noteq> 45" "digit d \<noteq> 0"
  using digit_cases [OF assms] by (auto simp: digit_def ascii_def digit_val_def)

lemma read_digits_snoc: "read_digits base (bs @ [c]) = read_digits base bs * base + digit_val c"
  by (simp add: read_digits_def)

lemma digits_rev_nonempty [simp]: "digits_rev base x \<noteq> []"
  by (subst digits_rev.simps) simp

lemma digits_rev_value:
  assumes "2 \<le> base" "base \<le> 16"
  shows "read_digits base (rev (digits_rev base x)) = x"
proof (induction x rule: less_induct)
  case (less x)
  have d: "digit_val (digit (x mod base)) = x mod base"
    using assms mod_less_divisor [of base x] by (intro digit_val_digit(1)) linarith
  show ?case
  proof (cases "x div base = 0")
    case True
    then show ?thesis using d assms by (subst digits_rev.simps) (simp add: read_digits_def div_eq_0_iff)
  next
    case False
    then have "x div base < x" using assms by (intro div_less_dividend) (auto intro: Nat.gr0I)
    then show ?thesis
      using less.IH [of "x div base"] d assms False by (subst digits_rev.simps) (simp add: read_digits_snoc)
  qed
qed

lemma digits_rev_digits:
  assumes "2 \<le> base" "base \<le> 16" "c \<in> set (digits_rev base x)"
  shows "c \<noteq> 45" "c \<noteq> 0"
proof -
  have "\<exists>d<base. c = digit d"
    using assms(3)
  proof (induction x rule: less_induct)
    case (less x)
    then consider "c = digit (x mod base)" | "x div base \<noteq> 0" "c \<in> set (digits_rev base (x div base))"
      by (subst (asm) (2) digits_rev.simps) (auto split: if_splits)
    then show ?case
    proof cases
      case 1
      then show ?thesis using assms(1) by (intro exI [of _ "x mod base"]) simp
    next
      case 2
      then have "x div base < x" using assms(1) by (intro div_less_dividend) (auto intro: Nat.gr0I)
      then show ?thesis using less.IH 2(2) by blast
    qed
  qed
  then obtain d where "d < base" "c = digit d" by blast
  then show "c \<noteq> 45" "c \<noteq> 0" using digit_val_digit [of d] assms(2) by simp_all
qed

lemma digits_rev_length:
  assumes "2 \<le> base"
  shows "length (digits_rev base x) \<le> Suc k \<longleftrightarrow> x < base ^ Suc k"
  using assms
proof (induction k arbitrary: x)
  case 0
  then show ?case by (subst digits_rev.simps) (auto simp: div_eq_0_iff)
next
  case (Suc k)
  have "x div base < base ^ Suc k \<longleftrightarrow> x < base ^ Suc (Suc k)"
    using Suc.prems by (simp add: less_mult_imp_div_less div_less_iff_less_mult mult.commute)
  moreover have "x div base = 0 \<Longrightarrow> x < base ^ Suc (Suc k)"
    using Suc.prems calculation by simp
  ultimately show ?case
    using Suc.IH [of "x div base"] Suc.prems by (subst digits_rev.simps) auto
qed

text \<open>The magnitude and the sign that \<^verbatim>\<open>printint\<close> prints for a 64-bit argument.\<close>

definition print_value :: "u64 \<Rightarrow> bool \<Rightarrow> int" where
  "print_value w sg = (if sg then sint w else uint w)"

lemma unat_of_small:
  assumes "0 \<le> k" "k < 2 ^ 64"
  shows "unat (word_of_int k :: u64) = nat k"
proof -
  have "uint (word_of_int k :: u64) = k" using assms by (simp add: unsigned_of_int take_bit_int_eq_self)
  then show ?thesis by (metis nat_uint_eq)
qed

lemma print_magnitude:
  fixes w :: u64
  shows "unat (word_of_int (if sg \<and> sint w < 0 then - sint w else sint w) :: u64) = nat \<bar>print_value w sg\<bar>"
proof -
  have r: "- (2 ^ 63) \<le> sint w" "sint w < 2 ^ 63" using sint_range_size [of w] by (simp_all add: size_word_def)
  show ?thesis
  proof (cases "sg \<and> sint w < 0")
    case True
    then show ?thesis using unat_of_small [of "- sint w"] r(1) by (simp add: print_value_def)
  next
    case False
    then show ?thesis using unat_of_small [of "sint w"] r(2) by (auto simp: print_value_def)
  qed
qed

lemma printint_eq:
  "printint (sint w) base sg =
     (let neg = print_value w sg < 0;
          t = (if neg then [45] else []) @ rev (digits_rev base (nat \<bar>print_value w sg\<bar>))
      in if length t > 16 then Panic ''undefined: printint buf'' else Ok t)"
proof -
  have "ascii ''-'' = [45]" by (simp add: ascii_def)
  moreover have "sg \<and> sint w < 0 \<longleftrightarrow> print_value w sg < 0" by (simp add: print_value_def)
  ultimately show ?thesis unfolding printint_def print_magnitude Let_def by simp
qed

text \<open>\<^verbatim>\<open>printptr\<close> takes the digits from the top.\<close>

lemma top_digit:
  fixes x :: u64
  shows "unat (drop_bit 60 x) = unat x div 2 ^ 60" "unat x div 2 ^ 60 < 16"
  using unsigned_less [of x, where ?'a = nat]
  by (simp_all add: drop_bit_eq_div unat_div div_less_iff_less_mult)

lemma printptr_loop_value:
  "k \<le> 16 \<Longrightarrow> fold (\<lambda>c n. n * 16 + digit_val c) (printptr_loop k x) n = n * 16 ^ k + unat x div 2 ^ (64 - 4 * k)"
proof (induction k arbitrary: x n)
  case 0
  then show ?case using unsigned_less [of x, where ?'a = nat] by simp
next
  case (Suc k)
  let ?X = "unat x" and ?j = "60 - 4 * k"
  have "(16::nat) ^ k = 2 ^ (4 * k)" by (simp add: power_mult)
  then have j: "64 - 4 * k = 4 + ?j" "64 - 4 * Suc k = ?j" "(2::nat) ^ 60 = 2 ^ ?j * 16 ^ k"
    using Suc.prems power_add [of "2::nat" ?j "4 * k"] by simp_all
  have "unat (push_bit 4 x) = 16 * (?X mod 2 ^ 60)"
    by (simp add: push_bit_eq_mult unat_word_ariths mult.commute mult_mod_right)
  then have p: "unat (push_bit 4 x) div 2 ^ (64 - 4 * k) = (?X mod 2 ^ 60) div 2 ^ ?j"
    by (simp add: j(1) power_add)
  have "x div b = x div (b * c) * c + x mod (b * c) div b" if "0 < b" for x b c :: nat
    using that by (simp add: div_mult2_eq mod_mult2_eq)
  from this [of "2 ^ ?j" ?X "16 ^ k"] have "?X div 2 ^ ?j = ?X div 2 ^ 60 * 16 ^ k + (?X mod 2 ^ 60) div 2 ^ ?j"
    unfolding j(3) by simp
  then show ?case
    using Suc.IH [of "push_bit 4 x"] Suc.prems digit_val_digit(1) [OF top_digit(2)] p
    by (simp add: top_digit(1) j(2) algebra_simps)
qed

lemma printptr_value: "read_number 16 (drop 2 (printptr w)) = uint w"
proof -
  have "printptr_loop 16 w = digit (unat (drop_bit 60 w)) # printptr_loop 15 (push_bit 4 w)"
    using printptr_loop.simps(2) [of 15 w] by simp
  then have "ch (printptr_loop 16 w) \<noteq> 45" using digit_val_digit(2) [OF top_digit(2) [of w]] by (simp add: ch_def top_digit(1))
  then show ?thesis
    using printptr_loop_value [of 16 w 0] by (simp add: printptr_def ascii_def read_number_def read_digits_def)
qed

text \<open>C27. A number printed by \<^verbatim>\<open>printint\<close>, in decimal or hexadecimal, reads back as the number, and
  so does the address printed by \<^verbatim>\<open>printptr\<close>.\<close>

theorem printint_roundtrip:
  assumes "base = 10 \<or> base = 16" "printint (sint w) base sg = Ok t"
  shows "read_number base t = print_value w sg \<and> read_number 16 (drop 2 (printptr w)) = uint w"
proof -
  let ?n = "nat \<bar>print_value w sg\<bar>"
  have t: "t = (if print_value w sg < 0 then [45] else []) @ rev (digits_rev base ?n)"
    using assms(2) by (simp add: printint_eq Let_def split: if_splits)
  have "ch (rev (digits_rev base ?n)) \<in> set (digits_rev base ?n)"
    using digits_rev_nonempty [of base ?n] by (cases "digits_rev base ?n" rule: rev_cases) (simp_all add: ch_def)
  then have "ch (rev (digits_rev base ?n)) \<noteq> 45" by (rule digits_rev_digits(1) [rotated 2]) (use assms(1) in auto)
  moreover have "read_digits base (rev (digits_rev base ?n)) = ?n" using assms(1) by (intro digits_rev_value) auto
  ultimately have "read_number base t = print_value w sg" by (auto simp: t read_number_def ch_def)
  then show ?thesis using printptr_value [of w] by simp
qed

lemma digits_fit: "2 \<le> base \<Longrightarrow> 0 < n \<Longrightarrow> length (digits_rev base x) \<le> n \<longleftrightarrow> x < base ^ n"
  using digits_rev_length [of base x "n - 1"] by simp

lemma printint_decimal:
  "(\<exists>t. printint (sint w) 10 sg = Ok t) \<longleftrightarrow> - (10 ^ 15) < print_value w sg \<and> print_value w sg < 10 ^ 16"
  "printint (sint w) 10 sg = Panic ''undefined: printint buf'' \<longleftrightarrow>
     \<not> (- (10 ^ 15) < print_value w sg \<and> print_value w sg < 10 ^ 16)"
proof -
  have d: "length (digits_rev 10 (nat \<bar>v\<bar>)) \<le> n \<longleftrightarrow> \<bar>v\<bar> < 10 ^ n" if "0 < n" for v :: int and n
    using digits_fit [of 10 n] that by (simp add: nat_less_iff)
  have "length ((if v < 0 then [45] else []) @ rev (digits_rev 10 (nat \<bar>v\<bar>)) :: bytes) \<le> 16 \<longleftrightarrow> - (10 ^ 15) < v \<and> v < 10 ^ 16" for v
    using d [of 15 v] d [of 16 v] by auto
  from this [of "print_value w sg"] show "(\<exists>t. printint (sint w) 10 sg = Ok t) \<longleftrightarrow> - (10 ^ 15) < print_value w sg \<and> print_value w sg < 10 ^ 16"
    "printint (sint w) 10 sg = Panic ''undefined: printint buf'' \<longleftrightarrow> \<not> (- (10 ^ 15) < print_value w sg \<and> print_value w sg < 10 ^ 16)"
    unfolding printint_eq Let_def by auto
qed

text \<open>C28. \<^verbatim>\<open>printint\<close> writes past its buffer exactly for decimal numbers of 17 characters or more;
  every hexadecimal number and every number of 15 digits fits.\<close>

theorem printint_fits:
  "(\<exists>t. printint (sint w) 16 False = Ok t \<and> length t \<le> 16) \<and>
   ((\<exists>t. printint (sint w) 10 sg = Ok t) \<longleftrightarrow> - (10 ^ 15) < print_value w sg \<and> print_value w sg < 10 ^ 16) \<and>
   (printint (sint w) 10 sg = Panic ''undefined: printint buf'' \<longleftrightarrow>
      print_value w sg \<le> - (10 ^ 15) \<or> 10 ^ 16 \<le> print_value w sg)"
proof -
  have "nat \<bar>print_value w False\<bar> < 16 ^ 16" using unsigned_less [of w, where ?'a = nat] by (simp add: print_value_def)
  then have "length (digits_rev 16 (nat \<bar>print_value w False\<bar>)) \<le> 16" by (simp add: digits_fit)
  then have "\<exists>t. printint (sint w) 16 False = Ok t \<and> length t \<le> 16" by (simp add: printint_eq Let_def print_value_def)
  then show ?thesis using printint_decimal [of w sg] by (simp add: not_less)
qed

theorem printint_roundtrip_witness:
  "printint (sint (- 305 :: u64)) 10 True = Ok (ascii ''-305'') \<and> read_number 10 (ascii ''-305'') = - 305"
proof -
  have "printint (sint (- 305 :: u64)) 10 True = Ok (ascii ''-305'')"
    using printint_eq [of "- 305" 10 True] by (simp add: print_value_def digits_rev.simps digit_def ascii_def)
  with printint_roundtrip [OF _ this] show ?thesis by (simp add: print_value_def)
qed

end
