(* ===== verification/Console_Edit.thy ===== *)
theory Console_Edit
  imports Console Uart_Stream Printf_Digits
begin

text \<open>
  Line editing at the console. The input ring is two byte strings: the committed input,
  which \<^verbatim>\<open>consoleread\<close> may take, and the line being edited. \<open>edit\<close> says what a key does to
  them; the interrupt handlers are shown to implement it, with its bounds on the indices.
\<close>

section \<open>The input ring\<close>

definition cons_ok :: "cons \<Rightarrow> bool" where
  "cons_ok k \<longleftrightarrow> ring_ok INPUT_BUF_SIZE (cbuf k) (cr k) (ce k) \<and> unat (cw k - cr k) \<le> unat (ce k - cr k)"

definition committed :: "cons \<Rightarrow> bytes" where
  "committed k = ring_list INPUT_BUF_SIZE (cbuf k) (cr k) (cw k)"

definition pending :: "cons \<Rightarrow> bytes" where
  "pending k = ring_list INPUT_BUF_SIZE (cbuf k) (cw k) (ce k)"

definition edit :: "u8 \<Rightarrow> bytes \<times> bytes \<Rightarrow> bytes \<times> bytes" where
  "edit c = (\<lambda>(cs, ls).
     if c = 16 then (cs, ls)
     else if c = 21 then (cs, rev (dropWhile (\<lambda>b. b \<noteq> newline) (rev ls)))
     else if c = 8 \<or> c = 127 then (cs, butlast ls)
     else if c \<noteq> 0 \<and> length cs + length ls < INPUT_BUF_SIZE
     then let b = (if c = 13 then newline else c)
          in if b = newline \<or> b = ctrl_D \<or> Suc (length cs + length ls) = INPUT_BUF_SIZE
             then (cs @ ls @ [b], []) else (cs, ls @ [b])
     else (cs, ls))"

lemma ring_split:
  fixes r w e :: "'w::len word"
  assumes "unat (w - r) \<le> unat (e - r)"
  shows "ring_list N buf r e = ring_list N buf r w @ ring_list N buf w e" "unat (e - r) = unat (w - r) + unat (e - w)"
proof -
  have d: "unat (e - w) = unat (e - r) - unat (w - r)" using unat_sub [of "w - r" "e - r"] assms by (simp add: word_le_nat_alt)
  then show n: "unat (e - r) = unat (w - r) + unat (e - w)" using assms by simp
  have w: "r + of_nat (k + unat (w - r)) = w + of_nat k" for k by simp
  have "[0..<a + b] = [0..<a] @ map (\<lambda>k. k + a) [0..<b]" for a b :: nat
    using upt_add_eq_append [of 0 a b] by (simp add: map_add_upt add.commute)
  then show "ring_list N buf r e = ring_list N buf r w @ ring_list N buf w e"
    unfolding ring_list_def n map_append map_map o_def w by (simp only: map_append map_map o_def w)
qed

lemma ring_last:
  fixes w e :: "'w::len word"
  assumes "e \<noteq> w"
  shows "ring_list N buf w e = ring_list N buf w (e - 1) @ [buf ! (unat (e - 1) mod N)]"
proof -
  have "e - w \<noteq> 0" using assms by simp
  moreover have "e - 1 - w = (e - w) - 1" by simp
  ultimately have "unat (e - 1 - w) = unat (e - w) - 1" "0 < unat (e - w)"
    by (simp_all only: unat_minus_one unat_gt_0 not_False_eq_True)
  then have n: "unat (e - w) = Suc (unat (e - 1 - w))" by simp
  have "w + of_nat (unat (e - 1 - w)) = e - 1" by simp
  then show ?thesis by (simp add: ring_list_def n)
qed

lemma committed_pending:
  assumes "cons_ok k"
  shows "ring_list INPUT_BUF_SIZE (cbuf k) (cr k) (ce k) = committed k @ pending k"
    "unat (ce k - cr k) = length (committed k) + length (pending k)"
    "length (committed k) + length (pending k) \<le> INPUT_BUF_SIZE"
  using assms ring_split(1) [of "cw k" "cr k" "ce k" INPUT_BUF_SIZE "cbuf k"] ring_split(2) [of "cw k" "cr k" "ce k"]
  by (auto simp: cons_ok_def committed_def pending_def ring_ok_def)

lemma pending_Nil: "pending k = [] \<longleftrightarrow> ce k = cw k"
  by (auto simp: pending_def)

text \<open>The three changes of the ring: a byte is added, one is taken back, the line is committed.\<close>

lemma cons_back:
  assumes "cons_ok k" "ce k \<noteq> cw k"
  shows "cons_ok (k\<lparr>ce := ce k - 1\<rparr>)" "committed (k\<lparr>ce := ce k - 1\<rparr>) = committed k"
    "pending k = pending (k\<lparr>ce := ce k - 1\<rparr>) @ [cons_at k (ce k - 1)]"
proof -
  show p: "pending k = pending (k\<lparr>ce := ce k - 1\<rparr>) @ [cons_at k (ce k - 1)]"
    using ring_last [OF assms(2), of INPUT_BUF_SIZE "cbuf k"] by (simp add: pending_def cons_at_def)
  have "unat (ce k - cr k) = length (committed k) + Suc (length (pending (k\<lparr>ce := ce k - 1\<rparr>)))"
    using committed_pending(2) [OF assms(1)] arg_cong [OF p, of length] by simp
  then have "unat (ce k - 1 - cr k) = length (committed k) + length (pending (k\<lparr>ce := ce k - 1\<rparr>))"
    using unat_minus_one [of "ce k - cr k"] by (cases "ce k = cr k") (simp_all add: diff_right_commute)
  then show "cons_ok (k\<lparr>ce := ce k - 1\<rparr>)"
    using assms(1) committed_pending(3) [OF assms(1)] arg_cong [OF p, of length]
    by (auto simp: cons_ok_def ring_ok_def committed_def)
  show "committed (k\<lparr>ce := ce k - 1\<rparr>) = committed k" by (simp add: committed_def)
qed

lemma cons_put_law:
  assumes "cons_ok k" "length (committed k) + length (pending k) < INPUT_BUF_SIZE"
  shows "cons_ok (cons_put b k)" "committed (cons_put b k) = committed k" "pending (cons_put b k) = pending k @ [b]"
    "cr (cons_put b k) = cr k"
proof -
  let ?k = "cons_put b k"
  have ok: "ring_ok INPUT_BUF_SIZE (cbuf k) (cr k) (ce k)" "unat (ce k - cr k) < INPUT_BUF_SIZE"
    using assms committed_pending(2) by (simp_all add: cons_ok_def)
  note p = ring_put [OF ok, of b]
  have s: "unat (ce k + 1 - cr k) = Suc (unat (ce k - cr k))"
    by (rule unat_step [OF ok(2)]) (simp add: INPUT_BUF_SIZE_def)
  have f: "cbuf ?k = (cbuf k)[unat (ce k) mod INPUT_BUF_SIZE := b]" "cr ?k = cr k" "cw ?k = cw k" "ce ?k = ce k + 1"
    by (simp_all add: cons_put_def)
  show c: "cons_ok ?k" using p(2) s assms(1) by (simp add: cons_ok_def f)
  have "committed ?k @ pending ?k = committed k @ pending k @ [b]"
    using committed_pending(1) [OF c] committed_pending(1) [OF assms(1)] p(1) by (simp add: f)
  moreover have "length (committed ?k) = length (committed k)" by (simp add: committed_def f)
  ultimately show "committed ?k = committed k" "pending ?k = pending k @ [b]" by (simp_all add: append_eq_append_conv)
  show "cr ?k = cr k" by (rule f)
qed

lemma cons_commit:
  assumes "cons_ok k"
  shows "cons_ok (k\<lparr>cw := ce k\<rparr>)" "committed (k\<lparr>cw := ce k\<rparr>) = committed k @ pending k" "pending (k\<lparr>cw := ce k\<rparr>) = []"
  using assms committed_pending(1) [OF assms] by (simp_all add: cons_ok_def committed_def pending_def)

section \<open>Output on the way\<close>

text \<open>Console output only touches the device.\<close>

definition uart_only :: "'a ust_scheme \<Rightarrow> 'a ust_scheme \<Rightarrow> bool" where
  "uart_only s t \<longleftrightarrow> (\<exists>a b c. t = s\<lparr>u_latch := a, u_tx := b, u_busy := c\<rparr>)"

lemma uart_onlyI [simp]: "uart_only s (s\<lparr>u_latch := a, u_tx := b, u_busy := c\<rparr>)"
  unfolding uart_only_def by blast

lemma uart_onlyE:
  assumes "uart_only s t"
  obtains a b c where "t = s\<lparr>u_latch := a, u_tx := b, u_busy := c\<rparr>"
  using assms unfolding uart_only_def by blast

lemma uart_only_refl [simp]: "uart_only s s"
  using uart_onlyI [where s = s and a = "u_latch s" and b = "u_tx s" and c = "u_busy s"] by simp

lemma uart_only_trans [trans]: "uart_only s t \<Longrightarrow> uart_only t u \<Longrightarrow> uart_only s u"
  by (elim uart_onlyE) simp

lemma uartputc_sync_only: "\<not> panicked s \<Longrightarrow> returns (uartputc_sync c s) (uart_only s)"
proof -
  have "WriteReg 0 c (s\<lparr>u_busy := 0\<rparr>) = s\<lparr>u_latch := (if bit (u_regs s 3) 7 then (u_latch s)(0 := c) else u_latch s),
      u_tx := (if bit (u_regs s 3) 7 then u_tx s else u_tx s @ [c]),
      u_busy := (if bit (u_regs s 3) 7 then 0 else u_delay s (length (u_tx s)))\<rparr>"
    by (simp add: WriteReg_def)
  then have "uart_only s (WriteReg 0 c (s\<lparr>u_busy := 0\<rparr>))" unfolding uart_only_def by blast
  then show "\<not> panicked s \<Longrightarrow> returns (uartputc_sync c s) (uart_only s)" by (simp add: uartputc_sync_def)
qed

lemma uart_only_panicked: "uart_only s t \<Longrightarrow> panicked t = panicked s"
  by (auto simp: uart_only_def)

lemma uart_only_bind:
  assumes "returns m (uart_only s)" "\<And>t. uart_only s t \<Longrightarrow> returns (f t) (uart_only t)"
  shows "returns (rbind m f) (uart_only s)"
  using assms by (fastforce simp: returns_def intro: uart_only_trans split: res.splits)

lemma consputc_only: "\<not> panicked s \<Longrightarrow> returns (consputc c s) (uart_only s)"
proof -
  assume p: "\<not> panicked s"
  have "returns (rbind (uartputc_sync 8 s) (\<lambda>s. rbind (uartputc_sync 32 s) (uartputc_sync 8))) (uart_only s)"
    using p by (intro uart_only_bind uartputc_sync_only) (simp_all add: uart_only_panicked)
  then show ?thesis using uartputc_sync_only [OF p] by (simp add: consputc_def)
qed

lemma consputs_only: "\<not> panicked s \<Longrightarrow> returns (consputs cs s) (uart_only s)"
proof (induction cs arbitrary: s)
  case (Cons c cs)
  show ?case
    unfolding consputs.simps
    by (rule uart_only_bind [OF consputc_only [OF Cons.prems]], rule Cons.IH) (use Cons.prems in \<open>simp add: uart_only_panicked\<close>)
qed simp

lemma printf_only:
  assumes "\<not> panicked s" "L_pr \<notin> set (held s)" "printf_text fmt args = Ok t"
  shows "returns (printf fmt args s) (uart_only s)"
proof (cases "pr_locking s")
  case True
  have "returns (consputs t (s\<lparr>held := L_pr # held s\<rparr>)) (uart_only (s\<lparr>held := L_pr # held s\<rparr>))"
    by (rule consputs_only) (simp add: assms(1))
  moreover have "uart_only s (u\<lparr>held := remove1 L_pr (held u)\<rparr>)" "L_pr \<in> set (held u)"
    if "uart_only (s\<lparr>held := L_pr # held s\<rparr>) u" for u
    using that by (auto elim!: uart_onlyE)
  ultimately show ?thesis using True assms(2,3) by (auto simp: printf_def elim!: returnsE)
next
  case False
  then show ?thesis using consputs_only [OF assms(1)] assms(3) by (simp add: printf_def)
qed

lemma pid_text:
  fixes w :: u32
  obtains t where "printint (sint w) 10 True = Ok t"
proof -
  have r: "- (2 ^ 31) \<le> sint w" "sint w < 2 ^ 31" using sint_range_size [of w] by (simp_all add: size_word_def)
  then have s: "sint (scast w :: u64) = sint w" by (simp add: signed_scast_eq signed_take_bit_int_eq_self)
  then have "- (10 ^ 15) < print_value (scast w) True \<and> print_value (scast w) True < 10 ^ 16" using r by (simp add: print_value_def)
  then show ?thesis using that printint_decimal(1) [of "scast w" True] s by auto
qed

lemma dump_text:
  obtains t where "printf_text (ascii ''%d %s %s'') [PInt w, PStr (Some a), PStr (Some b)] = Ok t"
proof -
  obtain u where u: "printint (sint w) 10 True = Ok u" by (rule pid_text)
  show ?thesis
    by (rule that [of "u @ [32] @ cstr a @ [32] @ cstr b"])
      (simp add: printf_text.simps ascii_def ch_def conversion_def conv_text_def u)
qed

lemma procdump_only:
  assumes "\<not> panicked s" "L_pr \<notin> set (held s)"
  shows "returns (procdump s) (uart_only s)"
proof -
  have nl: "returns (printf [10] [] s) (uart_only s)" if "\<not> panicked s" "L_pr \<notin> set (held s)" for s :: "'a prst_scheme"
    by (rule printf_only [OF that, of _ _ "[10]"]) (simp add: printf_text.simps ch_def)
  have "returns (procdump_loop is s) (uart_only s)" if "\<not> panicked s" "L_pr \<notin> set (held s)" for "is" and s :: "'a prst_scheme"
    using that
  proof (induction "is" arbitrary: s)
    case (Cons i "is")
    obtain t where "printf_text (ascii ''%d %s %s'') [PInt (word_of_int (pid (pr s i))),
        PStr (Some (ascii (state_name (pstate (pr s i))))), PStr (Some (pname (pr s i)))] = Ok t" by (rule dump_text)
    note line = printf_only [OF Cons.prems this]
    have keep: "\<not> panicked u" "L_pr \<notin> set (held u)" if "uart_only s u" "\<not> panicked s" "L_pr \<notin> set (held s)" for s u :: "'a prst_scheme"
      using that by (auto elim: uart_onlyE)
    show ?case
      unfolding procdump_loop.simps using Cons keep
      by (auto simp del: returns_rbind intro!: uart_only_bind line nl)
  qed simp
  then show ?thesis
    unfolding procdump_def using assms
    by (intro uart_only_bind nl) (auto elim!: uart_onlyE)
qed

section \<open>The interrupt handlers\<close>

definition cons_view :: "cons \<Rightarrow> bytes \<times> bytes" where
  "cons_view k = (committed k, pending k)"

text \<open>What a handler does besides the ring: output, and wakeups.\<close>

definition cons_step :: "cons \<Rightarrow> 'a cst_scheme \<Rightarrow> 'a cst_scheme \<Rightarrow> bool" where
  "cons_step k s t \<longleftrightarrow> (\<exists>ps. uart_only (s\<lparr>cons := k, procs := ps\<rparr>) t \<and> woken (curproc s) (procs s) ps)"

lemma cons_step_only: "uart_only (s\<lparr>cons := k\<rparr>) t \<Longrightarrow> cons_step k s t"
  unfolding cons_step_def by (rule exI [of _ "procs s"]) simp

lemma uart_only_upd:
  assumes "uart_only s u"
  shows "uart_only (s\<lparr>cons := k, procs := ps\<rparr>) (u\<lparr>cons := k, procs := ps\<rparr>)" "uart_only (s\<lparr>cons := k\<rparr>) (u\<lparr>cons := k\<rparr>)"
proof -
  obtain a b c where u: "u = s\<lparr>u_latch := a, u_tx := b, u_busy := c\<rparr>" by (rule uart_onlyE [OF assms])
  have "u\<lparr>cons := k, procs := ps\<rparr> = s\<lparr>cons := k, procs := ps\<rparr>\<lparr>u_latch := a, u_tx := b, u_busy := c\<rparr>"
    "u\<lparr>cons := k\<rparr> = s\<lparr>cons := k\<rparr>\<lparr>u_latch := a, u_tx := b, u_busy := c\<rparr>" by (simp_all add: u)
  then show "uart_only (s\<lparr>cons := k, procs := ps\<rparr>) (u\<lparr>cons := k, procs := ps\<rparr>)" "uart_only (s\<lparr>cons := k\<rparr>) (u\<lparr>cons := k\<rparr>)"
    by (simp_all only: uart_onlyI)
qed

lemma kill_line_edits:
  "cons_ok (cons s) \<Longrightarrow> \<not> panicked s \<Longrightarrow> length (pending (cons s)) \<le> n \<Longrightarrow>
   returns (kill_line n s) (\<lambda>t. \<exists>k. cons_ok k \<and> committed k = committed (cons s) \<and>
     pending k = rev (dropWhile (\<lambda>b. b \<noteq> newline) (rev (pending (cons s)))) \<and> uart_only (s\<lparr>cons := k\<rparr>) t)"
proof (induction n arbitrary: s)
  case 0
  then have "ce (cons s) = cw (cons s)" "pending (cons s) = []" by (simp_all add: pending_Nil [symmetric])
  then show ?case using 0 by (subst kill_line.simps) (auto intro!: exI [of _ "cons s"])
next
  case (Suc n)
  let ?k = "cons s" let ?b = "?k\<lparr>ce := ce ?k - 1\<rparr>"
  show ?case
  proof (cases "ce ?k = cw ?k")
    case True
    then show ?thesis using Suc.prems by (subst kill_line.simps) (auto simp: pending_Nil [symmetric] intro!: exI [of _ ?k])
  next
    case False
    note bk = cons_back [OF Suc.prems(1) False]
    show ?thesis
    proof (cases "cons_at ?k (ce ?k - 1) = newline")
      case True
      then have "rev (dropWhile (\<lambda>b. b \<noteq> newline) (rev (pending ?k))) = pending ?k" by (subst (1 2) bk(3)) simp
      then show ?thesis using Suc.prems True by (subst kill_line.simps) (auto intro!: exI [of _ ?k])
    next
      case other: False
      let ?s = "upd_cons (\<lambda>c. c\<lparr>ce := ce c - 1\<rparr>) s"
      have "returns (consputc BACKSPACE ?s) (uart_only ?s)" by (rule consputc_only) (simp add: upd_cons_def Suc.prems)
      then obtain u where u: "consputc BACKSPACE ?s = Ok u" "uart_only ?s u" by (rule returnsE)
      have cu: "cons u = ?b" "\<not> panicked u" using u(2) Suc.prems(2) by (auto simp: upd_cons_def elim!: uart_onlyE)
      have "length (pending ?b) \<le> n" using Suc.prems(3) arg_cong [OF bk(3), of length] by simp
      then have "returns (kill_line n u) (\<lambda>t. \<exists>k. cons_ok k \<and> committed k = committed ?b \<and>
          pending k = rev (dropWhile (\<lambda>b. b \<noteq> newline) (rev (pending ?b))) \<and> uart_only (u\<lparr>cons := k\<rparr>) t)"
        using Suc.IH [of u] bk(1) cu by simp
      moreover have "uart_only (s\<lparr>cons := k\<rparr>) t" if "uart_only (u\<lparr>cons := k\<rparr>) t" for k t
        using that u(2) by (auto simp: upd_cons_def elim!: uart_onlyE)
      moreover have "rev (dropWhile (\<lambda>b. b \<noteq> newline) (rev (pending ?k))) = rev (dropWhile (\<lambda>b. b \<noteq> newline) (rev (pending ?b)))"
        using other by (subst bk(3)) simp
      moreover have "kill_line (Suc n) s = kill_line n u" using False other u(1) by (subst kill_line.simps) simp
      ultimately show ?thesis using bk(2) by (auto elim!: returns_mono)
    qed
  qed
qed

definition cons_ready :: "'a cst_scheme \<Rightarrow> bool" where
  "cons_ready s \<longleftrightarrow> cons_ok (cons s) \<and> \<not> panicked s \<and> held s = [] \<and> uart_ready s"

lemma cons_store:
  assumes s: "cons_ok (cons s)" "\<not> panicked s" "table_ok s"
    and room: "length (committed (cons s)) + length (pending (cons s)) < INPUT_BUF_SIZE"
    and c: "c = uint b"
  shows "returns (rbind (consputc c s) (\<lambda>s.
              let s = upd_cons (cons_put b) s
              in if c = uint newline \<or> c = uint ctrl_D \<or> ce (cons s) - cr (cons s) = of_nat INPUT_BUF_SIZE
                 then wakeup Ch_cons_r (upd_cons (\<lambda>k. k\<lparr>cw := ce k\<rparr>) s)
                 else Ok s))
    (\<lambda>t. \<exists>k. cons_ok k \<and> cons_step k s t \<and> cons_view k =
       (if b = newline \<or> b = ctrl_D \<or> Suc (length (committed (cons s)) + length (pending (cons s))) = INPUT_BUF_SIZE
        then (committed (cons s) @ pending (cons s) @ [b], []) else (committed (cons s), pending (cons s) @ [b])))"
proof -
  have "returns (consputc c s) (uart_only s)" by (rule consputc_only [OF s(2)])
  then obtain u where u: "consputc c s = Ok u" "uart_only s u" by (rule returnsE)
  have cu: "cons u = cons s" using u(2) by (auto elim!: uart_onlyE)
  let ?k = "cons_put b (cons s)"
  note p = cons_put_law [OF s(1) room, of b]
  have full: "ce ?k - cr ?k = of_nat INPUT_BUF_SIZE \<longleftrightarrow> Suc (length (committed (cons s)) + length (pending (cons s))) = INPUT_BUF_SIZE"
  proof -
    have "ce ?k - cr ?k = of_nat INPUT_BUF_SIZE \<longleftrightarrow> unat (ce ?k - cr ?k) = INPUT_BUF_SIZE"
      by (simp add: word_unat_eq_iff INPUT_BUF_SIZE_def)
    then show ?thesis using committed_pending(2) [OF p(1)] p(2,3) by simp
  qed
  have nl: "c = uint newline \<longleftrightarrow> b = newline" "c = uint ctrl_D \<longleftrightarrow> b = ctrl_D" by (simp_all add: c word_uint_eq_iff)
  let ?w = "(upd_cons (cons_put b) u)\<lparr>cons := ?k\<lparr>cw := ce ?k\<rparr>\<rparr>"
  have "table_ok ?w" using s(3) u(2) by (auto simp: table_ok_def unlocked_def upd_cons_def elim!: uart_onlyE)
  then obtain ps where ps: "wakeup Ch_cons_r ?w = Ok (?w\<lparr>procs := ps\<rparr>)" "woken (curproc ?w) (procs ?w) ps" by (rule wakeup_woken)
  have "cons_step ?k s (upd_cons (cons_put b) u)"
    by (rule cons_step_only) (use uart_only_upd(2) [OF u(2)] in \<open>simp add: upd_cons_def cu\<close>)
  moreover have "cons_step (?k\<lparr>cw := ce ?k\<rparr>) s (?w\<lparr>procs := ps\<rparr>)"
    unfolding cons_step_def
    by (rule exI [of _ ps]) (use ps(2) u(2) uart_only_upd(1) [OF u(2)] in \<open>auto simp: upd_cons_def elim!: uart_onlyE\<close>)
  ultimately show ?thesis
    using u(1) ps(1) p cons_commit [OF p(1)] full nl cu
    by (intro exI [of _ "if b = newline \<or> b = ctrl_D \<or> Suc (length (committed (cons s)) + length (pending (cons s))) = INPUT_BUF_SIZE
        then ?k\<lparr>cw := ce ?k\<rparr> else ?k"] | auto simp: Let_def upd_cons_def cons_view_def)+
qed

lemma console_key_edits:
  assumes s: "cons_ok (cons s)" "\<not> panicked s" "table_ok s" "L_pr \<notin> set (held s)"
  shows "returns (console_key (uint c) s) (\<lambda>t. \<exists>k. cons_ok k \<and> cons_step k s t \<and> cons_view k = edit c (cons_view (cons s)))"
    (is "returns _ ?P")
proof -
  let ?k = "cons s"
  have e: "uint c = n \<longleftrightarrow> c = word_of_int n" if "0 \<le> n" "n < 256" for n
    using that by (simp add: word_uint_eq_iff unsigned_of_int take_bit_int_eq_self)
  have e0: "uint c = ctrl_P \<longleftrightarrow> c = 16" "uint c = ctrl_U \<longleftrightarrow> c = 21" "uint c = ctrl_H \<longleftrightarrow> c = 8" "uint c = 127 \<longleftrightarrow> c = 127"
    "uint c = 0 \<longleftrightarrow> c = 0" "uint c = 13 \<longleftrightarrow> c = 13"
    by (simp_all add: ctrl_P_def ctrl_U_def ctrl_H_def e)
  have room: "ce ?k - cr ?k < of_nat INPUT_BUF_SIZE \<longleftrightarrow> length (committed ?k) + length (pending ?k) < INPUT_BUF_SIZE"
    using committed_pending(2) [OF s(1)] by (simp add: word_less_nat_alt INPUT_BUF_SIZE_def)
  have same: "?P t" if "uart_only s t" "edit c (cons_view ?k) = cons_view ?k" for t
    using that s(1) cons_step_only [of ?k s t] by (intro exI [of _ ?k]) simp
  note key = console_key_def [of "uint c" s, unfolded e0 room]
  consider "c = 16" | "c = 21" | "c = 8 \<or> c = 127" | "c \<notin> {16, 21, 8, 127}" by auto
  then show ?thesis
  proof cases
    case 1
    have "edit c (cons_view ?k) = cons_view ?k" using 1 by (simp add: edit_def split_beta)
    then have "returns (procdump s) ?P" by (intro returns_mono [OF procdump_only [OF s(2,4)]] same)
    then show ?thesis unfolding key using 1 by simp
  next
    case 2
    have "edit c (cons_view ?k) = (committed ?k, rev (dropWhile (\<lambda>b. b \<noteq> newline) (rev (pending ?k))))"
      using 2 by (simp add: edit_def cons_view_def)
    then have "returns (kill_line (length (pending ?k)) s) ?P"
      by (intro returns_mono [OF kill_line_edits [OF s(1,2) order_refl]]) (auto simp: cons_view_def intro: cons_step_only)
    then show ?thesis unfolding key using 2 by (simp add: pending_def)
  next
    case 3
    have e: "edit c (cons_view ?k) = (committed ?k, butlast (pending ?k))" using 3 by (auto simp: edit_def cons_view_def)
    show ?thesis
    proof (cases "ce ?k = cw ?k")
      case True
      then have "edit c (cons_view ?k) = cons_view ?k" using e by (simp add: cons_view_def pending_Nil [symmetric])
      from same [OF uart_only_refl this] show ?thesis unfolding key using 3 True by auto
    next
      case False
      let ?s = "upd_cons (\<lambda>k. k\<lparr>ce := ce k - 1\<rparr>) s" and ?b = "?k\<lparr>ce := ce ?k - 1\<rparr>"
      note b = cons_back [OF s(1) False]
      have "cons_view ?b = edit c (cons_view ?k)" unfolding e unfolding cons_view_def b(2) by (simp add: b(3))
      moreover have "returns (consputc BACKSPACE ?s) (uart_only ?s)" by (rule consputc_only) (simp add: upd_cons_def s)
      ultimately have "returns (consputc BACKSPACE ?s) ?P"
        using b(1) cons_step_only [of ?b s] by (elim returns_mono) (auto simp: upd_cons_def intro!: exI [of _ ?b])
      then show ?thesis unfolding key using 3 False by auto
    qed
  next
    case 4
    show ?thesis
    proof (cases "c \<noteq> 0 \<and> length (committed ?k) + length (pending ?k) < INPUT_BUF_SIZE")
      case True
      define b where "b = (if c = 13 then newline else c)"
      have u: "(if c = 13 then 10 else uint c) = uint b" by (simp add: b_def newline_def)
      have e: "edit c (cons_view ?k) =
          (if b = newline \<or> b = ctrl_D \<or> Suc (length (committed ?k) + length (pending ?k)) = INPUT_BUF_SIZE
           then (committed ?k @ pending ?k @ [b], []) else (committed ?k, pending ?k @ [b]))"
        using 4 True by (simp add: edit_def cons_view_def Let_def b_def [symmetric])
      have k: "console_key (uint c) s = rbind (consputc (uint b) s) (\<lambda>s.
              let s = upd_cons (cons_put b) s
              in if uint b = uint newline \<or> uint b = uint ctrl_D \<or> ce (cons s) - cr (cons s) = of_nat INPUT_BUF_SIZE
                 then wakeup Ch_cons_r (upd_cons (\<lambda>k. k\<lparr>cw := ce k\<rparr>) s)
                 else Ok s)"
        unfolding key u using 4 True by (simp add: Let_def cong: if_cong)
      show ?thesis unfolding k e by (rule cons_store [OF s(1-3) _ refl]) (use True in simp)
    next
      case False
      then have "edit c (cons_view ?k) = cons_view ?k" using 4 by (auto simp: edit_def cons_view_def)
      from same [OF uart_only_refl this] show ?thesis unfolding key using 4 False by auto
    qed
  qed
qed

lemma consoleintr_edits:
  assumes "cons_ready s"
  shows "returns (consoleintr (uint c) s) (\<lambda>t. cons_ready t \<and> cons_view (cons t) = edit c (cons_view (cons s)) \<and>
     keyboard_int_cnt t = keyboard_int_cnt s + 1 \<and> u_rx t = u_rx s)"
proof -
  let ?s = "s\<lparr>held := [L_cons], keyboard_int_cnt := keyboard_int_cnt s + 1\<rparr>"
  have s: "cons_ok (cons s)" "\<not> panicked s" "held s = []" "uart_ready s" using assms by (simp_all add: cons_ready_def)
  then have "table_ok ?s" by (simp add: uart_ready_def table_ok_def unlocked_def)
  then have "returns (console_key (uint c) ?s) (\<lambda>t. \<exists>k. cons_ok k \<and> cons_step k ?s t \<and> cons_view k = edit c (cons_view (cons ?s)))"
    using s by (intro console_key_edits) simp_all
  then obtain t k where t: "console_key (uint c) ?s = Ok t" "cons_ok k" "cons_step k ?s t" "cons_view k = edit c (cons_view (cons s))"
    by (auto elim!: returnsE)
  obtain ps where ps: "uart_only (?s\<lparr>cons := k, procs := ps\<rparr>) t" "woken (curproc s) (procs s) ps"
    using t(3) by (auto simp: cons_step_def)
  have f: "cons t = k" "held t = [L_cons]" "panicked t = panicked s" "keyboard_int_cnt t = keyboard_int_cnt s + 1" "u_rx t = u_rx s"
    "uart_tx_buf t = uart_tx_buf s" "uart_tx_r t = uart_tx_r s" "uart_tx_w t = uart_tx_w s" "u_regs t = u_regs s" "procs t = ps"
    using ps(1) by (auto elim!: uart_onlyE)
  have "uart_ready (t\<lparr>held := []\<rparr>)"
    using s(4) woken_length [OF ps(2)] tx_cong(1) [of "t\<lparr>held := []\<rparr>" s] f by (simp add: uart_ready_def table_ok_def unlocked_def)
  then show ?thesis using s t f by (simp add: consoleintr_def cons_ready_def)
qed

lemma uartintr_loop_edits:
  "cons_ready s \<Longrightarrow> u_rx s = cs \<Longrightarrow>
   returns (uartintr_loop (length cs) s) (\<lambda>t. cons_ready t \<and> cons_view (cons t) = fold edit cs (cons_view (cons s)) \<and>
     keyboard_int_cnt t = keyboard_int_cnt s + int (length cs) \<and> u_rx t = [])"
proof (induction cs arbitrary: s)
  case (Cons c cs)
  let ?s = "s\<lparr>u_rx := cs\<rparr>"
  have "cons_ready ?s" using Cons.prems(1) tx_cong(1) [of ?s s] by (simp add: cons_ready_def uart_ready_def table_ok_def unlocked_def)
  then obtain t where t: "consoleintr (uint c) ?s = Ok t" "cons_ready t" "cons_view (cons t) = edit c (cons_view (cons s))"
      "keyboard_int_cnt t = keyboard_int_cnt s + 1" "u_rx t = cs"
    by (elim returnsE [OF consoleintr_edits, of ?s c]) auto
  have "uint c \<noteq> -1" using uint_ge_0 [of c] by linarith
  then show ?case using Cons.IH [OF t(2,5)] t Cons.prems(2) by (simp add: uartgetc_def add.assoc)
qed (simp add: uartgetc_def)

text \<open>C30. The interrupt handler of the serial port takes every received byte and applies the
  editing rules to each in turn: committed input is never changed by a later key, erasing
  stops at the start of the line, input is dropped only when the ring is full, and the
  handler returns with the ring well formed and the receiver drained.\<close>

theorem uartintr_edits:
  assumes "cons_ready s"
  shows "returns (uartintr s) (\<lambda>t. cons_ready t \<and> cons_view (cons t) = fold edit (u_rx s) (cons_view (cons s)) \<and>
     keyboard_int_cnt t = keyboard_int_cnt s + int (length (u_rx s)) \<and> u_rx t = [])"
proof -
  obtain t where t: "uartintr_loop (length (u_rx s)) s = Ok t" "cons_ready t" "cons_view (cons t) = fold edit (u_rx s) (cons_view (cons s))"
      "keyboard_int_cnt t = keyboard_int_cnt s + int (length (u_rx s))" "u_rx t = []"
    by (rule returnsE [OF uartintr_loop_edits [OF assms refl]]) auto
  let ?t = "t\<lparr>held := [L_uart_tx]\<rparr>"
  have r: "held t = []" "cons_ok (cons t)" "\<not> panicked t" using t(2) by (simp_all add: cons_ready_def)
  have "uart_ready ?t" using t(2) tx_cong(1) [of ?t t] by (simp add: cons_ready_def uart_ready_def table_ok_def unlocked_def)
  then have "returns (uartstart ?t) (uart_sent [] ?t)" by (rule uartstart_sends)
  then obtain u where u: "uartstart ?t = Ok u" "uart_sent [] ?t u" by (rule returnsE)
  have fr: "uart_frame ?t u" "held u = [L_uart_tx]" "\<not> panicked u" "uart_ready u" using u(2) r by (simp_all add: uart_sent_def)
  have f: "cons u = cons t" "u_rx u = []" "keyboard_int_cnt u = keyboard_int_cnt t" using fr(1) t(5) by (auto elim!: uart_frameE)
  have "uart_ready (u\<lparr>held := []\<rparr>)"
    using fr(4) tx_cong(1) [of "u\<lparr>held := []\<rparr>" u] by (simp add: uart_ready_def table_ok_def unlocked_def)
  then show ?thesis using t r u(1) fr f by (simp add: uartintr_def cons_ready_def)
qed

theorem uartintr_edits_witness:
  "returns (uartintr ((demo_pp demo_mem empty_pipe ())\<lparr>u_rx := [108, 120, 127, 115, 13]\<rparr>))
     (\<lambda>t. committed (cons t) = [108, 115, 10] \<and> pending (cons t) = [])"
proof -
  let ?s = "(demo_pp demo_mem empty_pipe ())\<lparr>u_rx := [108, 120, 127, 115, 13]\<rparr>"
  have "cons_ready ?s"
    by (simp add: cons_ready_def uart_ready_def tx_ok_def demo_pp_def ring_ok_def UART_TX_BUF_SIZE_def
        table_ok_def unlocked_def user_procs_def run_procs_def NPROC_def cons_ok_def INPUT_BUF_SIZE_def)
  moreover have "cons_view (cons ?s) = ([], [])"
    by (simp add: demo_pp_def cons_view_def committed_def pending_def)
  ultimately show ?thesis
    using uartintr_edits [of ?s]
    by (auto simp: edit_def cons_view_def newline_def ctrl_D_def INPUT_BUF_SIZE_def elim: returns_mono)
qed

end
