(* ===== verification/Spec2Isabelle.thy ===== *)
theory Spec2Isabelle
  imports Log_Reserve Pipe_Fifo Vm_Copy Vm_Free Trap Datetime Random_Numbers Console_Edit Virtio_Desc
begin

text \<open>
  \<^bold>\<open>A model of xv6 for RISC-V and the properties that make it correct.\<close>

  \<^bold>\<open>The program.\<close> \<^verbatim>\<open>kernel/\<close> is a teaching kernel: spin locks and sleep locks, a page
  allocator, Sv39 page tables, processes with three scheduling policies, a buffer cache, a
  write-ahead log, a file system with inodes and directories, pipes, open files, program
  loading, a serial port, a console, a virtio disk, traps and the system calls. This version
  adds calls of its own (process table dumps, scheduling statistics, random numbers, the
  date, a keystroke counter, shutdown). \<^verbatim>\<open>user/\<close> holds the programs that run on it and
  \<^verbatim>\<open>mkfs/\<close> the tool that builds the disk image.

  \<^bold>\<open>How the code is modelled.\<close> A function of the kernel is a HOL function of the same name
  from a state to a result. The state is one record that grows by extension, a layer per
  component, so that a function mentions only the fields it and its callees use:
  \<^item> \<open>kst\<close> the spin locks held; \<open>phys\<close> memory byte by byte and the free list;
  \<^item> \<open>pst\<close> the process table, the running process, pids, ticks, the scheduling policy, trap frames;
  \<^item> \<open>sst\<close> sleep locks; \<open>bst\<close> buffers, the disk and the sequence of disk writes; \<open>lst\<close> the log;
  \<^item> \<open>fsst\<close> superblock and inodes; \<open>ust\<close>, \<open>prst\<close>, \<open>cst\<close> serial port, printf, console;
  \<^item> \<open>ppst\<close> pipes; \<open>flst\<close> the file table; \<open>vst\<close> the disk queue; \<open>sysst\<close> the counters of the added
    calls; \<open>trst\<close> the registers of the hart.

  A result (\<open>res\<close>) is \<open>Ok\<close> of a value and a state, \<open>Panic\<close> with the message the kernel
  prints, \<open>Block\<close> with the channel a thread would sleep on, or \<open>NoFuel\<close>. A function that may
  sleep in the middle is modelled from one sleep to the next: \<open>Sleeping c\<close> in its
  result is the state at \<^verbatim>\<open>sleep(c)\<close>, and calling it again is the loop after the wakeup.
  Machine integers are words of their width; a C pointer to a structure of a table is its
  index; a pointer into memory is a 64-bit address. Only \<open>Spinlock\<close> models several CPUs at
  once, one step per atomic action; above it a component runs under its lock, and
  interleavings are the orders in which rounds between sleeps are composed.

  \<^bold>\<open>The theories.\<close>
  \<^item> \<open>Xv6_Prelude\<close>: results, words, lists, the constants of \<^verbatim>\<open>param.h\<close>, \<^verbatim>\<open>riscv.h\<close>, \<^verbatim>\<open>memlayout.h\<close>.
  \<^item> \<open>Spinlock\<close> (\<^verbatim>\<open>spinlock.c\<close>): a step relation of CPUs and locks; mutual exclusion and the return
    of \<^verbatim>\<open>release\<close>, by an invariant of the reachable states. Then the sequential
    \<open>acquire\<close>/\<open>release\<close> the rest of the kernel uses.
  \<^item> \<open>Strings\<close>, \<open>Phys_Mem\<close> (\<^verbatim>\<open>string.c\<close>): bytes, strings, overlapping moves.
  \<^item> \<open>Kalloc\<close> (\<^verbatim>\<open>kalloc.c\<close>): the free list lives in the free pages; \<^verbatim>\<open>kinit\<close> frees every page once.
  \<^item> \<open>Vm\<close> (\<^verbatim>\<open>vm.c\<close>): walks and copies over the bytes of the page tables. \<open>Pt_Tree\<close> gives a table
    its tree of pages and the separation invariant; \<open>Vm_Map\<close>, \<open>Vm_Free\<close>, \<open>Vm_Copy\<close> are the contracts of
    mapping, unmapping and freeing, and the copies between kernel and user memory.
  \<^item> \<open>Proc\<close>, \<open>Sched\<close>, \<open>Proc_Life\<close> (\<^verbatim>\<open>proc.c\<close>): the process table, wakeup, the choice of the next
    process under each policy, fork, exit, wait. The locale \<open>proc_sweep\<close> is the shape of
    a loop over the table under the locks of its slots.
  \<^item> \<open>Sleeplock\<close> (\<^verbatim>\<open>sleeplock.c\<close>), \<open>Bio\<close> (\<^verbatim>\<open>bio.c\<close>), \<open>Bio_View\<close>: the cache is a reference-counted
    view of the disk, and evicts the least recently used buffer.
  \<^item> \<open>Block_Data\<close>, \<open>Log\<close> (\<^verbatim>\<open>log.c\<close>), \<open>Log_Steps\<close>, \<open>Log_Crash\<close>, \<open>Log_Recovery\<close>, \<open>Log_Ops\<close>: the writes of
    a commit in order, the disk after a crash at any of them, what recovery makes of it
    (all of the transaction or none of it), recovery interrupted and restarted, and the
    calls that the file system makes on the log.
  \<^item> \<open>Fs\<close> (\<^verbatim>\<open>fs.c\<close>), \<open>File\<close> (\<^verbatim>\<open>file.c\<close>), \<open>Exec\<close> (\<^verbatim>\<open>exec.c\<close>), \<open>Sysfile\<close> (\<^verbatim>\<open>sysfile.c\<close>, argument fetching of
    \<^verbatim>\<open>syscall.c\<close>), \<open>Sysproc\<close> (\<^verbatim>\<open>sysproc.c\<close>, \<^verbatim>\<open>sysutil.c\<close>, the dispatcher): the calls of the kernel.
  \<^item> \<open>Ring\<close>: circular buffers with free-running counters and the locale \<open>fifo\<close>, interpreted on
    the pipe (\<open>Pipe\<close>, \<open>Pipe_Fifo\<close>: \<^verbatim>\<open>pipe.c\<close>) and the transmit buffer of the serial port (\<open>Uart\<close>,
    \<open>Uart_Stream\<close>: \<^verbatim>\<open>uart.c\<close>).
  \<^item> \<open>Printf\<close>, \<open>Printf_Digits\<close> (\<^verbatim>\<open>printf.c\<close>): printed numbers read back as what was printed.
  \<^item> \<open>Console\<close>, \<open>Console_Edit\<close> (\<^verbatim>\<open>console.c\<close>): the input ring is committed input and an edited line.
  \<^item> \<open>Virtio\<close>, \<open>Virtio_Desc\<close> (\<^verbatim>\<open>virtio_disk.c\<close>): the descriptor chains the driver hands to the device.
  \<^item> \<open>Datetime\<close> (\<^verbatim>\<open>sysutil.c\<close>): the date computation against the Gregorian calendar.
  \<^item> \<open>Riscv\<close>, \<open>Trap\<close> (\<^verbatim>\<open>riscv.h\<close>, \<^verbatim>\<open>start.c\<close>, \<^verbatim>\<open>trap.c\<close>, \<^verbatim>\<open>plic.c\<close>, \<^verbatim>\<open>main.c\<close>): boot and traps.

  \<^bold>\<open>Bounds and fuel.\<close> Loops over a table or a range of indices are recursions over the list
  of indices. The loops whose end depends on data have fuel, and running out of it is
  \<open>NoFuel\<close>: one round per page of the range for \<^verbatim>\<open>freerange\<close>, \<^verbatim>\<open>mappages\<close>, \<^verbatim>\<open>uvmunmap\<close>, \<^verbatim>\<open>uvmalloc\<close>,
  \<^verbatim>\<open>uvmcopy\<close>; the three levels of a Sv39 table for \<^verbatim>\<open>freewalk\<close>; \<open>NBUF\<close> and one steps along the buffer
  ring; the number of buffered bytes for \<^verbatim>\<open>uartstart\<close> and the erased line; the number of
  received bytes for \<^verbatim>\<open>uartintr\<close>; \<open>NUM\<close> descriptors for a chain. The claims about these functions
  are that they return a result, so they show that the fuel is enough. A loop
  that waits for another thread has no fuel: it ends in \<open>Sleeping\<close> or \<open>Block\<close>. A kernel that
  spins after a panic, and a call that does not return to its caller, are also \<open>NoFuel\<close>.

  \<^bold>\<open>Not modelled.\<close> Assembly (\<^verbatim>\<open>entry.S\<close>, \<^verbatim>\<open>swtch.S\<close>, \<^verbatim>\<open>trampoline.S\<close>, \<^verbatim>\<open>kernelvec.S\<close>,
  \<^verbatim>\<open>initcode.S\<close>): the model stops at the switch and starts again behind it. The devices (UART,
  virtio disk, PLIC, timer) are registers that the driver reads and writes; what the disk does
  with a request is a read or write of a block. Lock names and the initialisation of locks
  carry no behaviour. The weak memory model is not modelled: atomic swaps and fences are
  sequentially consistent steps. The programs of \<^verbatim>\<open>user/\<close> run above the system calls and are not
  part of the kernel; \<^verbatim>\<open>mkfs\<close> runs on the host.
\<close>

end
